(* ===== verification/Edge_Prelude.thy ===== *)
theory Edge_Prelude
  imports Main "HOL-Library.Word" "HOL-Library.Multiset" "HOL-Library.Signed_Division"
begin

text \<open>
  Shared vocabulary of the edge-omni development: the machine integer types of the ILP32
  target (32-bit ARM, as the object files in the repository show), C's truncating division,
  the collections of facts the component theories extend, and generic lemmas on bit masks,
  list updates and folds of partial operations.

  Undefined behaviour of C (a read or a store outside an array) is the value \<open>None\<close> of an
  \<open>option\<close>, so that a proof that an operation returns \<open>Some\<close> is a proof that it has none.
\<close>

unbundle bit_operations_syntax

section \<open>Machine integers\<close>

type_synonym u8 = "8 word"
type_synonym u16 = "16 word"
type_synonym u32 = "32 word"
type_synonym u64 = "64 word"

text \<open>\<open>int32_t\<close> and the \<open>atomic_int\<close> counters are kept as bit patterns and read with \<open>sint\<close>:
  the atomic read-modify-write operations of C11 wrap in two's complement.\<close>

type_synonym i32 = "32 word"
type_synonym i16 = "16 word"

abbreviation int_max :: int where "int_max \<equiv> 2147483647"

text \<open>The C library's \<open>struct timespec\<close>, as \<open>clock_gettime\<close> fills it.\<close>

record timespec =
  tv_sec :: int
  tv_nsec :: int

text \<open>The error numbers of Linux that the code uses.\<close>

definition EIO :: int where "EIO = 5"
definition ENXIO :: int where "ENXIO = 6"
definition EAGAIN :: int where "EAGAIN = 11"
definition ENOMEM :: int where "ENOMEM = 12"
definition EBUSY :: int where "EBUSY = 16"
definition ENODEV :: int where "ENODEV = 19"
definition EINVAL :: int where "EINVAL = 22"
definition ENODATA :: int where "ENODATA = 61"
definition ENOTSUP :: int where "ENOTSUP = 95"
definition ETIMEDOUT :: int where "ETIMEDOUT = 110"
definition EREMOTEIO :: int where "EREMOTEIO = 121"

lemmas errno_defs = EIO_def ENXIO_def EAGAIN_def ENOMEM_def EBUSY_def ENODEV_def
  EINVAL_def ENODATA_def ENOTSUP_def ETIMEDOUT_def EREMOTEIO_def

named_theorems ok_simps \<open>equations that unfold a well-formedness predicate\<close>

section \<open>Masks of powers of two\<close>

definition pow2_mask :: "nat \<Rightarrow> u32" where
  "pow2_mask k = 2 ^ k - 1"

lemma unat_pow2: "unat (2 ^ k :: u32) = 2 ^ k" if "k < 32"
proof -
  have "(2 :: nat) ^ k < 2 ^ 32"
    using that by (intro power_strict_increasing) auto
  then have "unat (of_nat (2 ^ k) :: u32) = 2 ^ k"
    by (simp only: unsigned_of_nat) (simp add: take_bit_nat_eq_self that)
  then show ?thesis by (simp only: of_nat_power of_nat_numeral)
qed

lemma unat_pow2_mask: "unat (pow2_mask k) = 2 ^ k - 1" if "k < 32"
proof -
  have "unat (2 ^ k :: u32) \<noteq> 0"
    using that by (simp add: unat_pow2)
  then have "unat (2 ^ k - 1 :: u32) = unat (2 ^ k :: u32) - 1"
    by (intro unat_minus_one) (metis unsigned_0)
  then show ?thesis
    using that by (simp add: pow2_mask_def unat_pow2)
qed

lemma pow2_mask_eq_mask: "pow2_mask k = (Bit_Operations.mask k :: u32)"
  by (simp add: pow2_mask_def mask_eq_decr_exp)

lemma unat_and_pow2_mask: "unat (x AND pow2_mask k) = unat x mod 2 ^ k" for x :: u32
proof -
  have "x AND pow2_mask k = take_bit k x"
    by (simp add: pow2_mask_eq_mask take_bit_eq_mask)
  moreover have "unat (take_bit k x) = take_bit k (unat x)"
    by (rule unsigned_take_bit_eq)
  ultimately show ?thesis
    by (simp only: take_bit_eq_mod)
qed

lemma unat_sub_le: "unat (y - x) = unat y - unat x" if "unat x \<le> unat y" for x y :: "'a::len word"
  using that by (metis unat_sub word_le_nat_alt)

lemma unat_inc: "unat (x + 1) = unat x + 1" if "unat x + 1 < 2 ^ LENGTH('a)" for x :: "'a::len word"
  using that by (simp add: unat_word_ariths)

lemma unat_mod_pow2_eq: "unat (x + y) mod 2 ^ k = (unat x + unat y) mod 2 ^ k" if "k \<le> 32" for x y :: u32
proof -
  have "(2 :: nat) ^ k dvd 2 ^ 32"
    using that by (rule le_imp_power_dvd)
  then show ?thesis
    by (simp add: unat_word_ariths mod_mod_cancel)
qed

lemma mod_add_left_inj_le: "i \<le> j \<Longrightarrow> j < n \<Longrightarrow> (a + i) mod n = (a + j) mod n \<Longrightarrow> i = j" for i j n a :: nat
  using mod_eq_dvd_iff_nat [of "a + i" "a + j" n] by (auto dest: dvd_imp_le)

lemma mod_add_left_inj: "i < n \<Longrightarrow> j < n \<Longrightarrow> (a + i) mod n = (a + j) mod n \<longleftrightarrow> i = j" for i j n a :: nat
  by (metis mod_add_left_inj_le nle_le)

section \<open>Lists\<close>

lemma map_nth_shift: "map (\<lambda>i. f (m + i)) [0..<n] = map f [m..<m + n]"
  by (rule nth_equalityI) auto

lemma upt_rec_hd: "i < j \<Longrightarrow> map f [i..<j] = f i # map f [Suc i..<j]"
  by (simp add: upt_conv_Cons)

lemma set_drop_conv: "x \<in> set (drop i l) \<longleftrightarrow> (\<exists>p. i \<le> p \<and> p < length l \<and> l ! p = x)"
proof
  assume "x \<in> set (drop i l)"
  then obtain q where "q < length l - i" "l ! (i + q) = x"
    by (auto simp: in_set_conv_nth)
  then show "\<exists>p. i \<le> p \<and> p < length l \<and> l ! p = x"
    by (intro exI [of _ "i + q"]) auto
next
  assume "\<exists>p. i \<le> p \<and> p < length l \<and> l ! p = x"
  then obtain p where "i \<le> p" "p < length l" "l ! p = x" by blast
  then show "x \<in> set (drop i l)"
    by (auto simp: in_set_conv_nth intro!: exI [of _ "p - i"])
qed

lemma mset_rotate_eq [simp]: "mset (rotate n xs) = mset xs"
  by (simp add: rotate_drop_take flip: mset_append) (metis add.commute append_take_drop_id mset_append)

section \<open>Decimal numbers\<close>

text \<open>What \<open>printf\<close> writes for \<open>%d\<close> and what \<open>atoi\<close> reads.\<close>

fun string_of_nat :: "nat \<Rightarrow> string" where
  "string_of_nat n =
     (if n < 10 then [char_of (48 + n)] else string_of_nat (n div 10) @ [char_of (48 + n mod 10)])"

declare string_of_nat.simps [simp del]

definition string_of_int :: "int \<Rightarrow> string" where
  "string_of_int v = (if v < 0 then CHR ''-'' # string_of_nat (nat (- v)) else string_of_nat (nat v))"

definition is_digit :: "char \<Rightarrow> bool" where
  "is_digit c \<longleftrightarrow> 48 \<le> (of_char c :: nat) \<and> (of_char c :: nat) \<le> 57"

definition is_space :: "char \<Rightarrow> bool" where
  "is_space c \<longleftrightarrow> (of_char c :: nat) = 32 \<or> 9 \<le> (of_char c :: nat) \<and> (of_char c :: nat) \<le> 13"

fun digits_value :: "int \<Rightarrow> string \<Rightarrow> int" where
  "digits_value acc [] = acc"
| "digits_value acc (c # cs) =
     (if is_digit c then digits_value (acc * 10 + (int (of_char c) - 48)) cs else acc)"

text \<open>\<open>strtol\<close> answers the nearest \<open>long\<close> for a number outside its 32 bits.\<close>

definition atoi :: "string \<Rightarrow> int" where
  "atoi s =
     (let s = dropWhile is_space s;
          v = (case s of
                 [] \<Rightarrow> 0
               | c # cs \<Rightarrow> if c = CHR ''-'' then - digits_value 0 cs
                           else if c = CHR ''+'' then digits_value 0 cs else digits_value 0 (c # cs)) in
      max (- 2147483648) (min 2147483647 v))"

lemma digit_char [simp]:
  "n < 10 \<Longrightarrow> is_digit (char_of (48 + n))" "n < 10 \<Longrightarrow> (of_char (char_of (48 + n)) :: nat) = 48 + n"
  by (simp_all add: is_digit_def)

lemma digits_value_string_of_nat:
  "digits_value 0 (string_of_nat n @ cs) = digits_value (int n) cs"
proof (induction n arbitrary: cs rule: string_of_nat.induct)
  case (1 n)
  show ?case
  proof (cases "n < 10")
    case True
    then show ?thesis
      by (simp add: string_of_nat.simps [of n])
  next
    case False
    have "int (n div 10) * 10 + int (n mod 10) = int (n div 10 * 10 + n mod 10)"
      by (simp only: of_nat_add of_nat_mult of_nat_numeral)
    then have "int (n div 10) * 10 + int (n mod 10) = int n"
      by simp
    then show ?thesis
      using False 1 by (simp add: string_of_nat.simps [of n])
  qed
qed

lemma string_of_nat_hd: "\<exists>c cs. string_of_nat n = c # cs \<and> is_digit c"
proof (induction n rule: string_of_nat.induct)
  case (1 n)
  then show ?case
    by (cases "n < 10") (auto simp: string_of_nat.simps [of n])
qed

lemma atoi_string_of_int:
  assumes "- 2147483648 \<le> v" and "v \<le> 2147483647" and "\<not> is_digit c"
  shows "atoi (string_of_int v @ c # cs) = v"
proof -
  obtain d ds where d: "string_of_nat (nat \<bar>v\<bar>) = d # ds" "is_digit d"
    using string_of_nat_hd by blast
  have "\<not> is_space d" "d \<noteq> CHR ''-''" "d \<noteq> CHR ''+''" "\<not> is_space (CHR ''-'')"
    using d(2) by (auto simp: is_digit_def is_space_def)
  moreover have "digits_value 0 (string_of_nat (nat \<bar>v\<bar>) @ c # cs) = \<bar>v\<bar>"
    using assms(3) by (simp add: digits_value_string_of_nat)
  ultimately show ?thesis
    using assms(1,2) d by (cases "v < 0") (auto simp: atoi_def string_of_int_def Let_def)
qed

lemma atoi_digit: "is_digit d \<Longrightarrow> atoi [d] = int (of_char d) - 48"
  by (auto simp: atoi_def is_digit_def is_space_def Let_def)

section \<open>Lengths of decimal texts\<close>

lemma length_string_of_nat: "n < 10 ^ Suc k \<Longrightarrow> length (string_of_nat n) \<le> Suc k"
proof (induction k arbitrary: n)
  case 0
  then show ?case
    by (simp add: string_of_nat.simps [of n])
next
  case (Suc k)
  then have "length (string_of_nat (n div 10)) \<le> Suc k"
    by (intro Suc.IH) (simp add: less_mult_imp_div_less mult.commute)
  then show ?case
    by (simp add: string_of_nat.simps [of n])
qed

lemma length_string_of_int:
  "- 2147483648 \<le> v \<Longrightarrow> v \<le> 2147483648 \<Longrightarrow> length (string_of_int v) \<le> 11"
proof -
  assume "- 2147483648 \<le> v" "v \<le> 2147483648"
  then have "nat \<bar>v\<bar> < 10 ^ Suc 9"
    by simp
  then have "length (string_of_nat (nat \<bar>v\<bar>)) \<le> 10"
    using length_string_of_nat by fastforce
  then show ?thesis
    by (cases "v < 0") (simp_all add: string_of_int_def)
qed

definition int32 :: "int \<Rightarrow> bool" where
  "int32 v \<longleftrightarrow> - 2147483648 \<le> v \<and> v \<le> 2147483647"

lemma int32_sint: "int32 (sint (x :: i32))"
  using sint_greater_eq [of x] sint_less [of x] by (simp add: int32_def)

end
