(* ===== verification/Sensor_Hal.thy ===== *)
theory Sensor_Hal
  imports Edge_Prelude
begin

text \<open>
  The sample type and the driver registry of the hardware abstraction layer
  (\<open>app/include/sensor_hal.h\<close>, \<open>app/hal/hal_register.c\<close>).
\<close>

section \<open>Samples\<close>

record sensor_data =
  timestamp_ns :: u64
  sensor_type :: u8
  channel :: u8
  sd_value :: i32

definition SENSOR_MPU6050 :: u8 where "SENSOR_MPU6050 = 0"
definition SENSOR_SHT30 :: u8 where "SENSOR_SHT30 = 1"

text \<open>Eight bytes of time stamp, two of type and channel, two of padding, four of value.\<close>

abbreviation sizeof_sensor_data :: nat where "sizeof_sensor_data \<equiv> 16"

text \<open>What \<open>calloc\<close> leaves in a \<open>sensor_data_t\<close>.\<close>

definition zero_sensor_data :: sensor_data where
  "zero_sensor_data = \<lparr>timestamp_ns = 0, sensor_type = 0, channel = 0, sd_value = 0\<rparr>"

section \<open>The registry of drivers\<close>

text \<open>The two operation tables the registry points to, as names.\<close>

datatype hal_ops = mpu6050_hal_ops | sht30_hal_ops

definition hal_registry :: "(string option \<times> hal_ops option) list" where
  "hal_registry =
     [(Some ''mpu6050'', Some mpu6050_hal_ops),
      (Some ''sht30'', Some sht30_hal_ops),
      (None, None)]"

text \<open>The loop stops at the entry whose name is NULL.\<close>

fun hal_search :: "(string option \<times> hal_ops option) list \<Rightarrow> string \<Rightarrow> hal_ops option" where
  "hal_search [] sensor_name = None"
| "hal_search ((None, _) # _) sensor_name = None"
| "hal_search ((Some name, ops) # reg) sensor_name =
     (if sensor_name = name then ops else hal_search reg sensor_name)"

definition hal_get_ops :: "string \<Rightarrow> hal_ops option" where
  "hal_get_ops sensor_name = hal_search hal_registry sensor_name"

lemma hal_get_ops_eq [simp]:
  "hal_get_ops n =
     (if n = ''mpu6050'' then Some mpu6050_hal_ops
      else if n = ''sht30'' then Some sht30_hal_ops else None)"
  by (simp add: hal_get_ops_def hal_registry_def)

section \<open>Resources\<close>

text \<open>What an open handle holds: file descriptors, libevdev objects, blocks of memory.\<close>

datatype resource = Fd int | Evdev nat | Block nat

section \<open>The contract of a driver\<close>

text \<open>
  What the client may expect of a read: its result with the samples stored from the start of the
  buffer, when there is room for \<open>limit\<close> samples and the client knows \<open>kinds\<close> channels.
\<close>

definition read_ok :: "nat \<Rightarrow> nat \<Rightarrow> int \<times> sensor_data list \<Rightarrow> bool" where
  "read_ok limit kinds r \<longleftrightarrow> (0 \<le> fst r \<longrightarrow>
     fst r = int (length (snd r)) * int sizeof_sensor_data \<and> length (snd r) \<le> limit
     \<and> (\<forall>x\<in>set (snd r). unat (channel x) < kinds))"

text \<open>
  The contract of the operation table \<open>sensor_hal_ops_t\<close> that its client, the collector thread,
  relies on. A state of the driver is a handle with what the outside will answer; \<open>read\<close> returns
  the result and the samples it stored from the start of the buffer. \<open>good\<close> is the invariant of
  the driver, \<open>size\<close> the number of samples the client has room for, \<open>channels\<close> the number of
  channels it tells apart.
\<close>

locale sensor_driver =
  fixes read :: "nat \<Rightarrow> 's \<Rightarrow> (int \<times> sensor_data list \<times> 's) option"
    and good :: "'s \<Rightarrow> bool"
    and size channels :: nat
  assumes read_good: "good s \<Longrightarrow> read (size * sizeof_sensor_data) s = Some (n, out, s') \<Longrightarrow> good s'"
    and read_size: "good s \<Longrightarrow> read (size * sizeof_sensor_data) s = Some (n, out, s') \<Longrightarrow>
      0 \<le> n \<Longrightarrow> n = int (length out) * int sizeof_sensor_data \<and> length out \<le> size"
    and read_channels: "good s \<Longrightarrow> read (size * sizeof_sensor_data) s = Some (n, out, s') \<Longrightarrow>
      0 \<le> n \<Longrightarrow> x \<in> set out \<Longrightarrow> unat (channel x) < channels"
begin

text \<open>The number of samples the client computes from the result.\<close>

lemma read_count:
  "good s \<Longrightarrow> read (size * sizeof_sensor_data) s = Some (n, out, s') \<Longrightarrow> 0 \<le> n \<Longrightarrow>
    nat (n div int sizeof_sensor_data) = length out"
  using read_size by fastforce

text \<open>So the index of the client's name table is in range for every sample it looks at.\<close>

lemma read_index:
  "good s \<Longrightarrow> read (size * sizeof_sensor_data) s = Some (n, out, s') \<Longrightarrow> 0 \<le> n \<Longrightarrow>
    i < nat (n div int sizeof_sensor_data) \<Longrightarrow> unat (channel (out ! i)) < channels"
  using read_count read_channels by (metis nth_mem)

lemma read_result_ok:
  "good s \<Longrightarrow> read (size * sizeof_sensor_data) s = Some (n, out, s') \<Longrightarrow> read_ok size channels (n, out)"
  using read_size read_channels by (fastforce simp: read_ok_def)

end

end
