(* ===== verification/Fifo.thy ===== *)
theory Fifo
  imports Edge_Prelude
begin

text \<open>
  The contract of a bounded first-in first-out queue whose operations answer a success flag
  or a value, as \<open>app/include/ring_buffer.h\<close> declares them, and what a client that runs a
  sequence of operations may conclude from it. The contract has a budget: the number of
  successful \<open>get\<close>s for which the provider keeps it.
\<close>

section \<open>Sequences of operations\<close>

datatype 'a fifo_op = Put 'a | Get

datatype 'a fifo_out = Accepted bool | Got "'a option"

fun fifo_run ::
  "('q \<Rightarrow> 'a \<Rightarrow> (bool \<times> 'q) option) \<Rightarrow> ('q \<Rightarrow> ('a option \<times> 'q) option) \<Rightarrow> 'q \<Rightarrow> 'a fifo_op list
    \<Rightarrow> ('a fifo_out list \<times> 'q) option" where
  "fifo_run put get q [] = Some ([], q)"
| "fifo_run put get q (Put x # ops) =
     (case put q x of None \<Rightarrow> None
      | Some (b, q') \<Rightarrow> map_option (\<lambda>(outs, q''). (Accepted b # outs, q'')) (fifo_run put get q' ops))"
| "fifo_run put get q (Get # ops) =
     (case get q of None \<Rightarrow> None
      | Some (r, q') \<Rightarrow> map_option (\<lambda>(outs, q''). (Got r # outs, q'')) (fifo_run put get q' ops))"

text \<open>The specification: a list that holds at most \<open>n\<close> elements.\<close>

fun fifo_spec :: "nat \<Rightarrow> 'a list \<Rightarrow> 'a fifo_op list \<Rightarrow> 'a fifo_out list \<times> 'a list" where
  "fifo_spec n xs [] = ([], xs)"
| "fifo_spec n xs (Put x # ops) =
     (if length xs < n
      then let (outs, ys) = fifo_spec n (xs @ [x]) ops in (Accepted True # outs, ys)
      else let (outs, ys) = fifo_spec n xs ops in (Accepted False # outs, ys))"
| "fifo_spec n xs (Get # ops) =
     (case xs of
        [] \<Rightarrow> let (outs, ys) = fifo_spec n [] ops in (Got None # outs, ys)
      | x # xs' \<Rightarrow> let (outs, ys) = fifo_spec n xs' ops in (Got (Some x) # outs, ys))"

text \<open>The elements the queue took, and the elements it gave back.\<close>

fun taken :: "'a fifo_op list \<Rightarrow> 'a fifo_out list \<Rightarrow> 'a list" where
  "taken (Put x # ops) (Accepted True # outs) = x # taken ops outs"
| "taken (op # ops) (out # outs) = taken ops outs"
| "taken _ _ = []"

fun given :: "'a fifo_out list \<Rightarrow> 'a list" where
  "given [] = []"
| "given (Got (Some x) # outs) = x # given outs"
| "given (_ # outs) = given outs"

abbreviation gets :: "'a fifo_op list \<Rightarrow> nat" where
  "gets ops \<equiv> length (filter (\<lambda>x. x = Get) ops)"

text \<open>Nothing is lost, duplicated or reordered by the specification.\<close>

lemma fifo_spec_conserves:
  "fifo_spec n xs ops = (outs, ys) \<Longrightarrow> xs @ taken ops outs = given outs @ ys"
proof (induction n xs ops arbitrary: outs ys rule: fifo_spec.induct)
  case (2 n xs x ops)
  show ?case
  proof (cases "length xs < n")
    case True
    with 2 show ?thesis by (auto split: prod.splits)
  next
    case False
    with 2 show ?thesis by (auto split: prod.splits)
  qed
qed (auto split: prod.splits list.splits)

lemma fifo_spec_bounded:
  "length xs \<le> n \<Longrightarrow> length (snd (fifo_spec n xs ops)) \<le> n"
  by (induction n xs ops rule: fifo_spec.induct) (auto split: prod.splits list.splits)

section \<open>The contract\<close>

locale bounded_fifo =
  fixes put :: "'q \<Rightarrow> 'a \<Rightarrow> (bool \<times> 'q) option"
    and get :: "'q \<Rightarrow> ('a option \<times> 'q) option"
    and contents :: "'q \<Rightarrow> 'a list"
    and limit :: "'q \<Rightarrow> nat"
    and budget :: "'q \<Rightarrow> nat"
    and ok :: "'q \<Rightarrow> bool"
  assumes put_full:
      "ok q \<Longrightarrow> 0 < budget q \<Longrightarrow> length (contents q) = limit q \<Longrightarrow> put q x = Some (False, q)"
    and put_room:
      "ok q \<Longrightarrow> 0 < budget q \<Longrightarrow> length (contents q) < limit q \<Longrightarrow>
        \<exists>q'. put q x = Some (True, q') \<and> ok q' \<and> contents q' = contents q @ [x]
          \<and> limit q' = limit q \<and> budget q' = budget q"
    and get_empty:
      "ok q \<Longrightarrow> contents q = [] \<Longrightarrow> get q = Some (None, q)"
    and get_next:
      "ok q \<Longrightarrow> 0 < budget q \<Longrightarrow> contents q = x # xs \<Longrightarrow>
        \<exists>q'. get q = Some (Some x, q') \<and> ok q' \<and> contents q' = xs
          \<and> limit q' = limit q \<and> budget q' = budget q - 1"
    and within: "ok q \<Longrightarrow> length (contents q) \<le> limit q"
begin

text \<open>A run with fewer \<open>get\<close>s than the budget does what the specification does.\<close>

lemma run_refines:
  "ok q \<Longrightarrow> gets ops < budget q \<Longrightarrow>
    \<exists>q'. fifo_run put get q ops = Some (fst (fifo_spec (limit q) (contents q) ops), q')
      \<and> ok q' \<and> contents q' = snd (fifo_spec (limit q) (contents q) ops) \<and> limit q' = limit q"
proof (induction ops arbitrary: q)
  case Nil
  then show ?case by simp
next
  case (Cons op ops)
  show ?case
  proof (cases op)
    case (Put x)
    then have few: "0 < budget q" "gets ops < budget q"
      using Cons.prems(2) by simp_all
    show ?thesis
    proof (cases "length (contents q) < limit q")
      case True
      then obtain q' where q': "put q x = Some (True, q')" "ok q'"
          "contents q' = contents q @ [x]" "limit q' = limit q" "budget q' = budget q"
        using put_room Cons.prems(1) few(1) by blast
      then show ?thesis
        using Cons.IH [of q'] few(2) Put True by (auto split: prod.splits)
    next
      case False
      then have "put q x = Some (False, q)"
        using put_full within Cons.prems(1) few(1) by (simp add: order_antisym)
      then show ?thesis
        using Cons.IH [of q] Cons.prems(1) few(2) Put False by (auto split: prod.splits)
    qed
  next
    case Get
    have IH: "\<And>q. ok q \<Longrightarrow> gets ops < budget q \<Longrightarrow>
        \<exists>q'. fifo_run put get q ops = Some (fst (fifo_spec (limit q) (contents q) ops), q')
          \<and> ok q' \<and> contents q' = snd (fifo_spec (limit q) (contents q) ops) \<and> limit q' = limit q"
      by (rule Cons.IH)
    have few: "gets ops < budget q - 1"
      using Cons.prems(2) Get by simp
    show ?thesis
    proof (cases "contents q = []")
      case True
      then show ?thesis
        using IH [of q] Cons.prems(1) few get_empty [of q] Get by (auto split: prod.splits)
    next
      case False
      then obtain x xs where xs: "contents q = x # xs"
        by (meson neq_Nil_conv)
      have "0 < budget q"
        using few by simp
      then obtain q' where q': "get q = Some (Some x, q')" "ok q'" "contents q' = xs"
          "limit q' = limit q" "budget q' = budget q - 1"
        using get_next [OF Cons.prems(1) _ xs] by blast
      then show ?thesis
        using IH [of q'] few Get xs by (auto split: prod.splits)
    qed
  qed
qed

text \<open>So what comes out is what went in, in order, and what is missing is still inside.\<close>

lemma run_conserves:
  assumes "ok q" and "gets ops < budget q" and "fifo_run put get q ops = Some (outs, q')"
  shows "contents q @ taken ops outs = given outs @ contents q' \<and> length (contents q') \<le> limit q"
  using run_refines [OF assms(1,2)] assms(3)
    fifo_spec_conserves [of "limit q" "contents q" ops]
    fifo_spec_bounded [OF within [OF assms(1)], of ops]
  by (auto simp: prod_eq_iff)

end

end
