(* ===== verification/Ring_Buffer.thy ===== *)
theory Ring_Buffer
  imports Sensor_Hal Fifo
begin

text \<open>
  The ring buffer of \<open>app/core/ring_buffer.c\<close>: free-running 32-bit indices, a mask, and an
  array of samples. An access outside the array is \<open>None\<close>.
\<close>

section \<open>State and operations\<close>

record ring_buffer =
  write_idx :: u32
  read_idx :: u32
  rb_mask :: u32
  rb_buffer :: "sensor_data list"

text \<open>
  \<open>malloc\<close> is the C library's: it is given the requested bytes (a 32-bit \<open>size_t\<close>, so the
  product wraps) and answers a block, here the whole elements that fit into it, whose
  contents nothing is known about, or NULL.
\<close>

definition ring_buffer_create ::
  "bool \<Rightarrow> (u32 \<Rightarrow> sensor_data list option) \<Rightarrow> u32 \<Rightarrow> ring_buffer option" where
  "ring_buffer_create rb_malloc_ok malloc capacity =
     (if capacity = 0 \<or> capacity AND (capacity - 1) \<noteq> 0 then None
      else if \<not> rb_malloc_ok then None
      else case malloc (capacity * of_nat sizeof_sensor_data) of
             None \<Rightarrow> None
           | Some block \<Rightarrow>
               Some \<lparr>write_idx = 0, read_idx = 0, rb_mask = capacity - 1, rb_buffer = block\<rparr>)"

text \<open>The C library's promise: a block is at least as long as what was asked for.\<close>

definition malloc_ok :: "(u32 \<Rightarrow> sensor_data list option) \<Rightarrow> bool" where
  "malloc_ok malloc \<longleftrightarrow>
     (\<forall>bytes block. malloc bytes = Some block \<longrightarrow> unat bytes \<le> length block * sizeof_sensor_data)"

definition ring_buffer_write :: "ring_buffer \<Rightarrow> sensor_data \<Rightarrow> (bool \<times> ring_buffer) option" where
  "ring_buffer_write rb data =
     (let w = write_idx rb; r = read_idx rb in
      if (w + 1) AND rb_mask rb = r then Some (False, rb)
      else let i = unat (w AND rb_mask rb) in
        if i < length (rb_buffer rb)
        then Some (True, rb\<lparr>rb_buffer := (rb_buffer rb)[i := data], write_idx := w + 1\<rparr>)
        else None)"

definition ring_buffer_read :: "ring_buffer \<Rightarrow> (sensor_data option \<times> ring_buffer) option" where
  "ring_buffer_read rb =
     (let r = read_idx rb; w = write_idx rb in
      if r = w then Some (None, rb)
      else let i = unat (r AND rb_mask rb) in
        if i < length (rb_buffer rb)
        then Some (Some (rb_buffer rb ! i), rb\<lparr>read_idx := r + 1\<rparr>)
        else None)"

text \<open>
  The two blocks of a buffer: what \<open>malloc\<close> gives for the header and for the array, by number; an
  array that is not given releases the header again.
\<close>

definition ring_buffer_blocks ::
  "nat option \<Rightarrow> (u32 \<Rightarrow> nat option) \<Rightarrow> u32 \<Rightarrow> resource list \<Rightarrow> (nat \<times> nat) option \<times> resource list" where
  "ring_buffer_blocks header malloc capacity held =
     (if capacity = 0 \<or> capacity AND (capacity - 1) \<noteq> 0 then (None, held)
      else case header of
        None \<Rightarrow> (None, held)
      | Some rb \<Rightarrow>
          let held = Block rb # held in
          (case malloc (capacity * of_nat sizeof_sensor_data) of
             None \<Rightarrow> (None, remove1 (Block rb) held)
           | Some block \<Rightarrow> (Some (rb, block), Block block # held)))"

definition ring_buffer_destroy :: "(nat \<times> nat) option \<Rightarrow> resource list \<Rightarrow> resource list" where
  "ring_buffer_destroy rb held =
     (case rb of
        None \<Rightarrow> held
      | Some (header, block) \<Rightarrow> remove1 (Block header) (remove1 (Block block) held))"

definition ring_buffer_count :: "ring_buffer \<Rightarrow> u32" where
  "ring_buffer_count rb = (write_idx rb - read_idx rb) AND rb_mask rb"

definition ring_buffer_capacity :: "ring_buffer \<Rightarrow> u32" where
  "ring_buffer_capacity rb = rb_mask rb + 1"

section \<open>Well-formedness and the abstract contents\<close>

definition rb_cap :: "ring_buffer \<Rightarrow> nat" where
  "rb_cap rb = unat (rb_mask rb) + 1"

text \<open>The unread samples, oldest first.\<close>

definition rb_used :: "ring_buffer \<Rightarrow> nat" where
  "rb_used rb = unat (write_idx rb - read_idx rb)"

definition rb_slot :: "ring_buffer \<Rightarrow> nat \<Rightarrow> sensor_data" where
  "rb_slot rb i = rb_buffer rb ! ((unat (read_idx rb) + i) mod rb_cap rb)"

definition rb_contents :: "ring_buffer \<Rightarrow> sensor_data list" where
  "rb_contents rb = map (rb_slot rb) [0..<rb_used rb]"

text \<open>The mask is one less than a power of two and the array has that many elements.\<close>

definition rb_ok :: "ring_buffer \<Rightarrow> bool" where
  "rb_ok rb \<longleftrightarrow> (\<exists>k < 32. rb_mask rb = pow2_mask k \<and> 2 ^ k \<le> length (rb_buffer rb))"

text \<open>
  The states in which the test for a full buffer means what it says: it compares a masked
  index with the unmasked \<open>read_idx\<close>, so \<open>read_idx\<close> must still be below the capacity.
\<close>

definition rb_first_lap :: "ring_buffer \<Rightarrow> bool" where
  "rb_first_lap rb \<longleftrightarrow> unat (read_idx rb) < rb_cap rb \<and> rb_used rb < rb_cap rb"

lemma rb_okE:
  assumes "rb_ok rb"
  obtains k where "k < 32" and "rb_mask rb = pow2_mask k" and "rb_cap rb = 2 ^ k"
    and "2 ^ k \<le> length (rb_buffer rb)"
  using assms that by (auto simp: rb_ok_def rb_cap_def unat_pow2_mask)

lemma length_rb_contents [simp]: "length (rb_contents rb) = rb_used rb"
  by (simp add: rb_contents_def)

lemma nth_rb_contents: "i < rb_used rb \<Longrightarrow> rb_contents rb ! i = rb_slot rb i"
  by (simp add: rb_contents_def)

lemma rb_index_mod:
  "rb_ok rb \<Longrightarrow> unat (x AND rb_mask rb) = unat x mod rb_cap rb"
  by (erule rb_okE) (simp add: unat_and_pow2_mask)

lemma rb_index_in_buffer:
  "rb_ok rb \<Longrightarrow> unat (x AND rb_mask rb) < length (rb_buffer rb)"
  by (erule rb_okE)
    (metis mod_less_divisor order_less_le_trans unat_and_pow2_mask zero_less_numeral zero_less_power)

lemma rb_cap_pos [simp]: "0 < rb_cap rb"
  by (simp add: rb_cap_def)

lemma rb_used_0: "rb_used rb = 0 \<longleftrightarrow> write_idx rb = read_idx rb"
  by (simp add: rb_used_def unat_eq_zero)

text \<open>A free-running index may wrap at \<open>2 ^ 32\<close>: the capacity divides it.\<close>

lemma rb_write_index:
  assumes "rb_ok rb"
  shows "unat (write_idx rb) mod rb_cap rb = (unat (read_idx rb) + rb_used rb) mod rb_cap rb"
proof -
  obtain k where k: "k < 32" "rb_cap rb = 2 ^ k"
    using assms by (rule rb_okE)
  have "unat (read_idx rb + (write_idx rb - read_idx rb)) mod 2 ^ k
      = (unat (read_idx rb) + rb_used rb) mod 2 ^ k"
    unfolding rb_used_def by (rule unat_mod_pow2_eq) (use k in simp)
  then show ?thesis
    using k by simp
qed

section \<open>Reading\<close>

lemma rb_slot_read:
  assumes "rb_ok rb"
  shows "rb_slot (rb\<lparr>read_idx := read_idx rb + 1\<rparr>) i = rb_slot rb (Suc i)"
proof -
  obtain k where k: "k < 32" "rb_cap rb = 2 ^ k"
    using assms by (rule rb_okE)
  have "unat (read_idx rb + 1) mod 2 ^ k = (unat (read_idx rb) + 1) mod 2 ^ k"
    using unat_mod_pow2_eq [of k "read_idx rb" 1] k by simp
  then have "(unat (read_idx rb + 1) + i) mod 2 ^ k = (unat (read_idx rb) + Suc i) mod 2 ^ k"
    by (metis add.assoc mod_add_left_eq plus_1_eq_Suc)
  moreover have "rb_cap (rb\<lparr>read_idx := read_idx rb + 1\<rparr>) = 2 ^ k"
    using k by (simp add: rb_cap_def)
  ultimately show ?thesis
    using k by (simp add: rb_slot_def)
qed

lemma rb_used_read:
  "write_idx rb \<noteq> read_idx rb \<Longrightarrow> rb_used (rb\<lparr>read_idx := read_idx rb + 1\<rparr>) = rb_used rb - 1"
  using unat_minus_one [of "write_idx rb - read_idx rb"]
  by (simp add: rb_used_def algebra_simps)

lemma rb_contents_read:
  assumes "rb_ok rb" and "write_idx rb \<noteq> read_idx rb"
  shows "rb_contents rb = rb_slot rb 0 # rb_contents (rb\<lparr>read_idx := read_idx rb + 1\<rparr>)"
proof -
  have "0 < rb_used rb"
    using assms(2) rb_used_0 by (metis not_gr0)
  then have "rb_contents rb = rb_slot rb 0 # map (rb_slot rb) [Suc 0..<rb_used rb]"
    by (simp add: rb_contents_def upt_rec_hd)
  also have "map (rb_slot rb) [Suc 0..<rb_used rb]
      = map (\<lambda>i. rb_slot rb (Suc 0 + i)) [0..<rb_used rb - 1]"
    using \<open>0 < rb_used rb\<close> by (simp only: map_nth_shift) simp
  finally show ?thesis
    using assms by (simp add: rb_contents_def rb_slot_read rb_used_read)
qed

lemma ring_buffer_read_empty:
  "write_idx rb = read_idx rb \<Longrightarrow> ring_buffer_read rb = Some (None, rb)"
  by (simp add: ring_buffer_read_def)

lemma ring_buffer_read_nonempty:
  assumes "rb_ok rb" and "write_idx rb \<noteq> read_idx rb"
  shows "ring_buffer_read rb =
    Some (Some (rb_slot rb 0), rb\<lparr>read_idx := read_idx rb + 1\<rparr>)"
  using assms rb_index_in_buffer [OF assms(1), of "read_idx rb"]
  by (simp add: ring_buffer_read_def Let_def rb_slot_def rb_index_mod)

section \<open>Writing\<close>

text \<open>The state after a successful write.\<close>

definition rb_put :: "ring_buffer \<Rightarrow> sensor_data \<Rightarrow> ring_buffer" where
  "rb_put rb data =
     rb\<lparr>rb_buffer := (rb_buffer rb)[unat (write_idx rb AND rb_mask rb) := data],
        write_idx := write_idx rb + 1\<rparr>"

lemma rb_put_simps [simp]:
  "write_idx (rb_put rb data) = write_idx rb + 1"
  "read_idx (rb_put rb data) = read_idx rb"
  "rb_mask (rb_put rb data) = rb_mask rb"
  "length (rb_buffer (rb_put rb data)) = length (rb_buffer rb)"
  by (simp_all add: rb_put_def)

lemma rb_ok_put [simp]: "rb_ok (rb_put rb data) = rb_ok rb"
  by (simp add: rb_ok_def)

lemma rb_ok_get [simp]: "rb_ok (rb\<lparr>read_idx := r\<rparr>) = rb_ok rb"
  by (simp add: rb_ok_def)

lemma rb_cap_put [simp]: "rb_cap (rb_put rb data) = rb_cap rb"
  by (simp add: rb_cap_def)

lemma rb_cap_get [simp]: "rb_cap (rb\<lparr>read_idx := r\<rparr>) = rb_cap rb"
  by (simp add: rb_cap_def)

lemma rb_cap_le:
  assumes "rb_ok rb"
  shows "rb_cap rb \<le> 2147483648"
proof -
  obtain k where k: "k < 32" "rb_cap rb = 2 ^ k"
    using assms by (rule rb_okE)
  have "(2 :: nat) ^ k \<le> 2 ^ 31"
    using k(1) by (intro power_increasing) simp_all
  then show ?thesis
    using k(2) by simp
qed

lemma rb_buffer_put:
  assumes "rb_ok rb"
  shows "rb_buffer (rb_put rb data) =
    (rb_buffer rb)[(unat (read_idx rb) + rb_used rb) mod rb_cap rb := data]"
  by (simp add: rb_put_def rb_index_mod [OF assms] rb_write_index [OF assms])

lemma rb_used_put:
  assumes "Suc (rb_used rb) < 2 ^ 32"
  shows "rb_used (rb_put rb data) = Suc (rb_used rb)"
proof -
  have "write_idx rb + 1 - read_idx rb = write_idx rb - read_idx rb + 1"
    by simp
  then show ?thesis
    using assms by (simp only: rb_used_def rb_put_simps) (simp add: unat_inc)
qed

lemma rb_slot_put_old:
  assumes "rb_ok rb" and "i < rb_used rb" and "rb_used rb < rb_cap rb"
  shows "rb_slot (rb_put rb data) i = rb_slot rb i"
proof -
  have "(unat (read_idx rb) + i) mod rb_cap rb \<noteq> (unat (read_idx rb) + rb_used rb) mod rb_cap rb"
    using assms(2,3) by (simp add: mod_add_left_inj)
  then show ?thesis
    by (simp add: rb_slot_def rb_buffer_put [OF assms(1)])
qed

lemma rb_slot_put_new:
  assumes "rb_ok rb" and "(unat (read_idx rb) + i) mod rb_cap rb = (unat (read_idx rb) + rb_used rb) mod rb_cap rb"
  shows "rb_slot (rb_put rb data) i = data"
proof -
  have "(unat (read_idx rb) + rb_used rb) mod rb_cap rb < length (rb_buffer rb)"
    using rb_index_in_buffer [OF assms(1), of "write_idx rb"] assms(1)
    by (simp add: rb_index_mod rb_write_index)
  then show ?thesis
    by (simp add: rb_slot_def rb_buffer_put [OF assms(1)] assms(2))
qed

lemma rb_contents_put:
  assumes "rb_ok rb" and "rb_used rb < rb_cap rb"
  shows "rb_contents (rb_put rb data) = rb_contents rb @ [data]"
proof -
  have "rb_used (rb_put rb data) = Suc (rb_used rb)"
    using assms rb_cap_le [OF assms(1)] by (intro rb_used_put) simp
  then show ?thesis
    using assms by (simp add: rb_contents_def rb_slot_put_old rb_slot_put_new)
qed

text \<open>In the first lap the code's test is the test for \<open>capacity - 1\<close> unread samples.\<close>

lemma rb_full_first_lap:
  assumes "rb_ok rb" and "rb_first_lap rb"
  shows "(write_idx rb + 1) AND rb_mask rb = read_idx rb \<longleftrightarrow> Suc (rb_used rb) = rb_cap rb"
proof -
  obtain k where k: "k < 32" "rb_cap rb = 2 ^ k"
    using assms(1) by (rule rb_okE)
  have "unat (write_idx rb + 1) mod rb_cap rb = (unat (write_idx rb) + 1) mod rb_cap rb"
    using unat_mod_pow2_eq [of k "write_idx rb" 1] k by simp
  also have "\<dots> = (unat (read_idx rb) + Suc (rb_used rb)) mod rb_cap rb"
    by (metis Suc_eq_plus1 add_Suc_right assms(1) mod_Suc_eq rb_write_index)
  finally have "(write_idx rb + 1) AND rb_mask rb = read_idx rb
      \<longleftrightarrow> (unat (read_idx rb) + Suc (rb_used rb)) mod rb_cap rb = unat (read_idx rb)"
    using assms(1) by (simp add: rb_index_mod word_unat_eq_iff)
  also have "\<dots> \<longleftrightarrow> Suc (rb_used rb) = rb_cap rb"
    using assms(2) by (auto simp: rb_first_lap_def mod_if le_mod_geq split: if_splits)
  finally show ?thesis .
qed

text \<open>After it the test is never true, so a write is never refused.\<close>

lemma rb_full_lapped:
  assumes "rb_ok rb" and "rb_cap rb \<le> unat (read_idx rb)"
  shows "(x AND rb_mask rb) \<noteq> read_idx rb"
proof
  assume "x AND rb_mask rb = read_idx rb"
  then have "unat (read_idx rb) = unat x mod rb_cap rb"
    using rb_index_mod [OF assms(1), of x] by simp
  then have "unat (read_idx rb) < rb_cap rb"
    by simp
  with assms(2) show False
    by simp
qed

lemma ring_buffer_write_full:
  "rb_ok rb \<Longrightarrow> rb_first_lap rb \<Longrightarrow> Suc (rb_used rb) = rb_cap rb
    \<Longrightarrow> ring_buffer_write rb data = Some (False, rb)"
  by (simp add: ring_buffer_write_def rb_full_first_lap)

lemma ring_buffer_write_room:
  "rb_ok rb \<Longrightarrow> (write_idx rb + 1) AND rb_mask rb \<noteq> read_idx rb
    \<Longrightarrow> ring_buffer_write rb data = Some (True, rb_put rb data)"
  by (simp add: ring_buffer_write_def rb_put_def Let_def rb_index_in_buffer)

section \<open>The buffer as a bounded queue\<close>

lemma ring_buffer_get_next:
  assumes "rb_ok rb" and "rb_contents rb = x # xs"
  shows "\<exists>rb'. ring_buffer_read rb = Some (Some x, rb') \<and> rb_ok rb' \<and> rb_contents rb' = xs
    \<and> rb_cap rb' = rb_cap rb \<and> read_idx rb' = read_idx rb + 1 \<and> rb_used rb' = rb_used rb - 1"
proof -
  have "rb_used rb \<noteq> 0"
    using assms(2) length_rb_contents [of rb] by (metis length_0_conv list.distinct(1))
  then have ne: "write_idx rb \<noteq> read_idx rb"
    using rb_used_0 by metis
  show ?thesis
    using rb_contents_read [OF assms(1) ne] assms ne
    by (simp add: ring_buffer_read_nonempty rb_used_read)
qed

lemma ring_buffer_put_room:
  assumes "rb_ok rb" and "rb_used rb < rb_cap rb" and "unat (read_idx rb) < rb_cap rb"
    and "rb_used rb < rb_cap rb - 1"
  shows "\<exists>rb'. ring_buffer_write rb x = Some (True, rb') \<and> rb_ok rb' \<and> rb_used rb' < rb_cap rb'
    \<and> rb_contents rb' = rb_contents rb @ [x] \<and> rb_cap rb' = rb_cap rb \<and> read_idx rb' = read_idx rb"
proof -
  have "(write_idx rb + 1) AND rb_mask rb \<noteq> read_idx rb"
    using assms by (simp add: rb_full_first_lap rb_first_lap_def)
  moreover have "rb_used (rb_put rb x) = Suc (rb_used rb)"
    using assms rb_cap_le [OF assms(1)] by (intro rb_used_put) simp
  ultimately show ?thesis
    using assms by (simp add: ring_buffer_write_room rb_contents_put)
qed

text \<open>
  The contract holds while \<open>read_idx\<close> is below the capacity: that is what is left of the
  budget of reads.
\<close>

interpretation rbq: bounded_fifo ring_buffer_write ring_buffer_read rb_contents
  "\<lambda>rb. rb_cap rb - 1" "\<lambda>rb. rb_cap rb - unat (read_idx rb)"
  "\<lambda>rb. rb_ok rb \<and> rb_used rb < rb_cap rb"
proof (unfold_locales, goal_cases)
  case (1 rb x)
  then show ?case
    by (intro ring_buffer_write_full) (auto simp: rb_first_lap_def)
next
  case (2 rb x)
  then show ?case
    using ring_buffer_put_room [of rb x] by auto
next
  case (3 rb)
  then have "rb_used rb = 0"
    using length_rb_contents [of rb] by simp
  then show ?case
    by (simp add: ring_buffer_read_empty rb_used_0)
next
  case (4 rb x xs)
  then obtain rb' where "ring_buffer_read rb = Some (Some x, rb')" "rb_ok rb'" "rb_contents rb' = xs"
      "rb_cap rb' = rb_cap rb" "read_idx rb' = read_idx rb + 1" "rb_used rb' = rb_used rb - 1"
    using ring_buffer_get_next by blast
  moreover have "unat (read_idx rb + 1) = unat (read_idx rb) + 1"
    using 4 rb_cap_le [of rb] by (intro unat_inc) auto
  ultimately show ?case
    using 4 by auto
next
  case (5 rb)
  then show ?case by (simp add: less_eq_Suc_le [symmetric]) linarith
qed

section \<open>Creation\<close>

text \<open>The bit trick \<open>capacity & (capacity - 1)\<close> recognises the powers of two.\<close>

lemma pow2_trick_nat:
  fixes n :: nat
  assumes "0 < n" and "n AND (n - 1) = 0"
  shows "\<exists>k. n = 2 ^ k"
proof -
  obtain k where k: "2 ^ k \<le> n" "n < 2 ^ (k + 1)"
    using assms(1) ex_power_ivl1 [of 2 n] by auto
  have "n = 2 ^ k"
  proof (rule ccontr)
    assume "n \<noteq> 2 ^ k"
    then have "n div 2 ^ k = 1" and "(n - 1) div 2 ^ k = 1"
      using k by (auto intro!: div_nat_eqI)
    then have "bit n k" and "bit (n - 1) k"
      by (simp_all only: bit_iff_odd) simp_all
    then have "bit (n AND (n - 1)) k"
      by (simp only: bit_and_iff)
    then show False
      using assms(2) by simp
  qed
  then show ?thesis ..
qed

lemma pow2_trick:
  fixes c :: u32
  assumes "c \<noteq> 0" and "c AND (c - 1) = 0"
  shows "\<exists>k < 32. c = 2 ^ k"
proof -
  have "unat c AND (unat c - 1) = unat (c AND (c - 1))"
    using assms(1) by (simp add: unsigned_and_eq unat_minus_one)
  then obtain k where k: "unat c = 2 ^ k"
    using assms pow2_trick_nat [of "unat c"] by (auto simp: unat_gt_0)
  have lt: "(2 :: nat) ^ k < 2 ^ 32"
    using k unsigned_less [of c, where 'a = nat] by simp
  have "k < 32"
    by (rule power_less_imp_less_exp [OF _ lt]) simp
  moreover have "c = 2 ^ k"
    using k \<open>k < 32\<close> by (simp add: word_unat_eq_iff unat_pow2)
  ultimately show ?thesis by blast
qed

lemma pow2_trick_conv: "(2 ^ k :: u32) AND (2 ^ k - 1) = 0" if "k < 32"
  using that unat_and_pow2_mask [of "2 ^ k" k]
  by (simp add: unat_pow2 unat_eq_zero flip: pow2_mask_def)

lemma ring_buffer_create_ok:
  assumes "malloc_ok malloc" and "ring_buffer_create True malloc capacity = Some rb"
    and "unat capacity < 2 ^ 28"
  shows "rb_ok rb \<and> rb_cap rb = unat capacity \<and> rb_used rb = 0 \<and> read_idx rb = 0
    \<and> rb_contents rb = [] \<and> ring_buffer_capacity rb = capacity"
proof -
  have c: "capacity \<noteq> 0" "capacity AND (capacity - 1) = 0"
    and mem: "malloc (capacity * 16) = Some (rb_buffer rb)"
    and idx: "write_idx rb = 0" "read_idx rb = 0" "rb_mask rb = capacity - 1"
    using assms(2) by (auto simp: ring_buffer_create_def split: if_splits option.splits)
  obtain k where k: "k < 32" "capacity = 2 ^ k"
    using pow2_trick [OF c] by blast
  have "unat (capacity * 16) = unat capacity * 16"
    using assms(3) by (simp add: unat_word_ariths)
  then have "unat capacity \<le> length (rb_buffer rb)"
    using assms(1) mem by (force simp: malloc_ok_def)
  then have "rb_ok rb"
    using k idx by (auto simp: rb_ok_def pow2_mask_def unat_pow2)
  moreover have "rb_cap rb = unat capacity"
    using idx k by (simp add: rb_cap_def flip: pow2_mask_def) (simp add: unat_pow2_mask unat_pow2)
  moreover have "rb_used rb = 0"
    using idx by (simp add: rb_used_0)
  ultimately show ?thesis
    using idx by (simp add: rb_contents_def ring_buffer_capacity_def)
qed

lemma ring_buffer_create_iff:
  "(\<exists>rb. ring_buffer_create hdr malloc capacity = Some rb) \<longleftrightarrow>
     (\<exists>k < 32. capacity = 2 ^ k) \<and> hdr \<and> malloc (capacity * 16) \<noteq> None"
proof -
  have "(capacity \<noteq> 0 \<and> capacity AND (capacity - 1) = 0) \<longleftrightarrow> (\<exists>k < 32. capacity = 2 ^ k)"
  proof
    assume "capacity \<noteq> 0 \<and> capacity AND (capacity - 1) = 0"
    then show "\<exists>k < 32. capacity = 2 ^ k"
      using pow2_trick by blast
  next
    assume "\<exists>k < 32. capacity = 2 ^ k"
    then obtain k where "k < 32" "capacity = 2 ^ k" by blast
    then show "capacity \<noteq> 0 \<and> capacity AND (capacity - 1) = 0"
      using unat_pow2 [of k] pow2_trick_conv [of k] by (metis power_not_zero unsigned_0 zero_neq_numeral)
  qed
  then show ?thesis
    by (auto simp: ring_buffer_create_def split: option.splits)
qed

text \<open>A creation that fails holds nothing, and what a creation took a destruction gives back.\<close>

lemma ring_buffer_releases:
  "case ring_buffer_blocks header malloc capacity held of
     (None, held') \<Rightarrow> held' = held
   | (Some rb, held') \<Rightarrow> length held' = length held + 2 \<and> ring_buffer_destroy (Some rb) held' = held"
  by (auto simp: ring_buffer_blocks_def ring_buffer_destroy_def Let_def split: option.splits)

text \<open>It takes blocks exactly when it returns a buffer.\<close>

lemma ring_buffer_blocks_create:
  "(\<exists>rb. ring_buffer_create (header \<noteq> None) malloc capacity = Some rb)
    \<longleftrightarrow> fst (ring_buffer_blocks header (\<lambda>bytes. map_option number (malloc bytes)) capacity held) \<noteq> None"
  by (auto simp: ring_buffer_create_def ring_buffer_blocks_def Let_def split: option.splits)

section \<open>Properties\<close>

definition sample :: "nat \<Rightarrow> sensor_data" where
  "sample n = \<lparr>timestamp_ns = of_nat n, sensor_type = 0, channel = 0, sd_value = of_nat n\<rparr>"

text \<open>An allocator that has room for four samples and no more.\<close>

definition malloc4 :: "u32 \<Rightarrow> sensor_data list option" where
  "malloc4 bytes = (if bytes \<le> 64 then Some (replicate 4 zero_sensor_data) else None)"

lemma malloc4_ok: "malloc_ok malloc4"
  by (auto simp: malloc_ok_def malloc4_def word_le_nat_alt)

text \<open>
  \<open>ring_buffer_create\<close> succeeds for exactly the powers of two (the test
  \<open>capacity & (capacity - 1)\<close> accepts nothing else, 0 included), provided both allocations do.
\<close>

theorem ring_buffer_create_exact:
  "(\<exists>rb. ring_buffer_create hdr malloc capacity = Some rb) \<longleftrightarrow>
     (\<exists>k. k < 32 \<and> capacity = 2 ^ k) \<and> hdr \<and> malloc (capacity * of_nat sizeof_sensor_data) \<noteq> None"
  using ring_buffer_create_iff [of hdr malloc capacity] by simp

text \<open>
  C8. A buffer as \<open>ring_buffer_create\<close> returns it is a first-in first-out queue of
  \<open>capacity - 1\<close> samples: any sequence of writes and reads with fewer than \<open>capacity\<close> reads runs
  without an access outside the array and answers exactly what the bounded list does.
\<close>

theorem ring_buffer_refines_fifo:
  assumes "malloc_ok malloc" and "ring_buffer_create True malloc capacity = Some rb"
    and "unat capacity < 2 ^ 28" and "gets ops < unat capacity"
  shows "\<exists>rb'. fifo_run ring_buffer_write ring_buffer_read rb ops
      = Some (fst (fifo_spec (unat capacity - 1) [] ops), rb')
    \<and> rb_contents rb' = snd (fifo_spec (unat capacity - 1) [] ops)"
proof -
  have rb: "rb_ok rb \<and> rb_used rb < rb_cap rb" "gets ops < rb_cap rb - unat (read_idx rb)"
      "rb_cap rb = unat capacity" "rb_contents rb = []"
    using ring_buffer_create_ok [OF assms(1,2,3)] assms(4) by auto
  show ?thesis
    using rbq.run_refines [OF rb(1,2)] unfolding rb(3,4) by blast
qed

theorem ring_buffer_refines_fifo_witness:
  "\<exists>rb rb'. ring_buffer_create True malloc4 4 = Some rb \<and>
     fifo_run ring_buffer_write ring_buffer_read rb
       [Get, Put (sample 1), Put (sample 2), Put (sample 3), Put (sample 4), Get, Get]
     = Some ([Got None, Accepted True, Accepted True, Accepted True, Accepted False,
              Got (Some (sample 1)), Got (Some (sample 2))], rb')
     \<and> rb_contents rb' = [sample 3]"
proof -
  obtain rb where rb: "ring_buffer_create True malloc4 4 = Some rb"
    by (simp add: ring_buffer_create_def malloc4_def)
  show ?thesis
    using ring_buffer_refines_fifo [OF malloc4_ok rb, of
        "[Get, Put (sample 1), Put (sample 2), Put (sample 3), Put (sample 4), Get, Get]"] rb
    by simp
qed

text \<open>
  Reading is first-in first-out for every value of the free-running indices, the wrap from
  \<open>2 ^ 32 - 1\<close> to 0 included: it returns the oldest unread sample and leaves the others in order.
\<close>

theorem ring_buffer_read_fifo:
  assumes "rb_ok rb" and "write_idx rb \<noteq> read_idx rb"
  shows "\<exists>rb'. ring_buffer_read rb = Some (Some (hd (rb_contents rb)), rb')
    \<and> rb_contents rb' = tl (rb_contents rb) \<and> read_idx rb' = read_idx rb + 1 \<and> rb_ok rb'"
  using rb_contents_read [OF assms] ring_buffer_read_nonempty [OF assms] assms(1) by simp

theorem ring_buffer_read_fifo_witness:
  "\<exists>rb'. ring_buffer_read \<lparr>write_idx = 1, read_idx = 4294967295, rb_mask = 1,
                          rb_buffer = [sample 2, sample 1]\<rparr> = Some (Some (sample 1), rb')
     \<and> read_idx rb' = 0 \<and> rb_contents rb' = [sample 2]"
proof -
  let ?rb = "\<lparr>write_idx = 1, read_idx = 4294967295, rb_mask = 1, rb_buffer = [sample 2, sample 1]\<rparr>"
  have ok: "rb_ok ?rb"
    unfolding rb_ok_def by (intro exI [of _ 1]) (simp add: pow2_mask_def)
  have ne: "write_idx ?rb \<noteq> read_idx ?rb" by simp
  have "rb_used ?rb = 2" and "rb_cap ?rb = 2" and "[0..<2] = [0, Suc 0]"
    by (simp_all add: rb_used_def rb_cap_def) (simp add: numeral_2_eq_2)
  then have "rb_contents ?rb = [sample 1, sample 2]"
    by (simp add: rb_contents_def rb_slot_def)
  then show ?thesis
    using ring_buffer_read_fifo [OF ok ne] by auto
qed

text \<open>
  Once \<open>capacity\<close> samples have been read (\<open>read_idx\<close> has passed the capacity) the test for a
  full buffer is never true: the write into a buffer whose every slot is unread succeeds, the
  oldest sample is overwritten, and the next read returns the newest one in its place.
\<close>

theorem ring_buffer_lapped_overwrites:
  assumes "rb_ok rb" and "rb_cap rb \<le> unat (read_idx rb)" and "rb_used rb = rb_cap rb"
  shows "\<exists>rb' rb''. ring_buffer_write rb data = Some (True, rb') \<and> rb_used rb' = rb_cap rb + 1
    \<and> ring_buffer_read rb' = Some (Some data, rb'')"
proof -
  have put: "ring_buffer_write rb data = Some (True, rb_put rb data)"
    using rb_full_lapped [OF assms(1,2)] by (intro ring_buffer_write_room assms(1))
  have used: "rb_used (rb_put rb data) = rb_cap rb + 1"
    using assms(3) rb_cap_le [OF assms(1)] by (subst rb_used_put) simp_all
  then have ne: "write_idx (rb_put rb data) \<noteq> read_idx (rb_put rb data)"
    using rb_used_0 [of "rb_put rb data"] by (metis add_is_0 zero_neq_one)
  have "rb_slot (rb_put rb data) 0 = data"
    by (rule rb_slot_put_new [OF assms(1)]) (simp add: assms(3))
  then show ?thesis
    using put used ring_buffer_read_nonempty [OF _ ne] assms(1) by simp
qed

theorem ring_buffer_lapped_overwrites_witness:
  "\<exists>rb0 outs rb rb' rb''.
     ring_buffer_create True (\<lambda>_. Some (replicate 2 zero_sensor_data)) 2 = Some rb0 \<and>
     fifo_run ring_buffer_write ring_buffer_read rb0
       [Put (sample 1), Get, Put (sample 2), Get, Put (sample 3), Put (sample 4)] = Some (outs, rb) \<and>
     ring_buffer_write rb (sample 5) = Some (True, rb') \<and> rb_used rb' = 3 \<and>
     ring_buffer_read rb' = Some (Some (sample 5), rb'')"
proof -
  let ?rb = "\<lparr>write_idx = 4, read_idx = 2, rb_mask = 1, rb_buffer = [sample 3, sample 4]\<rparr>"
  have run: "\<exists>rb0 outs. ring_buffer_create True (\<lambda>_. Some (replicate 2 zero_sensor_data)) 2 = Some rb0 \<and>
     fifo_run ring_buffer_write ring_buffer_read rb0
       [Put (sample 1), Get, Put (sample 2), Get, Put (sample 3), Put (sample 4)] = Some (outs, ?rb)"
    by (simp add: ring_buffer_create_def ring_buffer_write_def ring_buffer_read_def Let_def numeral_eq_Suc)
  have "rb_ok ?rb"
    unfolding rb_ok_def by (intro exI [of _ 1]) (simp add: pow2_mask_def)
  moreover have "rb_cap ?rb = 2" and "rb_used ?rb = 2"
    by (simp_all add: rb_cap_def rb_used_def)
  ultimately show ?thesis
    using ring_buffer_lapped_overwrites [of ?rb "sample 5"] run by fastforce
qed

text \<open>
  The byte count given to \<open>malloc\<close> wraps in the 32-bit \<open>size_t\<close>: a capacity of \<open>2 ^ 28\<close> asks
  for 0 bytes, and with an allocator that answers such a request with an empty block the first
  write is out of bounds.
\<close>

theorem ring_buffer_create_size_wraps:
  "\<exists>malloc rb. malloc_ok malloc \<and> ring_buffer_create True malloc (2 ^ 28) = Some rb
     \<and> ring_buffer_write rb data = None"
proof -
  let ?malloc = "\<lambda>bytes :: u32. if bytes = 0 then Some ([] :: sensor_data list) else None"
  have "malloc_ok ?malloc"
    by (simp add: malloc_ok_def)
  moreover have "ring_buffer_create True ?malloc (2 ^ 28)
      = Some \<lparr>write_idx = 0, read_idx = 0, rb_mask = 2 ^ 28 - 1, rb_buffer = []\<rparr>"
    by (simp add: ring_buffer_create_def)
  ultimately show ?thesis
    by (intro exI [of _ ?malloc]) (simp add: ring_buffer_write_def)
qed

end
