(* ===== verification/Spsc.thy ===== *)
theory Spsc
  imports Ring_Buffer
begin

text \<open>
  The ring buffer between its two threads, in single memory operations: \<open>ring_buffer_write\<close> loads
  its own index, then the other's with acquire, copies a slot, and publishes its index with
  release; \<open>ring_buffer_read\<close> does the same from the other side. A load of the other's index may
  see an old value, but none older than the one it saw before, and with the value it sees the
  slots written before that was published. A copy of a slot is several words: two copies of one
  slot at the same time, one of them a store, would be a torn sample.
\<close>

section \<open>States and steps\<close>

text \<open>Where each function is: what it has loaded so far, and that it has copied.\<close>

datatype producer = P_ready | P_own sensor_data u32 | P_both sensor_data u32 u32 | P_copied u32
datatype consumer = C_ready | C_own u32 | C_both u32 u32 | C_copied u32 sensor_data

text \<open>
  The buffer; the two threads; the values each index has had; the place of the last value of the
  other's index that each thread saw; the samples that were accepted and those that were delivered.
\<close>

record spsc =
  sp_rb :: ring_buffer
  sp_prod :: producer
  sp_cons :: consumer
  sp_writes :: "u32 list"
  sp_reads :: "u32 list"
  sp_saw_read :: nat
  sp_saw_write :: nat
  sp_offered :: "sensor_data list"
  sp_got :: "sensor_data list"

definition spsc_start :: "ring_buffer \<Rightarrow> spsc" where
  "spsc_start rb = \<lparr>sp_rb = rb, sp_prod = P_ready, sp_cons = C_ready, sp_writes = [write_idx rb], sp_reads = [read_idx rb],
     sp_saw_read = 0, sp_saw_write = 0, sp_offered = [], sp_got = []\<rparr>"

text \<open>The two tests.\<close>

definition seems_full :: "ring_buffer \<Rightarrow> u32 \<Rightarrow> u32 \<Rightarrow> bool" where
  "seems_full rb w r \<longleftrightarrow> (w + 1) AND rb_mask rb = r"

inductive spsc_step :: "spsc \<Rightarrow> spsc \<Rightarrow> bool" where
  p_own: "sp_prod s = P_ready \<Longrightarrow> spsc_step s (s\<lparr>sp_prod := P_own d (write_idx (sp_rb s))\<rparr>)"
| p_other: "sp_prod s = P_own d w \<Longrightarrow> sp_saw_read s \<le> k \<Longrightarrow> k < length (sp_reads s) \<Longrightarrow>
    spsc_step s (s\<lparr>sp_prod := P_both d w (sp_reads s ! k), sp_saw_read := k\<rparr>)"
| p_refuse: "sp_prod s = P_both d w r \<Longrightarrow> seems_full (sp_rb s) w r \<Longrightarrow> spsc_step s (s\<lparr>sp_prod := P_ready\<rparr>)"
| p_copy: "sp_prod s = P_both d w r \<Longrightarrow> \<not> seems_full (sp_rb s) w r \<Longrightarrow>
    unat (w AND rb_mask (sp_rb s)) < length (rb_buffer (sp_rb s)) \<Longrightarrow>
    spsc_step s (s\<lparr>sp_prod := P_copied w, sp_offered := sp_offered s @ [d],
      sp_rb := (sp_rb s)\<lparr>rb_buffer := (rb_buffer (sp_rb s))[unat (w AND rb_mask (sp_rb s)) := d]\<rparr>\<rparr>)"
| p_publish: "sp_prod s = P_copied w \<Longrightarrow>
    spsc_step s (s\<lparr>sp_prod := P_ready, sp_writes := sp_writes s @ [w + 1], sp_rb := (sp_rb s)\<lparr>write_idx := w + 1\<rparr>\<rparr>)"
| c_own: "sp_cons s = C_ready \<Longrightarrow> spsc_step s (s\<lparr>sp_cons := C_own (read_idx (sp_rb s))\<rparr>)"
| c_other: "sp_cons s = C_own r \<Longrightarrow> sp_saw_write s \<le> k \<Longrightarrow> k < length (sp_writes s) \<Longrightarrow>
    spsc_step s (s\<lparr>sp_cons := C_both r (sp_writes s ! k), sp_saw_write := k\<rparr>)"
| c_empty: "sp_cons s = C_both r w \<Longrightarrow> r = w \<Longrightarrow> spsc_step s (s\<lparr>sp_cons := C_ready\<rparr>)"
| c_copy: "sp_cons s = C_both r w \<Longrightarrow> r \<noteq> w \<Longrightarrow> unat (r AND rb_mask (sp_rb s)) < length (rb_buffer (sp_rb s)) \<Longrightarrow>
    spsc_step s (s\<lparr>sp_cons := C_copied r (rb_buffer (sp_rb s) ! unat (r AND rb_mask (sp_rb s)))\<rparr>)"
| c_publish: "sp_cons s = C_copied r d \<Longrightarrow>
    spsc_step s (s\<lparr>sp_cons := C_ready, sp_reads := sp_reads s @ [r + 1], sp_got := sp_got s @ [d],
      sp_rb := (sp_rb s)\<lparr>read_idx := r + 1\<rparr>\<rparr>)"

inductive_cases spsc_step_cases: "spsc_step s t"

abbreviation spsc_run :: "spsc \<Rightarrow> spsc \<Rightarrow> bool" where
  "spsc_run \<equiv> spsc_step\<^sup>*\<^sup>*"

text \<open>The slot a thread copies next, when it will copy.\<close>

definition writing_slot :: "spsc \<Rightarrow> nat option" where
  "writing_slot s = (case sp_prod s of
     P_both d w r \<Rightarrow> if seems_full (sp_rb s) w r then None else Some (unat (w AND rb_mask (sp_rb s))) | _ \<Rightarrow> None)"

definition reading_slot :: "spsc \<Rightarrow> nat option" where
  "reading_slot s = (case sp_cons s of
     C_both r w \<Rightarrow> if r = w then None else Some (unat (r AND rb_mask (sp_rb s))) | _ \<Rightarrow> None)"

text \<open>Both threads are in a copy of the same slot.\<close>

definition torn :: "spsc \<Rightarrow> bool" where
  "torn s \<longleftrightarrow> writing_slot s \<noteq> None \<and> writing_slot s = reading_slot s"

section \<open>One thread alone\<close>

text \<open>Without the other in between, the steps of a thread are the function of the buffer.\<close>

lemma write_alone:
  assumes "sp_prod s = P_ready" and "ring_buffer_write (sp_rb s) d = Some (ok, rb')" and "sp_saw_read s < length (sp_reads s)"
    and "last (sp_reads s) = read_idx (sp_rb s)"
  shows "\<exists>t. spsc_run s t \<and> sp_rb t = rb' \<and> sp_prod t = P_ready \<and> sp_cons t = sp_cons s
    \<and> sp_offered t = sp_offered s @ (if ok then [d] else []) \<and> sp_got t = sp_got s"
proof -
  let ?rb = "sp_rb s" and ?k = "length (sp_reads s) - 1"
  let ?s1 = "s\<lparr>sp_prod := P_own d (write_idx ?rb)\<rparr>"
  let ?s2 = "?s1\<lparr>sp_prod := P_both d (write_idx ?rb) (sp_reads s ! ?k), sp_saw_read := ?k\<rparr>"
  have "spsc_step s ?s1"
    by (rule p_own [OF assms(1)])
  moreover have "spsc_step ?s1 ?s2"
    using p_other [of ?s1 d "write_idx ?rb" ?k] assms(3) by auto
  ultimately have two: "spsc_run s ?s2"
    by (meson converse_rtranclp_into_rtranclp rtranclp.rtrancl_refl)
  have r: "sp_reads s ! ?k = read_idx ?rb"
    using assms(3,4) by (metis last_conv_nth length_0_conv less_zeroE)
  show ?thesis
  proof (cases "seems_full ?rb (write_idx ?rb) (read_idx ?rb)")
    case True
    then have "ok = False" "rb' = ?rb"
      using assms(2) by (auto simp: ring_buffer_write_def seems_full_def Let_def)
    moreover have "spsc_step ?s2 (?s2\<lparr>sp_prod := P_ready\<rparr>)"
      using p_refuse [of ?s2 d "write_idx ?rb" "read_idx ?rb"] True r by simp
    ultimately show ?thesis
      using two by (intro exI [of _ "?s2\<lparr>sp_prod := P_ready\<rparr>"]) auto
  next
    case False
    let ?i = "unat (write_idx ?rb AND rb_mask ?rb)"
    have w: "ok" "rb' = ?rb\<lparr>rb_buffer := (rb_buffer ?rb)[?i := d], write_idx := write_idx ?rb + 1\<rparr>" "?i < length (rb_buffer ?rb)"
      using assms(2) False by (auto simp: ring_buffer_write_def seems_full_def Let_def split: if_splits)
    let ?s3 = "?s2\<lparr>sp_prod := P_copied (write_idx ?rb), sp_offered := sp_offered s @ [d],
      sp_rb := ?rb\<lparr>rb_buffer := (rb_buffer ?rb)[?i := d]\<rparr>\<rparr>"
    have "spsc_step ?s2 ?s3"
      using p_copy [of ?s2 d "write_idx ?rb" "read_idx ?rb"] False w(3) r by simp
    moreover have "spsc_step ?s3 (?s3\<lparr>sp_prod := P_ready, sp_writes := sp_writes ?s3 @ [write_idx ?rb + 1],
        sp_rb := (sp_rb ?s3)\<lparr>write_idx := write_idx ?rb + 1\<rparr>\<rparr>)" (is "spsc_step _ ?s4")
      by (rule p_publish) simp
    ultimately have "spsc_run s ?s4"
      using two by (meson rtranclp.rtrancl_into_rtrancl)
    then show ?thesis
      using w(1,2) by (intro exI [of _ ?s4]) simp
  qed
qed

lemma read_alone:
  assumes "sp_cons s = C_ready" and "ring_buffer_read (sp_rb s) = Some (out, rb')" and "sp_saw_write s < length (sp_writes s)"
    and "last (sp_writes s) = write_idx (sp_rb s)"
  shows "\<exists>t. spsc_run s t \<and> sp_rb t = rb' \<and> sp_cons t = C_ready \<and> sp_prod t = sp_prod s
    \<and> sp_got t = sp_got s @ (case out of None \<Rightarrow> [] | Some d \<Rightarrow> [d])"
proof -
  let ?rb = "sp_rb s" and ?k = "length (sp_writes s) - 1"
  let ?s1 = "s\<lparr>sp_cons := C_own (read_idx ?rb)\<rparr>"
  let ?s2 = "?s1\<lparr>sp_cons := C_both (read_idx ?rb) (sp_writes s ! ?k), sp_saw_write := ?k\<rparr>"
  have "spsc_step s ?s1"
    by (rule c_own [OF assms(1)])
  moreover have "spsc_step ?s1 ?s2"
    using c_other [of ?s1 "read_idx ?rb" ?k] assms(3) by auto
  ultimately have two: "spsc_run s ?s2"
    by (meson converse_rtranclp_into_rtranclp rtranclp.rtrancl_refl)
  have w: "sp_writes s ! ?k = write_idx ?rb"
    using assms(3,4) by (metis last_conv_nth length_0_conv less_zeroE)
  show ?thesis
  proof (cases "read_idx ?rb = write_idx ?rb")
    case True
    then have "out = None" "rb' = ?rb"
      using assms(2) by (auto simp: ring_buffer_read_def Let_def)
    moreover have "spsc_step ?s2 (?s2\<lparr>sp_cons := C_ready\<rparr>)"
      using c_empty [of ?s2 "read_idx ?rb" "write_idx ?rb"] True w by simp
    ultimately show ?thesis
      using two by (intro exI [of _ "?s2\<lparr>sp_cons := C_ready\<rparr>"]) auto
  next
    case False
    let ?i = "unat (read_idx ?rb AND rb_mask ?rb)"
    have o: "out = Some (rb_buffer ?rb ! ?i)" "rb' = ?rb\<lparr>read_idx := read_idx ?rb + 1\<rparr>" "?i < length (rb_buffer ?rb)"
      using assms(2) False by (auto simp: ring_buffer_read_def Let_def split: if_splits)
    let ?s3 = "?s2\<lparr>sp_cons := C_copied (read_idx ?rb) (rb_buffer ?rb ! ?i)\<rparr>"
    have "spsc_step ?s2 ?s3"
      using c_copy [of ?s2 "read_idx ?rb" "write_idx ?rb"] False o(3) w by simp
    moreover have "spsc_step ?s3 (?s3\<lparr>sp_cons := C_ready, sp_reads := sp_reads ?s3 @ [read_idx ?rb + 1],
        sp_got := sp_got ?s3 @ [rb_buffer ?rb ! ?i], sp_rb := (sp_rb ?s3)\<lparr>read_idx := read_idx ?rb + 1\<rparr>\<rparr>)" (is "spsc_step _ ?s4")
      by (rule c_publish) simp
    ultimately have "spsc_run s ?s4"
      using two by (meson rtranclp.rtrancl_into_rtrancl)
    then show ?thesis
      using o(1,2) by (intro exI [of _ ?s4]) simp
  qed
qed

section \<open>The invariant of the first lap\<close>

text \<open>
  In numbers that do not wrap: \<open>w_count\<close> writes and \<open>r_count\<close> reads have been published. What is
  not read yet is in its slot; the producer is at most a lap ahead of what it saw read; what each
  thread has loaded is its own index and what it saw of the other.
\<close>

definition w_count :: "spsc \<Rightarrow> nat" where
  "w_count s = length (sp_writes s) - 1"

definition r_count :: "spsc \<Rightarrow> nat" where
  "r_count s = length (sp_reads s) - 1"

definition counted :: "spsc \<Rightarrow> bool" where
  "counted s \<longleftrightarrow> rb_ok (sp_rb s) \<and> sp_writes s = map of_nat [0..<Suc (w_count s)] \<and> sp_reads s = map of_nat [0..<Suc (r_count s)]
     \<and> write_idx (sp_rb s) = of_nat (w_count s) \<and> read_idx (sp_rb s) = of_nat (r_count s)
     \<and> sp_saw_read s \<le> r_count s \<and> r_count s \<le> sp_saw_write s \<and> sp_saw_write s \<le> w_count s"

definition slots_hold :: "spsc \<Rightarrow> bool" where
  "slots_hold s \<longleftrightarrow> length (sp_offered s) < sp_saw_read s + rb_cap (sp_rb s)
     \<and> (\<forall>k. r_count s \<le> k \<and> k < length (sp_offered s) \<longrightarrow> rb_buffer (sp_rb s) ! (k mod rb_cap (sp_rb s)) = sp_offered s ! k)
     \<and> sp_got s = take (r_count s) (sp_offered s)"

definition producer_at :: "spsc \<Rightarrow> bool" where
  "producer_at s \<longleftrightarrow> (case sp_prod s of
      P_ready \<Rightarrow> length (sp_offered s) = w_count s
    | P_own d w \<Rightarrow> length (sp_offered s) = w_count s \<and> w = of_nat (w_count s)
    | P_both d w r \<Rightarrow> length (sp_offered s) = w_count s \<and> w = of_nat (w_count s) \<and> r = of_nat (sp_saw_read s)
    | P_copied w \<Rightarrow> length (sp_offered s) = Suc (w_count s) \<and> w = of_nat (w_count s))"

definition consumer_at :: "spsc \<Rightarrow> bool" where
  "consumer_at s \<longleftrightarrow> (case sp_cons s of
      C_ready \<Rightarrow> True
    | C_own r \<Rightarrow> r = of_nat (r_count s)
    | C_both r w \<Rightarrow> r = of_nat (r_count s) \<and> w = of_nat (sp_saw_write s)
    | C_copied r d \<Rightarrow> r = of_nat (r_count s) \<and> r_count s < sp_saw_write s \<and> d = sp_offered s ! r_count s)"

definition spsc_ok :: "spsc \<Rightarrow> bool" where
  "spsc_ok s \<longleftrightarrow> counted s \<and> slots_hold s \<and> producer_at s \<and> consumer_at s"

text \<open>The indices as numbers, as long as the first lap lasts.\<close>

lemma spsc_small:
  assumes "spsc_ok s" and "r_count s < rb_cap (sp_rb s)"
  shows "w_count s < 2 ^ 32" "Suc (w_count s) < 2 ^ 32" "sp_saw_write s < 2 ^ 32" "r_count s < 2 ^ 32"
proof -
  obtain k where k: "k < 32" "rb_cap (sp_rb s) = 2 ^ k"
    using assms(1) by (auto simp: spsc_ok_def counted_def elim: rb_okE)
  then have "rb_cap (sp_rb s) \<le> 2147483648"
    using power_increasing [of k 31 "2 :: nat"] by simp
  moreover have "w_count s \<le> length (sp_offered s)" "length (sp_offered s) < sp_saw_read s + rb_cap (sp_rb s)"
    "sp_saw_read s \<le> r_count s" "sp_saw_write s \<le> w_count s"
    using assms(1) by (auto simp: spsc_ok_def counted_def slots_hold_def producer_at_def split: producer.splits)
  ultimately show "w_count s < 2 ^ 32" "Suc (w_count s) < 2 ^ 32" "sp_saw_write s < 2 ^ 32" "r_count s < 2 ^ 32"
    using assms(2) by simp_all
qed

lemma index_of_nat: "rb_ok rb \<Longrightarrow> n < 2 ^ 32 \<Longrightarrow> unat (of_nat n AND rb_mask rb) = n mod rb_cap rb"
  by (simp add: rb_index_mod unat_of_nat)

text \<open>The producer's test is exact: it sees a full buffer when the buffer is full by what it saw.\<close>

lemma seems_full_exact:
  assumes "spsc_ok s" and "r_count s < rb_cap (sp_rb s)" and "sp_prod s = P_both d w r"
  shows "seems_full (sp_rb s) w r \<longleftrightarrow> Suc (w_count s) = sp_saw_read s + rb_cap (sp_rb s)"
proof -
  let ?n = "Suc (w_count s)" and ?k = "sp_saw_read s" and ?cap = "rb_cap (sp_rb s)"
  have s: "w = of_nat (w_count s)" "r = of_nat ?k" "?n \<le> ?k + ?cap" "?k < ?cap" "?k \<le> w_count s" "rb_ok (sp_rb s)"
    using assms by (auto simp: spsc_ok_def counted_def slots_hold_def producer_at_def)
  have "w + 1 = of_nat ?n"
    using s(1) by (simp add: add.commute)
  then have "seems_full (sp_rb s) w r \<longleftrightarrow> unat (of_nat ?n AND rb_mask (sp_rb s)) = unat r"
    unfolding seems_full_def by (metis word_unat_eq_iff)
  also have "\<dots> \<longleftrightarrow> ?n mod ?cap = ?k"
    using index_of_nat [OF s(6) spsc_small(2) [OF assms(1,2)]] s(2,5) spsc_small(1) [OF assms(1,2)] by (simp add: unat_of_nat)
  also have "\<dots> \<longleftrightarrow> ?n = ?k + ?cap"
  proof
    assume "?n mod ?cap = ?k"
    show "?n = ?k + ?cap"
    proof (rule ccontr)
      assume "?n \<noteq> ?k + ?cap"
      then have "?n < ?k + ?cap" using s(3) by simp
      then have "?n mod ?cap \<noteq> ?k"
        using s(4,5) by (cases "?n < ?cap") (auto simp: mod_if)
      then show False using \<open>?n mod ?cap = ?k\<close> by simp
    qed
  qed (use s(4) in simp)
  finally show ?thesis .
qed

lemma consumer_sees:
  assumes "spsc_ok s" and "r_count s < rb_cap (sp_rb s)" and "sp_cons s = C_both r w" and "r \<noteq> w"
  shows "r_count s < sp_saw_write s"
proof -
  have "r = of_nat (r_count s)" "w = of_nat (sp_saw_write s)" "r_count s \<le> sp_saw_write s"
    using assms(1,3) by (auto simp: spsc_ok_def consumer_at_def counted_def)
  then show ?thesis
    using assms(4) by (cases "r_count s = sp_saw_write s") auto
qed

text \<open>The slot to be written is not one that waits to be read.\<close>

lemma slot_free:
  assumes "spsc_ok s" and "r_count s < rb_cap (sp_rb s)" and "sp_prod s = P_both d w r" and "\<not> seems_full (sp_rb s) w r"
    and "r_count s \<le> k" and "k < w_count s"
  shows "k mod rb_cap (sp_rb s) \<noteq> unat (w AND rb_mask (sp_rb s))"
proof -
  let ?cap = "rb_cap (sp_rb s)"
  have s: "w = of_nat (w_count s)" "Suc (w_count s) < sp_saw_read s + ?cap" "sp_saw_read s \<le> r_count s" "rb_ok (sp_rb s)"
    using assms seems_full_exact [OF assms(1-3)] by (auto simp: spsc_ok_def counted_def slots_hold_def producer_at_def)
  have "0 < w_count s - k" "w_count s - k < ?cap"
    using s(2,3) assms(5,6) by linarith+
  then have "w_count s mod ?cap \<noteq> k mod ?cap"
    using assms(6) mod_add_left_inj [of 0 ?cap "w_count s - k" k] by auto
  then show ?thesis
    using s(1) index_of_nat [OF s(4) spsc_small(1) [OF assms(1,2)]] by simp
qed

section \<open>Every step keeps it\<close>

lemmas spsc_defs = spsc_ok_def counted_def slots_hold_def producer_at_def consumer_at_def

lemma counts_frame [simp]:
  "w_count (s\<lparr>sp_prod := p\<rparr>) = w_count s" "r_count (s\<lparr>sp_prod := p\<rparr>) = r_count s"
  "w_count (s\<lparr>sp_cons := c\<rparr>) = w_count s" "r_count (s\<lparr>sp_cons := c\<rparr>) = r_count s"
  "w_count (s\<lparr>sp_prod := p, sp_saw_read := k\<rparr>) = w_count s" "r_count (s\<lparr>sp_prod := p, sp_saw_read := k\<rparr>) = r_count s"
  "w_count (s\<lparr>sp_cons := c, sp_saw_write := k\<rparr>) = w_count s" "r_count (s\<lparr>sp_cons := c, sp_saw_write := k\<rparr>) = r_count s"
  by (simp_all add: w_count_def r_count_def)

lemma counted_length: "counted s \<Longrightarrow> length (sp_reads s) = Suc (r_count s)" "counted s \<Longrightarrow> length (sp_writes s) = Suc (w_count s)"
  unfolding counted_def by (metis diff_zero length_map length_upt)+

lemma upt_of_nat_snoc: "xs = map of_nat [0..<n] \<Longrightarrow> xs @ [of_nat n] = map of_nat [0..<Suc n]"
  by simp

lemma spsc_ok_copy:
  assumes "spsc_ok s" and "r_count s < rb_cap (sp_rb s)" and "sp_prod s = P_both d w r" and "\<not> seems_full (sp_rb s) w r"
    and "unat (w AND rb_mask (sp_rb s)) < length (rb_buffer (sp_rb s))"
  shows "spsc_ok (s\<lparr>sp_prod := P_copied w, sp_offered := sp_offered s @ [d],
    sp_rb := (sp_rb s)\<lparr>rb_buffer := (rb_buffer (sp_rb s))[unat (w AND rb_mask (sp_rb s)) := d]\<rparr>\<rparr>)" (is "spsc_ok ?t")
proof -
  let ?cap = "rb_cap (sp_rb s)" and ?i = "unat (w AND rb_mask (sp_rb s))"
  have s: "counted s" "slots_hold s" "producer_at s" "consumer_at s"
    using assms(1) by (simp_all add: spsc_ok_def)
  have n: "length (sp_offered s) = w_count s" "w = of_nat (w_count s)" "rb_ok (sp_rb s)"
    using s(1,3) assms(3) by (simp_all add: producer_at_def counted_def)
  have cap: "rb_cap (sp_rb ?t) = ?cap" "w_count ?t = w_count s" "r_count ?t = r_count s" "rb_ok (sp_rb ?t)"
    using n(3) by (simp_all add: rb_cap_def w_count_def r_count_def rb_ok_def)
  have i: "?i = w_count s mod ?cap"
    using index_of_nat [OF n(3) spsc_small(1) [OF assms(1,2)]] n(2) by simp
  have "rb_buffer (sp_rb ?t) ! (k mod ?cap) = sp_offered ?t ! k" if "r_count s \<le> k" "k < length (sp_offered ?t)" for k
  proof (cases "k = w_count s")
    case True
    then show ?thesis using i n(1) assms(5) by (simp add: nth_append)
  next
    case False
    then have "k < w_count s" using that(2) n(1) by simp
    then show ?thesis
      using slot_free [OF assms(1-4) that(1)] s(2) n(1) that(1) by (simp add: slots_hold_def nth_append)
  qed
  moreover have "Suc (length (sp_offered s)) < sp_saw_read s + ?cap"
    using seems_full_exact [OF assms(1-3)] assms(4) s(2) n(1) by (simp add: slots_hold_def)
  moreover have "r_count s \<le> length (sp_offered s)"
    using s(1) n(1) by (simp add: counted_def)
  ultimately have "slots_hold ?t"
    using s(2) unfolding slots_hold_def cap by simp
  moreover have "consumer_at ?t"
    using s(1,4) n(1) unfolding consumer_at_def cap by (auto simp: nth_append counted_def split: consumer.splits)
  ultimately show ?thesis
    using s(1) n cap by (simp add: spsc_ok_def counted_def producer_at_def)
qed

lemma spsc_ok_read:
  assumes "spsc_ok s" and "sp_cons s = C_copied r d"
  shows "spsc_ok (s\<lparr>sp_cons := C_ready, sp_reads := sp_reads s @ [r + 1], sp_got := sp_got s @ [d],
    sp_rb := (sp_rb s)\<lparr>read_idx := r + 1\<rparr>\<rparr>)" (is "spsc_ok ?t")
proof -
  have s: "counted s" "slots_hold s" "producer_at s" "r = of_nat (r_count s)" "r_count s < sp_saw_write s" "d = sp_offered s ! r_count s"
    using assms by (simp_all add: spsc_ok_def consumer_at_def)
  have n: "r_count ?t = Suc (r_count s)" "w_count ?t = w_count s" "rb_cap (sp_rb ?t) = rb_cap (sp_rb s)"
    using counted_length [OF s(1)] by (simp_all add: r_count_def w_count_def rb_cap_def)
  have "sp_reads ?t = map of_nat [0..<Suc (Suc (r_count s))]"
    using s(1,4) by (simp add: counted_def add.commute)
  then have "counted ?t"
    using s(1,4,5) unfolding counted_def n by (simp add: rb_ok_def add.commute)
  moreover have "w_count s \<le> length (sp_offered s)"
    using s(3) by (auto simp: producer_at_def split: producer.splits)
  then have "take (r_count s) (sp_offered s) @ [d] = take (Suc (r_count s)) (sp_offered s)"
    using s(1,5,6) by (simp add: counted_def take_Suc_conv_app_nth)
  then have "slots_hold ?t"
    using s(2) unfolding slots_hold_def n by simp
  moreover have "producer_at ?t"
    using s(3) unfolding producer_at_def n by (simp split: producer.splits)
  ultimately show ?thesis
    by (simp add: spsc_ok_def consumer_at_def)
qed

lemma spsc_ok_publish:
  assumes "spsc_ok s" and "sp_prod s = P_copied w"
  shows "spsc_ok (s\<lparr>sp_prod := P_ready, sp_writes := sp_writes s @ [w + 1], sp_rb := (sp_rb s)\<lparr>write_idx := w + 1\<rparr>\<rparr>)"
    (is "spsc_ok ?t")
proof -
  have s: "counted s" "slots_hold s" "consumer_at s" "w = of_nat (w_count s)" "length (sp_offered s) = Suc (w_count s)"
    using assms by (simp_all add: spsc_ok_def producer_at_def)
  have n: "r_count ?t = r_count s" "w_count ?t = Suc (w_count s)" "rb_cap (sp_rb ?t) = rb_cap (sp_rb s)"
    using counted_length [OF s(1)] by (simp_all add: r_count_def w_count_def rb_cap_def)
  have "sp_writes ?t = map of_nat [0..<Suc (Suc (w_count s))]"
    using s(1,4) by (simp add: counted_def add.commute)
  then have "counted ?t"
    using s(1,4) unfolding counted_def n by (simp add: rb_ok_def add.commute)
  moreover have "slots_hold ?t"
    using s(2) unfolding slots_hold_def n by simp
  moreover have "consumer_at ?t"
    using s(3) unfolding consumer_at_def n by (simp split: consumer.splits)
  ultimately show ?thesis
    using s(5) n by (simp add: spsc_ok_def producer_at_def)
qed

lemma nth_of_nat_list: "xs = map of_nat [0..<n] \<Longrightarrow> k < length xs \<Longrightarrow> xs ! k = of_nat k"
  by simp

lemma spsc_ok_step:
  assumes "spsc_step s t" and "spsc_ok s" and "r_count s < rb_cap (sp_rb s)"
  shows "spsc_ok t"
  using assms(1)
proof cases
  case (p_other d w k)
  have "sp_reads s ! k = of_nat k" "k \<le> r_count s"
    using assms(2) p_other(4) nth_of_nat_list [of "sp_reads s" "Suc (r_count s)" k] counted_length [of s]
    by (simp_all add: spsc_ok_def counted_def)
  then show ?thesis
    using assms(2) p_other by (auto simp: spsc_defs split: consumer.splits)
next
  case (p_copy d w r)
  then show ?thesis
    using spsc_ok_copy [OF assms(2,3)] by simp
next
  case (p_publish w)
  then show ?thesis
    using spsc_ok_publish [OF assms(2)] by simp
next
  case (c_other r k)
  have "sp_writes s ! k = of_nat k" "k \<le> w_count s"
    using assms(2) c_other(4) nth_of_nat_list [of "sp_writes s" "Suc (w_count s)" k] counted_length [of s]
    by (simp_all add: spsc_ok_def counted_def)
  then show ?thesis
    using assms(2) c_other by (auto simp: spsc_defs split: producer.splits)
next
  case (c_copy r w)
  have less: "r_count s < sp_saw_write s"
    by (rule consumer_sees [OF assms(2,3) c_copy(2,3)])
  have s: "r = of_nat (r_count s)" "rb_ok (sp_rb s)" "sp_saw_write s \<le> length (sp_offered s)"
    using assms(2) c_copy(2) by (auto simp: spsc_ok_def consumer_at_def counted_def producer_at_def split: producer.splits)
  have "rb_buffer (sp_rb s) ! unat (r AND rb_mask (sp_rb s)) = sp_offered s ! r_count s"
    using index_of_nat [OF s(2) spsc_small(4) [OF assms(2,3)]] s(1,3) less assms(2) by (simp add: spsc_ok_def slots_hold_def)
  then show ?thesis
    using assms(2) c_copy s(1) less by (auto simp: spsc_defs split: producer.splits)
next
  case (c_publish r d)
  then show ?thesis
    using spsc_ok_read [OF assms(2)] by simp
qed (use assms(2) in \<open>auto simp: spsc_defs split: producer.splits consumer.splits\<close>)

lemma step_counts:
  assumes "spsc_step s t"
  shows "r_count s \<le> r_count t" "rb_cap (sp_rb t) = rb_cap (sp_rb s)"
  using assms by (cases; auto simp: r_count_def rb_cap_def)+

lemma spsc_ok_run:
  assumes "spsc_run s t" and "spsc_ok s" and "r_count t < rb_cap (sp_rb s)"
  shows "spsc_ok t \<and> rb_cap (sp_rb t) = rb_cap (sp_rb s)"
  using assms
proof (induction rule: rtranclp_induct)
  case (step t u)
  then have "r_count t < rb_cap (sp_rb s)"
    using step_counts(1) [OF step(2)] by simp
  then show ?case
    using step spsc_ok_step [OF step(2)] step_counts(2) [OF step(2)] by simp
qed simp

text \<open>A fresh buffer.\<close>

definition rb_fresh :: "ring_buffer \<Rightarrow> bool" where
  "rb_fresh rb \<longleftrightarrow> rb_ok rb \<and> write_idx rb = 0 \<and> read_idx rb = 0"

lemma spsc_ok_start: "rb_fresh rb \<Longrightarrow> spsc_ok (spsc_start rb)"
  by (simp add: spsc_defs spsc_start_def rb_fresh_def w_count_def r_count_def)

lemma spsc_got_length: "spsc_ok s \<Longrightarrow> length (sp_got s) = r_count s"
  by (auto simp: spsc_ok_def slots_hold_def counted_def producer_at_def split: producer.splits)

section \<open>Runs of whole calls\<close>

text \<open>In every run, lapped or not, the last value published is the index, and each thread saw one of the other's.\<close>

definition latest_ok :: "spsc \<Rightarrow> bool" where
  "latest_ok s \<longleftrightarrow> sp_saw_read s < length (sp_reads s) \<and> last (sp_reads s) = read_idx (sp_rb s)
     \<and> sp_saw_write s < length (sp_writes s) \<and> last (sp_writes s) = write_idx (sp_rb s) \<and> length (sp_got s) = r_count s"

lemma latest_run: "spsc_run (spsc_start rb) s \<Longrightarrow> latest_ok s"
proof (induction rule: rtranclp_induct)
  case base
  show ?case by (simp add: latest_ok_def spsc_start_def r_count_def)
next
  case (step s t)
  from step(2,3) show ?case
    by cases (auto simp: latest_ok_def r_count_def)
qed

text \<open>Both threads between calls, with a buffer \<open>rb\<close>.\<close>

definition rests :: "ring_buffer \<Rightarrow> ring_buffer \<Rightarrow> bool" where
  "rests rb0 rb \<longleftrightarrow> (\<exists>s. spsc_run (spsc_start rb0) s \<and> sp_rb s = rb \<and> sp_prod s = P_ready \<and> sp_cons s = C_ready)"

lemma rests_start: "rests rb rb"
  unfolding rests_def by (intro exI [of _ "spsc_start rb"]) (simp add: spsc_start_def)

lemma rests_write:
  assumes "rests rb0 rb" and "ring_buffer_write rb d = Some (ok, rb')"
  shows "rests rb0 rb'"
proof -
  obtain s where s: "spsc_run (spsc_start rb0) s" "sp_rb s = rb" "sp_prod s = P_ready" "sp_cons s = C_ready"
    using assms(1) by (auto simp: rests_def)
  obtain t where "spsc_run s t" "sp_rb t = rb'" "sp_prod t = P_ready" "sp_cons t = sp_cons s"
    using write_alone [OF s(3)] assms(2) s(2) latest_run [OF s(1)] by (metis latest_ok_def)
  then show ?thesis
    using s(1,4) unfolding rests_def by (metis rtranclp_trans)
qed

lemma rests_read:
  assumes "rests rb0 rb" and "ring_buffer_read rb = Some (out, rb')"
  shows "rests rb0 rb'"
proof -
  obtain s where s: "spsc_run (spsc_start rb0) s" "sp_rb s = rb" "sp_prod s = P_ready" "sp_cons s = C_ready"
    using assms(1) by (auto simp: rests_def)
  obtain t where "spsc_run s t" "sp_rb t = rb'" "sp_cons t = C_ready" "sp_prod t = sp_prod s"
    using read_alone [OF s(4)] assms(2) s(2) latest_run [OF s(1)] by (metis latest_ok_def)
  then show ?thesis
    using s(1,3) unfolding rests_def by (metis rtranclp_trans)
qed

text \<open>An empty buffer of at least two slots does not seem full in its first lap.\<close>

lemma empty_not_full:
  assumes "rb_ok rb" and "2 \<le> rb_cap rb" and "n < rb_cap rb" and "write_idx rb = of_nat n" and "read_idx rb = of_nat n"
  shows "(write_idx rb + 1) AND rb_mask rb \<noteq> read_idx rb"
proof -
  have "n < 2 ^ 32" "Suc n < 2 ^ 32" "unat (of_nat n :: u32) = n"
    using rb_cap_le [OF assms(1)] assms(3) by (simp_all add: unat_of_nat)
  moreover have "Suc n mod rb_cap rb \<noteq> n"
    using assms(2,3) by (cases "Suc n = rb_cap rb") auto
  ultimately show ?thesis
    using index_of_nat [OF assms(1), of "Suc n"] assms(4,5) by (metis of_nat_Suc add.commute)
qed

text \<open>Writes and reads in turn, up to the end of the first lap.\<close>

lemma rests_in_turn:
  assumes "rb_fresh rb0" and "2 \<le> rb_cap rb0" and "n \<le> rb_cap rb0"
  shows "\<exists>rb. rests rb0 rb \<and> rb_ok rb \<and> rb_cap rb = rb_cap rb0 \<and> write_idx rb = of_nat n \<and> read_idx rb = of_nat n"
  using assms(3)
proof (induction n)
  case 0
  show ?case
    using assms(1) rests_start by (auto simp: rb_fresh_def)
next
  case (Suc n)
  then obtain rb where rb: "rests rb0 rb" "rb_ok rb" "rb_cap rb = rb_cap rb0" "write_idx rb = of_nat n" "read_idx rb = of_nat n"
    by auto
  have "(write_idx rb + 1) AND rb_mask rb \<noteq> read_idx rb"
    using empty_not_full [OF rb(2) _ _ rb(4,5)] rb(3) assms(2) Suc.prems by simp
  then have w: "ring_buffer_write rb undefined = Some (True, rb_put rb undefined)"
    by (rule ring_buffer_write_room [OF rb(2)])
  let ?rb = "rb_put rb undefined"
  have "write_idx ?rb \<noteq> read_idx ?rb"
    using rb(4,5) by simp
  then have "ring_buffer_read ?rb = Some (Some (rb_slot ?rb 0), ?rb\<lparr>read_idx := read_idx ?rb + 1\<rparr>)"
    by (intro ring_buffer_read_nonempty) (use rb(2) in simp_all)
  from rests_read [OF rests_write [OF rb(1) w] this] show ?case
    using rb(2-5) by (intro exI [of _ "?rb\<lparr>read_idx := read_idx ?rb + 1\<rparr>"]) (simp add: add.commute)
qed

text \<open>Then writes alone, none of them refused.\<close>

lemma rests_ahead:
  assumes "rb_fresh rb0" and "2 \<le> rb_cap rb0"
  shows "\<exists>rb. rests rb0 rb \<and> rb_ok rb \<and> rb_cap rb = rb_cap rb0 \<and> write_idx rb = of_nat (rb_cap rb0 + n) \<and> read_idx rb = of_nat (rb_cap rb0)"
proof (induction n)
  case 0
  show ?case
    using rests_in_turn [OF assms order_refl] by simp
next
  case (Suc n)
  then obtain rb where rb: "rests rb0 rb" "rb_ok rb" "rb_cap rb = rb_cap rb0" "write_idx rb = of_nat (rb_cap rb0 + n)"
    "read_idx rb = of_nat (rb_cap rb0)"
    by auto
  have "rb_cap rb0 \<le> 2 ^ 31"
    using rb_cap_le assms(1) by (simp add: rb_fresh_def)
  then have "rb_cap rb \<le> unat (read_idx rb)"
    using rb(3,5) by (simp add: unat_of_nat)
  then have "ring_buffer_write rb undefined = Some (True, rb_put rb undefined)"
    by (intro ring_buffer_write_room rb(2) rb_full_lapped)
  from rests_write [OF rb(1) this] show ?case
    using rb(2-5) by (intro exI [of _ "rb_put rb undefined"]) (simp add: add_ac)
qed

section \<open>Properties\<close>

text \<open>
  C9. In its first lap the buffer is safe for one producer and one consumer in every interleaving of
  their single memory operations, stale loads included: they are never in a copy of the same slot,
  no copy is outside the array, what was delivered are the first of the accepted samples in order,
  and fewer than the capacity wait.
\<close>

theorem spsc_first_lap_safe:
  assumes "rb_fresh rb" and "spsc_run (spsc_start rb) s" and "length (sp_got s) < rb_cap rb"
  shows "\<not> torn s \<and> sp_got s = take (length (sp_got s)) (sp_offered s) \<and> length (sp_offered s) < length (sp_got s) + rb_cap rb
    \<and> (\<forall>i. writing_slot s = Some i \<or> reading_slot s = Some i \<longrightarrow> i < length (rb_buffer (sp_rb s)))"
proof -
  have r: "length (sp_got s) = r_count s"
    using latest_run [OF assms(2)] by (simp add: latest_ok_def)
  then have s: "spsc_ok s" "rb_cap (sp_rb s) = rb_cap rb"
    using spsc_ok_run [OF assms(2) spsc_ok_start [OF assms(1)]] assms(3) by (simp_all add: spsc_start_def)
  have lap: "r_count s < rb_cap (sp_rb s)"
    using assms(3) r s(2) by simp
  have ok: "rb_ok (sp_rb s)"
    using s(1) by (simp add: spsc_ok_def counted_def)
  have "writing_slot s \<noteq> reading_slot s" if some: "writing_slot s \<noteq> None"
  proof
    assume same: "writing_slot s = reading_slot s"
    obtain d w r where p: "sp_prod s = P_both d w r" "\<not> seems_full (sp_rb s) w r" "writing_slot s = Some (unat (w AND rb_mask (sp_rb s)))"
      using some by (auto simp: writing_slot_def split: producer.splits if_splits)
    obtain r' w' where c: "sp_cons s = C_both r' w'" "r' \<noteq> w'" "reading_slot s = Some (unat (r' AND rb_mask (sp_rb s)))"
      using some same by (auto simp: reading_slot_def split: consumer.splits if_splits)
    have "r_count s < w_count s" "r' = of_nat (r_count s)"
      using consumer_sees [OF s(1) lap c(1,2)] s(1) c(1) by (auto simp: spsc_ok_def counted_def consumer_at_def)
    then show False
      using slot_free [OF s(1) lap p(1,2) order_refl] index_of_nat [OF ok spsc_small(4) [OF s(1) lap]] same p(3) c(3) by simp
  qed
  then have "\<not> torn s"
    by (auto simp: torn_def)
  moreover have "sp_got s = take (length (sp_got s)) (sp_offered s)" "length (sp_offered s) < length (sp_got s) + rb_cap rb"
    using s r by (auto simp: spsc_ok_def slots_hold_def counted_def)
  ultimately show ?thesis
    using rb_index_in_buffer [OF ok] by (auto simp: writing_slot_def reading_slot_def split: producer.splits consumer.splits if_splits)
qed

definition rb4 :: ring_buffer where
  "rb4 = \<lparr>write_idx = 0, read_idx = 0, rb_mask = 3, rb_buffer = replicate 4 zero_sensor_data\<rparr>"

lemma rb4_fresh: "rb_fresh rb4" "rb_cap rb4 = 4"
proof -
  have "rb_ok rb4"
    unfolding rb_ok_def by (intro exI [of _ 2]) (simp add: rb4_def pow2_mask_def)
  then show "rb_fresh rb4" "rb_cap rb4 = 4"
    by (simp_all add: rb_fresh_def rb4_def rb_cap_def)
qed

theorem spsc_first_lap_safe_witness:
  "\<exists>s. spsc_run (spsc_start rb4) s \<and> sp_got s = [sample 1] \<and> \<not> torn s \<and> [sample 1] = take 1 (sp_offered s)"
proof -
  let ?rb = "rb_put rb4 (sample 1)"
  have "ring_buffer_write (sp_rb (spsc_start rb4)) (sample 1) = Some (True, ?rb)"
    by (simp add: spsc_start_def rb4_def ring_buffer_write_def rb_put_def Let_def)
  then obtain s where s: "spsc_run (spsc_start rb4) s" "sp_rb s = ?rb" "sp_cons s = C_ready" "sp_got s = []"
    using write_alone [of "spsc_start rb4" "sample 1" True ?rb] by (auto simp: spsc_start_def)
  have "ring_buffer_read (sp_rb s) = Some (Some (sample 1), ?rb\<lparr>read_idx := 1\<rparr>)"
    using s(2) by (simp add: rb4_def ring_buffer_read_def rb_put_def Let_def)
  then obtain t where t: "spsc_run s t" "sp_got t = sp_got s @ [sample 1]"
    using read_alone [OF s(3)] latest_run [OF s(1)] by (fastforce simp: latest_ok_def)
  have run: "spsc_run (spsc_start rb4) t"
    using s(1) t(1) by simp
  show ?thesis
    using spsc_first_lap_safe [OF rb4_fresh(1) run] t(2) s(4) run rb4_fresh(2) by (intro exI [of _ t]) auto
qed

text \<open>
  C36. After the first lap it is not: for every capacity of at least two there is a run of a fresh
  buffer, without a refused write, in which the producer stores to a slot while the consumer copies
  the same slot, a data race that C leaves undefined.
\<close>

theorem spsc_torn_after_lap:
  assumes "rb_fresh rb" and "2 \<le> rb_cap rb"
  shows "\<exists>s. spsc_run (spsc_start rb) s \<and> torn s"
proof -
  let ?cap = "rb_cap rb"
  obtain rb1 where rb1: "rests rb rb1" "rb_ok rb1" "rb_cap rb1 = ?cap" "write_idx rb1 = of_nat (?cap + ?cap)" "read_idx rb1 = of_nat ?cap"
    using rests_ahead [OF assms] by blast
  then obtain s where s: "spsc_run (spsc_start rb) s" "sp_rb s = rb1" "sp_prod s = P_ready" "sp_cons s = C_ready"
    by (auto simp: rests_def)
  note latest = latest_run [OF s(1), unfolded latest_ok_def]
  let ?w = "write_idx rb1" and ?r = "read_idx rb1" and ?k = "length (sp_reads s) - 1" and ?l = "length (sp_writes s) - 1"
  have last: "sp_reads s ! ?k = ?r" "sp_writes s ! ?l = ?w"
    using latest s(2) by (metis last_conv_nth length_0_conv less_zeroE)+
  let ?s1 = "s\<lparr>sp_prod := P_own undefined ?w\<rparr>"
  let ?s2 = "?s1\<lparr>sp_prod := P_both undefined ?w (sp_reads ?s1 ! ?k), sp_saw_read := ?k\<rparr>"
  let ?s3 = "?s2\<lparr>sp_cons := C_own ?r\<rparr>"
  let ?s4 = "?s3\<lparr>sp_cons := C_both ?r (sp_writes ?s3 ! ?l), sp_saw_write := ?l\<rparr>"
  have "spsc_step s ?s1"
    using p_own [OF s(3), of undefined] s(2) by simp
  moreover have "spsc_step ?s1 ?s2"
    by (rule p_other) (use latest in auto)
  moreover have "spsc_step ?s2 ?s3"
    using c_own [of ?s2] s(2,4) by simp
  moreover have "spsc_step ?s3 ?s4"
    by (rule c_other) (use latest in auto)
  ultimately have "spsc_run (spsc_start rb) ?s4"
    using s(1) by (meson rtranclp.rtrancl_into_rtrancl)
  moreover have "torn ?s4"
  proof -
    obtain k where k: "k < 32" "?cap = 2 ^ k"
      using rb1(2,3) by (metis rb_okE)
    then have cap: "?cap \<le> 2 ^ 31"
      using power_increasing [of k 31 "2 :: nat"] by simp
    have small: "unat ?r = ?cap"
      using cap rb1(5) by (simp add: unat_of_nat)
    then have "\<not> seems_full rb1 ?w ?r"
      using rb_full_lapped [OF rb1(2)] rb1(3) by (simp add: seems_full_def)
    moreover have "?r \<noteq> ?w"
    proof
      assume "?r = ?w"
      then have "(of_nat ?cap :: u32) = 0"
        using rb1(4,5) by simp
      then show False using small rb1(5) assms(2) by simp
    qed
    moreover have "unat (?w AND rb_mask rb1) = 0"
    proof -
      have "unat ?w mod ?cap = (unat ?r + unat ?r) mod ?cap"
        using unat_mod_pow2_eq [of k ?r ?r] k rb1(4,5) by (simp add: small)
      then show ?thesis
        using rb_index_mod [OF rb1(2), of ?w] rb1(3) small by simp
    qed
    moreover have "unat (?r AND rb_mask rb1) = 0"
      using rb_index_mod [OF rb1(2), of ?r] rb1(3) small by simp
    ultimately show ?thesis
      using last s(2) by (simp add: torn_def writing_slot_def reading_slot_def)
  qed
  ultimately show ?thesis by blast
qed

theorem spsc_torn_after_lap_witness:
  "\<exists>s. spsc_run (spsc_start rb4) s \<and> torn s"
  using spsc_torn_after_lap [OF rb4_fresh(1)] rb4_fresh(2) by simp

end
