(* ===== verification/Ring_Buffer_Test.thy ===== *)
theory Ring_Buffer_Test
  imports Spsc
begin

text \<open>
  The test program \<open>app/core/ring_buffer_test.c\<close>: a producer writes a million numbered samples into
  a buffer of 2048, a consumer reads them and counts those that are not the one it expects. The
  two threads are interleaved by their calls of the buffer: a turn is one round of a thread's
  waiting loop.
\<close>

section \<open>The program\<close>

definition TEST_COUNT :: nat where "TEST_COUNT = 1000000"
definition RING_CAPACITY :: u32 where "RING_CAPACITY = 2048"

text \<open>The globals, and the loop variables of the threads; \<open>expected\<close> runs with that of the consumer.\<close>

record rb_test =
  g_rb :: ring_buffer
  g_write_ok :: u64
  g_write_fail :: u64
  g_read_ok :: u64
  g_read_fail :: u64
  g_error_count :: u64
  p_i :: nat
  c_i :: nat

definition test_sample :: "nat \<Rightarrow> sensor_data" where
  "test_sample i = \<lparr>timestamp_ns = of_nat i, sensor_type = 0, channel = of_nat (i mod 6), sd_value = of_nat i\<rparr>"

definition producer_turn :: "rb_test \<Rightarrow> rb_test option" where
  "producer_turn t =
     (if TEST_COUNT \<le> p_i t then Some t
      else case ring_buffer_write (g_rb t) (test_sample (p_i t)) of
        None \<Rightarrow> None
      | Some (False, rb) \<Rightarrow> Some (t\<lparr>g_rb := rb, g_write_fail := g_write_fail t + 1\<rparr>)
      | Some (True, rb) \<Rightarrow> Some (t\<lparr>g_rb := rb, g_write_ok := g_write_ok t + 1, p_i := p_i t + 1\<rparr>))"

definition errors_of :: "sensor_data \<Rightarrow> nat \<Rightarrow> u64" where
  "errors_of data expected =
     (if timestamp_ns data \<noteq> of_nat expected then 1 else 0) + (if sd_value data \<noteq> of_nat expected then 1 else 0)"

definition consumer_turn :: "rb_test \<Rightarrow> rb_test option" where
  "consumer_turn t =
     (if TEST_COUNT \<le> c_i t then Some t
      else case ring_buffer_read (g_rb t) of
        None \<Rightarrow> None
      | Some (None, rb) \<Rightarrow> Some (t\<lparr>g_rb := rb, g_read_fail := g_read_fail t + 1\<rparr>)
      | Some (Some data, rb) \<Rightarrow>
          Some (t\<lparr>g_rb := rb, g_read_ok := g_read_ok t + 1, g_error_count := g_error_count t + errors_of data (c_i t),
                  c_i := c_i t + 1\<rparr>))"

datatype turn = Producer | Consumer

fun take_turns :: "turn list \<Rightarrow> rb_test \<Rightarrow> rb_test option" where
  "take_turns [] t = Some t"
| "take_turns (x # xs) t =
     (case (case x of Producer \<Rightarrow> producer_turn t | Consumer \<Rightarrow> consumer_turn t) of
        None \<Rightarrow> None
      | Some t' \<Rightarrow> take_turns xs t')"

text \<open>
  The whole program: it could not start, its threads are still running after these turns, or its
  exit code and whether it printed that the test passed. \<open>None\<close> is a copy outside the array.
\<close>

datatype test_end = Not_started | Running | Ended int bool

definition test_start :: "ring_buffer \<Rightarrow> rb_test" where
  "test_start rb = \<lparr>g_rb = rb, g_write_ok = 0, g_write_fail = 0, g_read_ok = 0, g_read_fail = 0, g_error_count = 0, p_i = 0, c_i = 0\<rparr>"

definition ring_buffer_test_main ::
  "bool \<Rightarrow> (u32 \<Rightarrow> sensor_data list option) \<Rightarrow> int \<Rightarrow> int \<Rightarrow> turn list \<Rightarrow> test_end option" where
  "ring_buffer_test_main rb_malloc_ok malloc consumer_rc producer_rc turns =
     (case ring_buffer_create rb_malloc_ok malloc RING_CAPACITY of
        None \<Rightarrow> Some Not_started
      | Some rb \<Rightarrow>
          if consumer_rc \<noteq> 0 then Some Not_started
          else if producer_rc \<noteq> 0 then Some Not_started
          else case take_turns turns (test_start rb) of
            None \<Rightarrow> None
          | Some t \<Rightarrow>
              if p_i t < TEST_COUNT \<or> c_i t < TEST_COUNT then Some Running
              else Some (Ended (if g_error_count t = 0 then 0 else 1)
                (g_error_count t = 0 \<and> g_write_ok t = of_nat TEST_COUNT \<and> g_read_ok t = of_nat TEST_COUNT)))"

section \<open>A producer that never meets a full buffer\<close>

fun keeps_up :: "turn list \<Rightarrow> rb_test \<Rightarrow> bool" where
  "keeps_up [] t = True"
| "keeps_up (x # xs) t =
     ((x = Producer \<and> p_i t < TEST_COUNT \<longrightarrow> rb_used (g_rb t) < rb_cap (g_rb t))
      \<and> (case (case x of Producer \<Rightarrow> producer_turn t | Consumer \<Rightarrow> consumer_turn t) of
           None \<Rightarrow> True | Some t' \<Rightarrow> keeps_up xs t'))"

text \<open>What waits in the buffer are the samples between the two loops; nothing was wrong so far.\<close>

definition in_order :: "rb_test \<Rightarrow> bool" where
  "in_order t \<longleftrightarrow> rb_ok (g_rb t) \<and> rb_used (g_rb t) \<le> rb_cap (g_rb t) \<and> rb_contents (g_rb t) = map test_sample [c_i t..<p_i t]
     \<and> c_i t \<le> p_i t \<and> p_i t \<le> TEST_COUNT \<and> g_error_count t = 0 \<and> g_write_ok t = of_nat (p_i t) \<and> g_read_ok t = of_nat (c_i t)"

lemma errors_of_sample [simp]: "errors_of (test_sample i) i = 0"
  by (simp add: errors_of_def test_sample_def)

lemma producer_in_order:
  assumes "in_order t" and "p_i t < TEST_COUNT \<Longrightarrow> rb_used (g_rb t) < rb_cap (g_rb t)"
  shows "\<exists>t'. producer_turn t = Some t' \<and> in_order t'"
proof (cases "p_i t < TEST_COUNT")
  case False
  then show ?thesis using assms(1) by (simp add: producer_turn_def)
next
  case True
  let ?rb = "g_rb t" and ?d = "test_sample (p_i t)"
  have rb: "rb_ok ?rb" "rb_used ?rb < rb_cap ?rb" "rb_contents ?rb = map test_sample [c_i t..<p_i t]" "c_i t \<le> p_i t"
    using assms True by (simp_all add: in_order_def)
  show ?thesis
  proof (cases "(write_idx ?rb + 1) AND rb_mask ?rb = read_idx ?rb")
    case full: True
    then have "ring_buffer_write ?rb ?d = Some (False, ?rb)"
      by (simp add: ring_buffer_write_def)
    then show ?thesis
      using assms(1) True by (simp add: producer_turn_def in_order_def)
  next
    case False
    have "rb_used (rb_put ?rb ?d) = Suc (rb_used ?rb)"
      using rb(2) rb_cap_le [OF rb(1)] by (intro rb_used_put) simp
    moreover have "rb_contents (rb_put ?rb ?d) = map test_sample [c_i t..<Suc (p_i t)]"
      using rb_contents_put [OF rb(1,2), of ?d] rb(3,4) by simp
    ultimately show ?thesis
      using assms(1) True rb ring_buffer_write_room [OF rb(1) False, of ?d]
      by (simp add: producer_turn_def in_order_def)
  qed
qed

lemma consumer_in_order:
  assumes "in_order t"
  shows "\<exists>t'. consumer_turn t = Some t' \<and> in_order t'"
proof (cases "c_i t < TEST_COUNT")
  case False
  then show ?thesis using assms by (simp add: consumer_turn_def)
next
  case True
  let ?rb = "g_rb t"
  have rb: "rb_ok ?rb" "rb_contents ?rb = map test_sample [c_i t..<p_i t]" "c_i t \<le> p_i t"
    using assms by (simp_all add: in_order_def)
  show ?thesis
  proof (cases "c_i t = p_i t")
    case eq: True
    then have "write_idx ?rb = read_idx ?rb"
      using rb(2) length_rb_contents [of ?rb] rb_used_0 [of ?rb] by simp
    then show ?thesis
      using assms True by (simp add: consumer_turn_def in_order_def ring_buffer_read_empty)
  next
    case False
    then have "rb_contents ?rb = test_sample (c_i t) # map test_sample [Suc (c_i t)..<p_i t]"
      using rb(2,3) by (simp add: upt_rec_hd)
    from ring_buffer_get_next [OF rb(1) this] show ?thesis
      using assms True False by (auto simp: consumer_turn_def in_order_def)
  qed
qed

lemma turns_in_order:
  "in_order t \<Longrightarrow> keeps_up xs t \<Longrightarrow> \<exists>t'. take_turns xs t = Some t' \<and> in_order t'"
proof (induction xs arbitrary: t)
  case (Cons x xs)
  obtain t' where t': "(case x of Producer \<Rightarrow> producer_turn t | Consumer \<Rightarrow> consumer_turn t) = Some t'" "in_order t'"
    using producer_in_order [OF Cons.prems(1)] consumer_in_order [OF Cons.prems(1)] Cons.prems(2) by (cases x) auto
  then show ?case
    using Cons.IH [OF t'(2)] Cons.prems(2) by simp
qed simp

section \<open>A producer a lap ahead\<close>

definition reached :: "rb_test \<Rightarrow> rb_test \<Rightarrow> bool" where
  "reached s t \<longleftrightarrow> (\<exists>xs. take_turns xs s = Some t)"

lemma take_turns_append:
  "take_turns (xs @ ys) t = (case take_turns xs t of None \<Rightarrow> None | Some t' \<Rightarrow> take_turns ys t')"
  by (induction xs arbitrary: t) (auto split: option.splits)

lemma reached_start: "reached s s"
  unfolding reached_def by (intro exI [of _ "[]"]) simp

lemma reached_producer: "reached s t \<Longrightarrow> producer_turn t = Some t' \<Longrightarrow> reached s t'"
  unfolding reached_def by (elim exE, rule_tac x = "xs @ [Producer]" in exI) (simp add: take_turns_append)

lemma reached_consumer: "reached s t \<Longrightarrow> consumer_turn t = Some t' \<Longrightarrow> reached s t'"
  unfolding reached_def by (elim exE, rule_tac x = "xs @ [Consumer]" in exI) (simp add: take_turns_append)

text \<open>The loops are in rounds \<open>w\<close> and \<open>r\<close>, the indices agree with them, and no write was refused.\<close>

definition at_rounds :: "nat \<Rightarrow> nat \<Rightarrow> rb_test \<Rightarrow> bool" where
  "at_rounds w r t \<longleftrightarrow> rb_ok (g_rb t) \<and> rb_cap (g_rb t) = 2048 \<and> p_i t = w \<and> c_i t = r
     \<and> write_idx (g_rb t) = of_nat w \<and> read_idx (g_rb t) = of_nat r \<and> g_write_fail t = 0"

lemma writes_one:
  assumes "at_rounds w r t" and "w < TEST_COUNT" and "(write_idx (g_rb t) + 1) AND rb_mask (g_rb t) \<noteq> read_idx (g_rb t)"
  shows "\<exists>t'. producer_turn t = Some t' \<and> at_rounds (Suc w) r t' \<and> g_error_count t' = g_error_count t
    \<and> g_rb t' = rb_put (g_rb t) (test_sample w) \<and> g_write_ok t' = g_write_ok t + 1"
  using assms ring_buffer_write_room [of "g_rb t" "test_sample w"]
  by (simp add: producer_turn_def at_rounds_def add.commute)

lemma reads_one:
  assumes "at_rounds w r t" and "r < w" and "w \<le> TEST_COUNT"
  shows "\<exists>t'. consumer_turn t = Some t' \<and> at_rounds w (Suc r) t'
    \<and> g_error_count t' = g_error_count t + errors_of (rb_slot (g_rb t) 0) r
    \<and> ring_buffer_read (g_rb t) = Some (Some (rb_slot (g_rb t) 0), g_rb t')"
proof -
  have "unat (of_nat w :: u32) = w" "unat (of_nat r :: u32) = r"
    using assms(2,3) by (simp_all add: TEST_COUNT_def unat_of_nat)
  then have "(of_nat w :: u32) \<noteq> of_nat r"
    using assms(2) by (metis less_irrefl)
  then show ?thesis
    using assms ring_buffer_read_nonempty [of "g_rb t"]
    by (simp add: consumer_turn_def at_rounds_def add.commute)
qed

text \<open>After a lap of reads no write is refused.\<close>

lemma never_full:
  assumes "at_rounds w r t" and "2048 \<le> r" and "r \<le> TEST_COUNT"
  shows "(x AND rb_mask (g_rb t)) \<noteq> read_idx (g_rb t)"
proof (rule rb_full_lapped)
  show "rb_ok (g_rb t)" "rb_cap (g_rb t) \<le> unat (read_idx (g_rb t))"
    using assms by (simp_all add: at_rounds_def TEST_COUNT_def unat_of_nat)
qed

lemma reached_in_turn:
  assumes "rb_ok rb" and "rb_cap rb = 2048" and "write_idx rb = 0" and "read_idx rb = 0" and "n \<le> 2048"
  shows "\<exists>t. reached (test_start rb) t \<and> at_rounds n n t \<and> in_order t"
  using assms(5)
proof (induction n)
  case 0
  show ?case
    using reached_start [of "test_start rb"] assms(1-4) by (intro exI [of _ "test_start rb"]) (simp add: at_rounds_def test_start_def in_order_def rb_contents_def rb_used_def)
next
  case (Suc n)
  then obtain t where t: "reached (test_start rb) t" "at_rounds n n t" "in_order t"
    by auto
  have "(write_idx (g_rb t) + 1) AND rb_mask (g_rb t) \<noteq> read_idx (g_rb t)"
    using t(2) Suc.prems by (intro empty_not_full [of _ n]) (simp_all add: at_rounds_def)
  moreover have n: "n < TEST_COUNT"
    using Suc.prems by (simp add: TEST_COUNT_def)
  ultimately obtain t' where t': "producer_turn t = Some t'" "at_rounds (Suc n) n t'"
    using writes_one [OF t(2)] by auto
  obtain t'' where t'': "consumer_turn t' = Some t''" "at_rounds (Suc n) (Suc n) t''"
    using reads_one [OF t'(2)] n by auto
  have "rb_used (g_rb t) < rb_cap (g_rb t)"
    using t(2) by (simp add: at_rounds_def rb_used_def)
  then have "in_order t''"
    using producer_in_order [OF t(3)] consumer_in_order [of t'] t'(1) t''(1) by auto
  then show ?case
    using reached_consumer reached_producer t(1) t'(1) t'' by blast
qed

text \<open>The producer fills the buffer with unread samples, to its last slot.\<close>

lemma reached_fills:
  assumes "reached s t" and "at_rounds 2048 2048 t" and "in_order t" and "n \<le> 2048"
  shows "\<exists>t'. reached s t' \<and> at_rounds (2048 + n) 2048 t' \<and> in_order t'"
  using assms(4)
proof (induction n)
  case 0
  then show ?case using assms(1-3) by auto
next
  case (Suc n)
  then obtain t' where t': "reached s t'" "at_rounds (2048 + n) 2048 t'" "in_order t'"
    by auto
  have n: "2048 + n < TEST_COUNT"
    using Suc.prems by (simp add: TEST_COUNT_def)
  then obtain t'' where t'': "producer_turn t' = Some t''" "at_rounds (Suc (2048 + n)) 2048 t''"
    using writes_one [OF t'(2) _ never_full [OF t'(2)]] by (auto simp: TEST_COUNT_def)
  have "length (rb_contents (g_rb t')) = n"
    using t'(2,3) by (simp add: in_order_def at_rounds_def)
  then have "rb_used (g_rb t') < rb_cap (g_rb t')"
    using t'(2) Suc.prems by (simp add: at_rounds_def length_rb_contents)
  then have "in_order t''"
    using producer_in_order [OF t'(3)] t''(1) by auto
  then show ?case
    using reached_producer [OF t'(1) t''(1)] t''(2) by auto
qed

lemma reached_writes:
  assumes "reached s t" and "at_rounds w r t" and "2048 \<le> r" and "r \<le> TEST_COUNT" and "w + n \<le> TEST_COUNT"
  shows "\<exists>t'. reached s t' \<and> at_rounds (w + n) r t' \<and> g_error_count t' = g_error_count t"
  using assms(5)
proof (induction n)
  case 0
  then show ?case using assms(1,2) by auto
next
  case (Suc n)
  then obtain t' where t': "reached s t'" "at_rounds (w + n) r t'" "g_error_count t' = g_error_count t"
    by auto
  have "w + n < TEST_COUNT"
    using Suc.prems by simp
  then obtain t'' where "producer_turn t' = Some t''" "at_rounds (Suc (w + n)) r t''" "g_error_count t'' = g_error_count t'"
    using writes_one [OF t'(2) _ never_full [OF t'(2) assms(3,4)]] by blast
  then show ?case
    using reached_producer [OF t'(1)] t'(3) by auto
qed

text \<open>An error stays counted: a million reads count at most two million.\<close>

lemma errors_of_le: "unat (errors_of d e) \<le> 2"
  by (simp add: errors_of_def)

lemma reached_reads:
  assumes "reached s t" and "at_rounds TEST_COUNT r t" and "0 < unat (g_error_count t)" and "unat (g_error_count t) \<le> 2 * r"
    and "r + n \<le> TEST_COUNT"
  shows "\<exists>t'. reached s t' \<and> at_rounds TEST_COUNT (r + n) t' \<and> 0 < unat (g_error_count t') \<and> unat (g_error_count t') \<le> 2 * (r + n)"
  using assms(5)
proof (induction n)
  case 0
  then show ?case using assms(1-4) by auto
next
  case (Suc n)
  then obtain t' where t': "reached s t'" "at_rounds TEST_COUNT (r + n) t'" "0 < unat (g_error_count t')"
    "unat (g_error_count t') \<le> 2 * (r + n)"
    by auto
  let ?e = "errors_of (rb_slot (g_rb t') 0) (r + n)"
  obtain t'' where t'': "consumer_turn t' = Some t''" "at_rounds TEST_COUNT (Suc (r + n)) t''"
    "g_error_count t'' = g_error_count t' + ?e"
    using reads_one [OF t'(2)] Suc.prems by auto
  have "unat (g_error_count t') + unat ?e < 2 ^ 64"
    using t'(4) Suc.prems errors_of_le [of "rb_slot (g_rb t') 0" "r + n"] by (simp add: TEST_COUNT_def)
  then have "unat (g_error_count t'') = unat (g_error_count t') + unat ?e"
    using t''(3) by (simp add: unat_word_ariths)
  then show ?case
    using reached_consumer [OF t'(1) t''(1)] t''(2) t'(3,4) errors_of_le [of "rb_slot (g_rb t') 0" "r + n"]
    by (intro exI [of _ t'']) simp
qed

section \<open>Properties\<close>

text \<open>
  The test passes, or is still running, in every interleaving of the calls in which the producer
  never meets a buffer whose every slot is unread: it reads back what was written, in order.
\<close>

theorem ring_buffer_test_passes:
  assumes "malloc_ok malloc" and "ring_buffer_create True malloc RING_CAPACITY = Some rb" and "keeps_up turns (test_start rb)"
  shows "ring_buffer_test_main True malloc 0 0 turns \<in> {Some Running, Some (Ended 0 True)}"
proof -
  have "in_order (test_start rb)"
    using ring_buffer_create_ok [OF assms(1,2)] by (simp add: in_order_def test_start_def RING_CAPACITY_def)
  from turns_in_order [OF this assms(3)] obtain t where t: "take_turns turns (test_start rb) = Some t" "in_order t"
    by blast
  have "ring_buffer_test_main True malloc 0 0 turns =
      (if p_i t < TEST_COUNT \<or> c_i t < TEST_COUNT then Some Running
       else Some (Ended (if g_error_count t = 0 then 0 else 1)
         (g_error_count t = 0 \<and> g_write_ok t = of_nat TEST_COUNT \<and> g_read_ok t = of_nat TEST_COUNT)))"
    using assms(2) t(1) by (simp add: ring_buffer_test_main_def)
  then show ?thesis
    using t(2) by (auto simp: in_order_def)
qed

text \<open>An allocator that has room for the buffer of the test.\<close>

definition malloc2048 :: "u32 \<Rightarrow> sensor_data list option" where
  "malloc2048 bytes = (if bytes \<le> 32768 then Some (replicate 2048 zero_sensor_data) else None)"

lemma malloc2048_ok: "malloc_ok malloc2048"
  by (auto simp: malloc_ok_def malloc2048_def word_le_nat_alt)

lemma malloc2048_creates: "\<exists>rb. ring_buffer_create True malloc2048 RING_CAPACITY = Some rb"
  by (simp add: ring_buffer_create_def malloc2048_def RING_CAPACITY_def)

theorem ring_buffer_test_passes_witness:
  "ring_buffer_test_main True malloc2048 0 0 [Producer, Consumer, Consumer] \<in> {Some Running, Some (Ended 0 True)}"
proof -
  obtain rb where rb: "ring_buffer_create True malloc2048 RING_CAPACITY = Some rb"
    using malloc2048_creates by blast
  have "rb_used (g_rb (test_start rb)) < rb_cap (g_rb (test_start rb))"
    using ring_buffer_create_ok [OF malloc2048_ok rb] by (simp add: test_start_def RING_CAPACITY_def)
  then have "keeps_up [Producer, Consumer, Consumer] (test_start rb)"
    by (auto split: option.splits)
  then show ?thesis
    by (rule ring_buffer_test_passes [OF malloc2048_ok rb])
qed

text \<open>
  C37. The buffer fails its own test in some interleavings. The consumer reads its first 2048 samples
  without an error and then stops for 2049 writes. After 2048 of them every slot holds a sample it has
  not read; the next write is not refused either and overwrites the oldest of these: where the
  consumer expects sample 2048 it reads sample 4096, which counts two errors. At the end of that run
  no write was ever refused, and the program has ended with code 1 without having printed that the
  test passed.
\<close>

theorem ring_buffer_test_can_fail:
  assumes "malloc_ok malloc" and "ring_buffer_create True malloc RING_CAPACITY = Some rb"
  shows "\<exists>before after t u v x. take_turns before (test_start rb) = Some t
    \<and> rb_contents (g_rb t) = map test_sample [2048..<4096] \<and> rb_cap (g_rb t) = 2048
    \<and> g_read_ok t = 2048 \<and> g_error_count t = 0
    \<and> producer_turn t = Some u \<and> g_write_ok u = g_write_ok t + 1 \<and> g_write_fail u = 0
    \<and> ring_buffer_read (g_rb u) = Some (Some (test_sample 4096), g_rb v)
    \<and> consumer_turn u = Some v \<and> g_error_count v = 2
    \<and> take_turns (before @ [Producer, Consumer] @ after) (test_start rb) = Some x \<and> g_write_fail x = 0
    \<and> ring_buffer_test_main True malloc 0 0 (before @ [Producer, Consumer] @ after) = Some (Ended 1 False)"
proof -
  have rb: "rb_ok rb" "rb_cap rb = 2048" "rb_used rb = 0" "read_idx rb = 0"
    using ring_buffer_create_ok [OF assms] by (simp_all add: RING_CAPACITY_def)
  then have "write_idx rb = 0"
    by (simp add: rb_used_0)
  then obtain t0 where t0: "reached (test_start rb) t0" "at_rounds 2048 2048 t0" "in_order t0"
    using reached_in_turn [OF rb(1,2) _ rb(4) order_refl] by blast
  obtain t where t: "reached (test_start rb) t" "at_rounds 4096 2048 t" "in_order t"
    using reached_fills [OF t0 order_refl] by auto
  obtain u where u: "producer_turn t = Some u" "at_rounds 4097 2048 u" "g_error_count u = g_error_count t"
      "g_rb u = rb_put (g_rb t) (test_sample 4096)" "g_write_ok u = g_write_ok t + 1"
    using writes_one [OF t(2) _ never_full [OF t(2)]] by (auto simp: TEST_COUNT_def)
  have slot: "rb_slot (g_rb u) 0 = test_sample 4096"
    unfolding u(4) using t(2)
    by (intro rb_slot_put_new) (simp_all add: at_rounds_def rb_used_def unat_of_nat)
  then have lost: "errors_of (rb_slot (g_rb u) 0) 2048 = 2"
    by (simp add: errors_of_def test_sample_def)
  have t_counts: "g_error_count t = 0" "g_read_ok t = 2048" "rb_contents (g_rb t) = map test_sample [2048..<4096]" "rb_cap (g_rb t) = 2048"
    using t(2,3) by (simp_all add: in_order_def at_rounds_def)
  obtain v where v: "consumer_turn u = Some v" "at_rounds 4097 2049 v" "g_error_count v = 2"
      "ring_buffer_read (g_rb u) = Some (Some (test_sample 4096), g_rb v)"
    using reads_one [OF u(2)] lost slot u(3) t_counts(1) by (auto simp: TEST_COUNT_def)
  have no_refusal: "g_write_fail u = 0" "g_write_fail x = 0" if "at_rounds TEST_COUNT TEST_COUNT x" for x
    using u(2) that by (simp_all add: at_rounds_def)
  from reached_writes [OF reached_start v(2), of "TEST_COUNT - 4097"] obtain w where w: "reached v w" "at_rounds TEST_COUNT 2049 w"
      "g_error_count w = 2"
    using v(3) by (auto simp: TEST_COUNT_def)
  from reached_reads [OF w(1,2), of "TEST_COUNT - 2049"] obtain x where x: "reached v x" "at_rounds TEST_COUNT TEST_COUNT x"
      "0 < unat (g_error_count x)"
    using w(3) by (auto simp: TEST_COUNT_def)
  obtain before "after" where turns: "take_turns before (test_start rb) = Some t" "take_turns after v = Some x"
    using t(1) x(1) by (auto simp: reached_def)
  then have run: "take_turns (before @ [Producer, Consumer] @ after) (test_start rb) = Some x"
    using u(1) v(1) by (simp add: take_turns_append)
  then have "ring_buffer_test_main True malloc 0 0 (before @ [Producer, Consumer] @ after) = Some (Ended 1 False)"
    using x(2,3) assms(2) by (auto simp: ring_buffer_test_main_def at_rounds_def)
  note facts = turns(1) t_counts u(1,5) v(1,3,4) run no_refusal [OF x(2)] this
  show ?thesis
    by (intro exI [of _ before] exI [of _ "after"] exI [of _ t] exI [of _ u] exI [of _ v] exI [of _ x] conjI) (fact facts)+
qed

theorem ring_buffer_test_can_fail_witness:
  "\<exists>rb turns x. ring_buffer_create True malloc2048 RING_CAPACITY = Some rb
    \<and> take_turns turns (test_start rb) = Some x \<and> g_write_fail x = 0
    \<and> ring_buffer_test_main True malloc2048 0 0 turns = Some (Ended 1 False)"
  using malloc2048_creates ring_buffer_test_can_fail [OF malloc2048_ok] by blast

end
