(* ===== verification/Fsm.thy ===== *)
theory Fsm
  imports Edge_Prelude
begin

text \<open>
  The five-state machine of \<open>app/core/fsm.c\<close> and \<open>app/include/fsm.h\<close>: the transition table,
  the guarded transition, the reader that repairs a corrupted state, and the timed wait. The
  mutex makes each operation one step; \<open>pthread_cond_broadcast\<close> is counted.
\<close>

section \<open>States, events, the table\<close>

datatype system_state =
  STATE_INIT | STATE_RUNNING | STATE_DEGRADED | STATE_RECOVERING | STATE_FAULT

datatype fsm_event =
  EVENT_INIT_OK | EVENT_MPU_FAIL | EVENT_I2C_DEADLOCK | EVENT_BUS_RECOVERED
| EVENT_BUS_RECOVER_FAIL | EVENT_MPU_RESTORED | EVENT_ALL_OFFLINE | EVENT_WATCHDOG_RESET

definition STATE_MAX :: int where "STATE_MAX = 5"

fun state_code :: "system_state \<Rightarrow> int" where
  "state_code STATE_INIT = 0"
| "state_code STATE_RUNNING = 1"
| "state_code STATE_DEGRADED = 2"
| "state_code STATE_RECOVERING = 3"
| "state_code STATE_FAULT = 4"

text \<open>The state a memory cell stands for; nothing outside \<open>0..4\<close> is one.\<close>

definition code_state :: "int \<Rightarrow> system_state option" where
  "code_state n =
     (if n = 0 then Some STATE_INIT else if n = 1 then Some STATE_RUNNING
      else if n = 2 then Some STATE_DEGRADED else if n = 3 then Some STATE_RECOVERING
      else if n = 4 then Some STATE_FAULT else None)"

lemma code_state_code [simp]: "code_state (state_code s) = Some s"
  by (cases s) (simp_all add: code_state_def)

lemma code_state_Some: "code_state n = Some s \<longleftrightarrow> n = state_code s"
  by (cases s) (auto simp: code_state_def split: if_splits)

lemma code_state_None: "code_state n = None \<longleftrightarrow> n < 0 \<or> STATE_MAX \<le> n"
  by (auto simp: code_state_def STATE_MAX_def)

lemma state_code_range: "0 \<le> state_code s" "state_code s < STATE_MAX"
  by (cases s; simp add: STATE_MAX_def)+

lemma state_code_inj [simp]: "state_code s = state_code t \<longleftrightarrow> s = t"
  by (metis code_state_code option.inject)

text \<open>The rows of the table, \<open>-1\<close> for an illegal event.\<close>

fun transition_table :: "system_state \<Rightarrow> fsm_event \<Rightarrow> int" where
  "transition_table STATE_INIT e =
     (case e of
        EVENT_INIT_OK \<Rightarrow> state_code STATE_RUNNING
      | EVENT_MPU_FAIL \<Rightarrow> -1
      | EVENT_I2C_DEADLOCK \<Rightarrow> -1
      | EVENT_BUS_RECOVERED \<Rightarrow> -1
      | EVENT_BUS_RECOVER_FAIL \<Rightarrow> -1
      | EVENT_MPU_RESTORED \<Rightarrow> -1
      | EVENT_ALL_OFFLINE \<Rightarrow> state_code STATE_FAULT
      | EVENT_WATCHDOG_RESET \<Rightarrow> -1)"
| "transition_table STATE_RUNNING e =
     (case e of
        EVENT_INIT_OK \<Rightarrow> -1
      | EVENT_MPU_FAIL \<Rightarrow> state_code STATE_DEGRADED
      | EVENT_I2C_DEADLOCK \<Rightarrow> state_code STATE_RECOVERING
      | EVENT_BUS_RECOVERED \<Rightarrow> -1
      | EVENT_BUS_RECOVER_FAIL \<Rightarrow> -1
      | EVENT_MPU_RESTORED \<Rightarrow> -1
      | EVENT_ALL_OFFLINE \<Rightarrow> state_code STATE_FAULT
      | EVENT_WATCHDOG_RESET \<Rightarrow> -1)"
| "transition_table STATE_DEGRADED e =
     (case e of
        EVENT_INIT_OK \<Rightarrow> -1
      | EVENT_MPU_FAIL \<Rightarrow> -1
      | EVENT_I2C_DEADLOCK \<Rightarrow> state_code STATE_RECOVERING
      | EVENT_BUS_RECOVERED \<Rightarrow> -1
      | EVENT_BUS_RECOVER_FAIL \<Rightarrow> -1
      | EVENT_MPU_RESTORED \<Rightarrow> state_code STATE_RUNNING
      | EVENT_ALL_OFFLINE \<Rightarrow> state_code STATE_FAULT
      | EVENT_WATCHDOG_RESET \<Rightarrow> -1)"
| "transition_table STATE_RECOVERING e =
     (case e of
        EVENT_INIT_OK \<Rightarrow> -1
      | EVENT_MPU_FAIL \<Rightarrow> -1
      | EVENT_I2C_DEADLOCK \<Rightarrow> -1
      | EVENT_BUS_RECOVERED \<Rightarrow> state_code STATE_RUNNING
      | EVENT_BUS_RECOVER_FAIL \<Rightarrow> state_code STATE_FAULT
      | EVENT_MPU_RESTORED \<Rightarrow> -1
      | EVENT_ALL_OFFLINE \<Rightarrow> state_code STATE_FAULT
      | EVENT_WATCHDOG_RESET \<Rightarrow> -1)"
| "transition_table STATE_FAULT e =
     (case e of
        EVENT_INIT_OK \<Rightarrow> -1
      | EVENT_MPU_FAIL \<Rightarrow> -1
      | EVENT_I2C_DEADLOCK \<Rightarrow> -1
      | EVENT_BUS_RECOVERED \<Rightarrow> -1
      | EVENT_BUS_RECOVER_FAIL \<Rightarrow> -1
      | EVENT_MPU_RESTORED \<Rightarrow> -1
      | EVENT_ALL_OFFLINE \<Rightarrow> -1
      | EVENT_WATCHDOG_RESET \<Rightarrow> state_code STATE_INIT)"

section \<open>The context and its operations\<close>

text \<open>\<open>current\<close> is the memory cell of the enum; the counters are \<open>atomic_int\<close>s.\<close>

record fsm_context =
  current :: int
  mpu_fail_count :: i32
  i2c_retry_count :: i32
  temp_raw :: i32
  hum_raw :: i32
  broadcasts :: nat

definition zero_fsm_context :: fsm_context where
  "zero_fsm_context =
     \<lparr>current = 0, mpu_fail_count = 0, i2c_retry_count = 0, temp_raw = 0, hum_raw = 0, broadcasts = 0\<rparr>"

text \<open>A NULL context is \<open>None\<close>; the two flags are the success of the pthread calls.\<close>

definition fsm_init :: "bool \<Rightarrow> bool \<Rightarrow> fsm_context option \<Rightarrow> int \<times> fsm_context option" where
  "fsm_init mutex_ok cond_ok ctx =
     (case ctx of
        None \<Rightarrow> (-1, None)
      | Some _ \<Rightarrow>
          let c = zero_fsm_context\<lparr>current := state_code STATE_INIT\<rparr> in
          if \<not> mutex_ok then (-1, Some c)
          else if \<not> cond_ok then (-1, Some c)
          else (0, Some (c\<lparr>mpu_fail_count := 0, i2c_retry_count := 0, temp_raw := 0, hum_raw := 0\<rparr>)))"

text \<open>A \<open>current\<close> outside the enum indexes the table out of bounds: \<open>None\<close>.\<close>

definition fsm_transition ::
  "fsm_context option \<Rightarrow> fsm_event \<Rightarrow> (int \<times> fsm_context option) option" where
  "fsm_transition ctx event =
     (case ctx of
        None \<Rightarrow> Some (-1, None)
      | Some c \<Rightarrow>
          (case code_state (current c) of
             None \<Rightarrow> None
           | Some s \<Rightarrow>
               let next_state = transition_table s event in
               if next_state < 0 \<or> STATE_MAX \<le> next_state then Some (-1, Some c)
               else Some (0, Some (c\<lparr>current := next_state, broadcasts := Suc (broadcasts c)\<rparr>))))"

definition fsm_get_state :: "fsm_context \<Rightarrow> int" where
  "fsm_get_state c =
     (let s = current c in if s < 0 \<or> STATE_MAX \<le> s then state_code STATE_FAULT else s)"

definition state_name :: "string list" where
  "state_name = [''INIT'', ''RUNNING'', ''DEGRADED'', ''RECOVERING'', ''FAULT'']"

definition fsm_get_state_name :: "fsm_context \<Rightarrow> string option" where
  "fsm_get_state_name c =
     (let s = fsm_get_state c in
      if 0 \<le> s \<and> s < int (length state_name) then Some (state_name ! nat s) else None)"

section \<open>The timed wait\<close>

text \<open>The absolute deadline computed from the present time.\<close>

definition wait_deadline :: "timespec \<Rightarrow> int \<Rightarrow> timespec" where
  "wait_deadline now timeout_ms =
     (let sec = tv_sec now + timeout_ms sdiv 1000;
          nsec = tv_nsec now + (timeout_ms smod 1000) * 1000000 in
      if 1000000000 \<le> nsec
      then \<lparr>tv_sec = sec + 1, tv_nsec = nsec - 1000000000\<rparr>
      else \<lparr>tv_sec = sec, tv_nsec = nsec\<rparr>)"

text \<open>
  One round of the loop: the clock at its start, what the wait on the condition variable
  returned, and the state the thread finds when it holds the mutex again.
\<close>

record wake =
  wk_now :: timespec
  wk_rc :: int
  wk_current :: int

text \<open>
  The loop over the rounds the scheduler grants. The result is the return value and the
  deadlines that were used; \<open>None\<close> is a thread that still waits after these rounds.
\<close>

fun wait_loop :: "int \<Rightarrow> int \<Rightarrow> int \<Rightarrow> int \<Rightarrow> wake list \<Rightarrow> (int \<times> timespec list) option" where
  "wait_loop target timeout_ms ret cur [] = (if cur = target then Some (ret, []) else None)"
| "wait_loop target timeout_ms ret cur (w # ws) =
     (if cur = target then Some (ret, [])
      else if timeout_ms < 0 then wait_loop target timeout_ms ret (wk_current w) ws
      else let ts = wait_deadline (wk_now w) timeout_ms; ret' = wk_rc w in
        if ret' = ETIMEDOUT then Some (-1, [ts])
        else map_option (\<lambda>(r, ds). (r, ts # ds)) (wait_loop target timeout_ms ret' (wk_current w) ws))"

definition fsm_wait_for_state ::
  "fsm_context option \<Rightarrow> system_state \<Rightarrow> int \<Rightarrow> wake list \<Rightarrow> (int \<times> timespec list) option" where
  "fsm_wait_for_state ctx target timeout_ms ws =
     (case ctx of
        None \<Rightarrow> Some (-1, [])
      | Some c \<Rightarrow> wait_loop (state_code target) timeout_ms 0 (current c) ws)"

section \<open>The line a transition logs\<close>

fun event_code :: "fsm_event \<Rightarrow> nat" where
  "event_code EVENT_INIT_OK = 0"
| "event_code EVENT_MPU_FAIL = 1"
| "event_code EVENT_I2C_DEADLOCK = 2"
| "event_code EVENT_BUS_RECOVERED = 3"
| "event_code EVENT_BUS_RECOVER_FAIL = 4"
| "event_code EVENT_MPU_RESTORED = 5"
| "event_code EVENT_ALL_OFFLINE = 6"
| "event_code EVENT_WATCHDOG_RESET = 7"

definition event_name :: "string list" where
  "event_name = [''INIT_OK'', ''MPU_FAIL'', ''I2C_DEADLOCK'', ''BUS_RECOVERED'', ''BUS_RECOVER_FAIL'', ''MPU_RESTORED'',
     ''ALL_OFFLINE'', ''WATCHDOG_RESET'']"

text \<open>The arrow in UTF-8; an index outside one of the two tables of names is \<open>None\<close>.\<close>

definition fsm_transition_line :: "fsm_context \<Rightarrow> fsm_event \<Rightarrow> string option" where
  "fsm_transition_line c event =
     (case code_state (current c) of
        None \<Rightarrow> None
      | Some s \<Rightarrow>
          let next_state = transition_table s event;
              name = (\<lambda>k. if 0 \<le> k \<and> k < int (length state_name) then Some (state_name ! nat k) else None);
              arrow = '' '' @ [CHR 0xE2, CHR 0x86, CHR 0x92] @ '' '' in
          Option.bind (name (current c)) (\<lambda>from.
            Option.bind (if event_code event < length event_name then Some (event_name ! event_code event) else None) (\<lambda>ev.
              if next_state < 0 \<or> STATE_MAX \<le> next_state
              then Some (''[FSM] Reject: '' @ from @ '' + '' @ ev @ arrow @ ''(illegal)'' @ [CHR 0x0A])
              else map_option (\<lambda>to. ''[FSM] Transition: '' @ from @ '' + '' @ ev @ arrow @ to @ [CHR 0x0A]) (name next_state))))"

section \<open>The machine as a relation\<close>

instantiation system_state :: enum
begin

definition enum_system_state :: "system_state list" where
  "enum_system_state = [STATE_INIT, STATE_RUNNING, STATE_DEGRADED, STATE_RECOVERING, STATE_FAULT]"

definition enum_all_system_state :: "(system_state \<Rightarrow> bool) \<Rightarrow> bool" where
  "enum_all_system_state P \<longleftrightarrow>
     P STATE_INIT \<and> P STATE_RUNNING \<and> P STATE_DEGRADED \<and> P STATE_RECOVERING \<and> P STATE_FAULT"

definition enum_ex_system_state :: "(system_state \<Rightarrow> bool) \<Rightarrow> bool" where
  "enum_ex_system_state P \<longleftrightarrow>
     P STATE_INIT \<or> P STATE_RUNNING \<or> P STATE_DEGRADED \<or> P STATE_RECOVERING \<or> P STATE_FAULT"

instance
proof
  show "(UNIV :: system_state set) = set enum_class.enum"
    by (auto simp: enum_system_state_def intro: system_state.exhaust)
  show "distinct (enum_class.enum :: system_state list)"
    by (simp add: enum_system_state_def)
  show "enum_class.enum_all P \<longleftrightarrow> Ball (UNIV :: system_state set) P" for P
    unfolding ball_UNIV by (metis (full_types) enum_all_system_state_def system_state.exhaust)
  show "enum_class.enum_ex P \<longleftrightarrow> Bex (UNIV :: system_state set) P" for P
    unfolding bex_UNIV by (metis (full_types) enum_ex_system_state_def system_state.exhaust)
qed

end

text \<open>The legal moves, as a relation on states.\<close>

inductive fsm_move :: "system_state \<Rightarrow> fsm_event \<Rightarrow> system_state \<Rightarrow> bool" where
  init_ok: "fsm_move STATE_INIT EVENT_INIT_OK STATE_RUNNING"
| mpu_fail: "fsm_move STATE_RUNNING EVENT_MPU_FAIL STATE_DEGRADED"
| mpu_restored: "fsm_move STATE_DEGRADED EVENT_MPU_RESTORED STATE_RUNNING"
| deadlock: "s = STATE_RUNNING \<or> s = STATE_DEGRADED \<Longrightarrow> fsm_move s EVENT_I2C_DEADLOCK STATE_RECOVERING"
| recovered: "fsm_move STATE_RECOVERING EVENT_BUS_RECOVERED STATE_RUNNING"
| recover_fail: "fsm_move STATE_RECOVERING EVENT_BUS_RECOVER_FAIL STATE_FAULT"
| offline: "s \<noteq> STATE_FAULT \<Longrightarrow> fsm_move s EVENT_ALL_OFFLINE STATE_FAULT"
| watchdog_reset: "fsm_move STATE_FAULT EVENT_WATCHDOG_RESET STATE_INIT"

inductive_cases fsm_move_cases: "fsm_move s e t"

lemma transition_table_move: "transition_table s e = state_code t \<longleftrightarrow> fsm_move s e t"
  by (cases s; cases e; cases t) (auto elim: fsm_move_cases intro: fsm_move.intros)

lemma transition_table_below: "transition_table s e < STATE_MAX"
  by (cases s; cases e) (simp_all add: STATE_MAX_def)

lemma transition_table_illegal: "transition_table s e < 0 \<longleftrightarrow> (\<forall>t. \<not> fsm_move s e t)"
proof
  assume "transition_table s e < 0"
  then show "\<forall>t. \<not> fsm_move s e t"
    using state_code_range(1) by (metis linorder_not_le transition_table_move)
next
  assume no: "\<forall>t. \<not> fsm_move s e t"
  have "code_state (transition_table s e) = None"
    using no by (metis code_state_Some option.exhaust transition_table_move)
  then show "transition_table s e < 0"
    using transition_table_below [of s e] by (simp add: code_state_None)
qed

lemma fsm_move_deterministic: "fsm_move s e t \<Longrightarrow> fsm_move s e u \<Longrightarrow> t = u"
  by (metis state_code_inj transition_table_move)

text \<open>The context holds a proper state.\<close>

definition fsm_ok :: "fsm_context \<Rightarrow> bool" where
  "fsm_ok c \<longleftrightarrow> code_state (current c) \<noteq> None"

definition fsm_state :: "fsm_context \<Rightarrow> system_state" where
  "fsm_state c = (case code_state (current c) of Some s \<Rightarrow> s | None \<Rightarrow> STATE_FAULT)"

lemma fsm_ok_current: "fsm_ok c \<Longrightarrow> current c = state_code (fsm_state c)"
  by (auto simp: fsm_ok_def fsm_state_def code_state_Some)

lemma fsm_state_current [simp]: "fsm_state (c\<lparr>current := state_code s, broadcasts := b\<rparr>) = s"
  by (simp add: fsm_state_def)

lemma fsm_state_set [simp]:
  "fsm_state (c\<lparr>current := state_code s\<rparr>) = s" "fsm_ok (c\<lparr>current := state_code s\<rparr>)"
  by (simp_all add: fsm_state_def fsm_ok_def)

text \<open>The reader answers the state, and \<open>STATE_FAULT\<close> for a corrupted cell.\<close>

lemma fsm_get_state_eq: "fsm_get_state c = state_code (fsm_state c)"
  using code_state_None [of "current c"]
  by (auto simp: fsm_get_state_def fsm_state_def Let_def code_state_Some split: option.splits)

lemma fsm_transition_legal:
  "fsm_ok c \<Longrightarrow> fsm_move (fsm_state c) e t \<Longrightarrow>
    fsm_transition (Some c) e
      = Some (0, Some (c\<lparr>current := state_code t, broadcasts := Suc (broadcasts c)\<rparr>))"
  using state_code_range [of t] transition_table_move [of "fsm_state c" e t]
  by (auto simp: fsm_transition_def fsm_ok_current Let_def)

lemma fsm_transition_illegal:
  "fsm_ok c \<Longrightarrow> \<forall>t. \<not> fsm_move (fsm_state c) e t \<Longrightarrow> fsm_transition (Some c) e = Some (-1, Some c)"
  by (simp add: fsm_transition_def fsm_ok_current Let_def transition_table_illegal)

section \<open>Runs of events\<close>

fun fsm_run :: "fsm_context \<Rightarrow> fsm_event list \<Rightarrow> fsm_context option" where
  "fsm_run c [] = Some c"
| "fsm_run c (e # es) =
     (case fsm_transition (Some c) e of
        Some (_, Some c') \<Rightarrow> fsm_run c' es
      | _ \<Rightarrow> None)"

text \<open>The state after one event, legal or not.\<close>

definition fsm_next :: "system_state \<Rightarrow> fsm_event \<Rightarrow> system_state" where
  "fsm_next s e = (case code_state (transition_table s e) of None \<Rightarrow> s | Some t \<Rightarrow> t)"

lemma fsm_next_move: "fsm_move s e t \<Longrightarrow> fsm_next s e = t"
  by (simp add: fsm_next_def transition_table_move [symmetric])

lemma fsm_next_illegal: "\<forall>t. \<not> fsm_move s e t \<Longrightarrow> fsm_next s e = s"
  by (simp add: fsm_next_def transition_table_illegal [symmetric] code_state_None [THEN iffD2])

lemma fsm_transition_next:
  assumes "fsm_ok c"
  shows "\<exists>ret c'. fsm_transition (Some c) e = Some (ret, Some c') \<and> fsm_ok c'
    \<and> fsm_state c' = fsm_next (fsm_state c) e"
proof (cases "\<exists>t. fsm_move (fsm_state c) e t")
  case True
  then obtain t where "fsm_move (fsm_state c) e t" by blast
  then show ?thesis
    using assms by (simp add: fsm_transition_legal fsm_next_move) (simp add: fsm_ok_def)
next
  case False
  then show ?thesis
    using assms by (simp add: fsm_transition_illegal fsm_next_illegal)
qed

lemma fsm_run_next:
  "fsm_ok c \<Longrightarrow> \<exists>c'. fsm_run c es = Some c' \<and> fsm_ok c' \<and> fsm_state c' = foldl fsm_next (fsm_state c) es"
proof (induction es arbitrary: c)
  case Nil
  then show ?case by simp
next
  case (Cons e es)
  obtain ret c' where "fsm_transition (Some c) e = Some (ret, Some c')" "fsm_ok c'"
      "fsm_state c' = fsm_next (fsm_state c) e"
    using fsm_transition_next [OF Cons.prems, of e] by blast
  then show ?case
    using Cons.IH [of c'] by simp
qed

text \<open>The events the program raises: \<open>main\<close> the first one, the collector thread the others.\<close>

definition app_events :: "fsm_event set" where
  "app_events = {EVENT_INIT_OK, EVENT_MPU_FAIL, EVENT_MPU_RESTORED, EVENT_I2C_DEADLOCK}"

lemma fsm_next_simps:
  "fsm_next STATE_INIT e = (case e of EVENT_INIT_OK \<Rightarrow> STATE_RUNNING | EVENT_ALL_OFFLINE \<Rightarrow> STATE_FAULT | _ \<Rightarrow> STATE_INIT)"
  "fsm_next STATE_RUNNING e = (case e of EVENT_MPU_FAIL \<Rightarrow> STATE_DEGRADED | EVENT_I2C_DEADLOCK \<Rightarrow> STATE_RECOVERING
     | EVENT_ALL_OFFLINE \<Rightarrow> STATE_FAULT | _ \<Rightarrow> STATE_RUNNING)"
  "fsm_next STATE_DEGRADED e = (case e of EVENT_MPU_RESTORED \<Rightarrow> STATE_RUNNING | EVENT_I2C_DEADLOCK \<Rightarrow> STATE_RECOVERING
     | EVENT_ALL_OFFLINE \<Rightarrow> STATE_FAULT | _ \<Rightarrow> STATE_DEGRADED)"
  "fsm_next STATE_RECOVERING e = (case e of EVENT_BUS_RECOVERED \<Rightarrow> STATE_RUNNING
     | EVENT_BUS_RECOVER_FAIL \<Rightarrow> STATE_FAULT | EVENT_ALL_OFFLINE \<Rightarrow> STATE_FAULT | _ \<Rightarrow> STATE_RECOVERING)"
  "fsm_next STATE_FAULT e = (case e of EVENT_WATCHDOG_RESET \<Rightarrow> STATE_INIT | _ \<Rightarrow> STATE_FAULT)"
  by (simp_all add: fsm_next_def code_state_def split: fsm_event.splits)

lemma fsm_next_app:
  assumes "e \<in> app_events"
  shows "fsm_next STATE_RECOVERING e = STATE_RECOVERING"
    and "s \<noteq> STATE_FAULT \<Longrightarrow> fsm_next s e \<noteq> STATE_FAULT"
  using assms by (auto simp: app_events_def fsm_next_simps) (cases s; auto simp: fsm_next_simps)+

lemma fsm_path: "\<exists>es. foldl fsm_next s es = t"
proof -
  have "\<exists>es. foldl fsm_next s es = STATE_INIT"
  proof (cases "s = STATE_FAULT")
    case True
    then show ?thesis
      by (intro exI [of _ "[EVENT_WATCHDOG_RESET]"]) (simp add: fsm_next_simps)
  next
    case False
    then have "fsm_next s EVENT_ALL_OFFLINE = STATE_FAULT"
      by (intro fsm_next_move fsm_move.offline)
    then show ?thesis
      by (intro exI [of _ "[EVENT_ALL_OFFLINE, EVENT_WATCHDOG_RESET]"]) (simp add: fsm_next_simps)
  qed
  moreover have "\<exists>es. foldl fsm_next STATE_INIT es = t"
  proof (cases t)
    case STATE_INIT
    then show ?thesis by (intro exI [of _ "[]"]) simp
  next
    case STATE_RUNNING
    then show ?thesis by (intro exI [of _ "[EVENT_INIT_OK]"]) (simp add: fsm_next_simps)
  next
    case STATE_DEGRADED
    then show ?thesis by (intro exI [of _ "[EVENT_INIT_OK, EVENT_MPU_FAIL]"]) (simp add: fsm_next_simps)
  next
    case STATE_RECOVERING
    then show ?thesis by (intro exI [of _ "[EVENT_INIT_OK, EVENT_I2C_DEADLOCK]"]) (simp add: fsm_next_simps)
  next
    case STATE_FAULT
    then show ?thesis by (intro exI [of _ "[EVENT_ALL_OFFLINE]"]) (simp add: fsm_next_simps)
  qed
  ultimately show ?thesis
    by (metis foldl_append)
qed

section \<open>The wait loop\<close>

lemma wait_loop_forever:
  "timeout_ms < 0 \<Longrightarrow>
    wait_loop target timeout_ms ret cur ws
      = (if target \<in> set (cur # map wk_current ws) then Some (ret, []) else None)"
  by (induction target timeout_ms ret cur ws rule: wait_loop.induct) auto

text \<open>The state the thread sees in round \<open>k\<close>, and the result of the wait before it.\<close>

lemma wait_loop_timed:
  "0 \<le> timeout_ms \<Longrightarrow> wait_loop target timeout_ms ret cur ws = Some (r, ds) \<Longrightarrow>
    length ds \<le> length ws
    \<and> ds = map (\<lambda>w. wait_deadline (wk_now w) timeout_ms) (take (length ds) ws)
    \<and> (r = -1 \<and> ds \<noteq> [] \<and> wk_rc (ws ! (length ds - 1)) = ETIMEDOUT
       \<or> (cur # map wk_current ws) ! length ds = target
         \<and> r = (if ds = [] then ret else wk_rc (ws ! (length ds - 1))))"
proof (induction target timeout_ms ret cur ws arbitrary: r ds rule: wait_loop.induct)
  case (1 target timeout_ms ret cur)
  then show ?case by (auto split: if_splits)
next
  case (2 target timeout_ms ret cur w ws)
  consider (here) "cur = target" | (timeout) "cur \<noteq> target" "wk_rc w = ETIMEDOUT"
    | (again) "cur \<noteq> target" "wk_rc w \<noteq> ETIMEDOUT" by blast
  then show ?case
  proof cases
    case again
    then obtain ds' where ds: "ds = wait_deadline (wk_now w) timeout_ms # ds'"
      and rest: "wait_loop target timeout_ms (wk_rc w) (wk_current w) ws = Some (r, ds')"
      using "2.prems" by (auto simp: Let_def)
    then show ?thesis
      using "2.IH"(2) [OF again(1) _ refl refl again(2) "2.prems"(1) rest] "2.prems"(1)
      by (cases ds') auto
  qed (use 2 in \<open>auto simp: Let_def\<close>)
qed

section \<open>The names in the log\<close>

text \<open>Neither table of names is read outside its entries, whatever the event.\<close>

lemma fsm_transition_line_defined:
  "fsm_transition_line c e \<noteq> None \<longleftrightarrow> code_state (current c) \<noteq> None"
proof -
  have "event_code e < length event_name"
    by (cases e) (simp_all add: event_name_def)
  moreover have "transition_table s e < int (length state_name)" for s
    using transition_table_below [of s e] by (simp add: STATE_MAX_def state_name_def)
  moreover have "0 \<le> current c \<and> current c < int (length state_name)" if "code_state (current c) = Some s" for s
    using that by (auto simp: code_state_def state_name_def split: if_splits)
  ultimately show ?thesis
    by (auto simp: fsm_transition_line_def Let_def split: option.splits)
qed

lemma fsm_transition_line_example:
  "fsm_transition_line (zero_fsm_context\<lparr>current := 1\<rparr>) EVENT_MPU_FAIL
    = Some (''[FSM] Transition: RUNNING + MPU_FAIL '' @ [CHR 0xE2, CHR 0x86, CHR 0x92] @ '' DEGRADED'' @ [CHR 0x0A])"
  by (simp add: fsm_transition_line_def code_state_def state_name_def event_name_def STATE_MAX_def)

section \<open>Properties\<close>

text \<open>
  C15. On a proper context a transition never leaves the table, answers 0 exactly for the legal
  moves of the machine, which it makes and broadcasts, and answers \<open>-1\<close> and leaves the context
  alone for every other event.
\<close>

theorem fsm_transition_exact:
  assumes "fsm_ok c"
  shows "\<exists>ret c'. fsm_transition (Some c) e = Some (ret, Some c') \<and> fsm_ok c'
    \<and> (if \<exists>t. fsm_move (fsm_state c) e t
       then ret = 0 \<and> fsm_move (fsm_state c) e (fsm_state c') \<and> broadcasts c' = broadcasts c + 1
       else ret = -1 \<and> c' = c)"
proof (cases "\<exists>t. fsm_move (fsm_state c) e t")
  case True
  then obtain t where t: "fsm_move (fsm_state c) e t" by blast
  then show ?thesis
    using fsm_transition_legal [OF assms t] by (auto simp: fsm_ok_def)
next
  case False
  then show ?thesis
    using fsm_transition_illegal [OF assms] assms by auto
qed

theorem fsm_transition_exact_witness:
  "\<exists>c'. fsm_transition (snd (fsm_init True True (Some zero_fsm_context))) EVENT_INIT_OK = Some (0, Some c')
     \<and> fsm_state c' = STATE_RUNNING"
proof -
  let ?c = "zero_fsm_context\<lparr>current := 0\<rparr>"
  have ok: "fsm_ok ?c" and st: "fsm_state ?c = STATE_INIT"
    by (simp_all add: fsm_ok_def fsm_state_def code_state_def)
  have move: "\<exists>t. fsm_move (fsm_state ?c) EVENT_INIT_OK t"
    unfolding st by (blast intro: fsm_move.init_ok)
  obtain ret c' where c': "fsm_transition (Some ?c) EVENT_INIT_OK = Some (ret, Some c')" "ret = 0"
      "fsm_move STATE_INIT EVENT_INIT_OK (fsm_state c')"
    using fsm_transition_exact [OF ok, of EVENT_INIT_OK] move unfolding st by auto
  moreover have "snd (fsm_init True True (Some zero_fsm_context)) = Some ?c"
    by (simp add: fsm_init_def zero_fsm_context_def)
  moreover have "fsm_state c' = STATE_RUNNING"
    using c'(3) fsm_move.init_ok by (rule fsm_move_deterministic)
  ultimately show ?thesis by auto
qed

text \<open>
  The machine has no dead end: from every proper context some sequence of events leads to
  every one of the five states.
\<close>

theorem fsm_every_state_reachable:
  assumes "fsm_ok c"
  shows "\<exists>es c'. fsm_run c es = Some c' \<and> fsm_state c' = t"
  using fsm_path [of "fsm_state c" t] fsm_run_next [OF assms] by blast

theorem fsm_every_state_reachable_witness:
  "\<exists>es c'. fsm_run (zero_fsm_context\<lparr>current := state_code STATE_FAULT\<rparr>) es = Some c'
     \<and> fsm_state c' = STATE_RECOVERING"
  by (rule fsm_every_state_reachable) (rule fsm_state_set)

text \<open>
  With the events the program raises, and no others, \<open>STATE_RECOVERING\<close> is never left and
  \<open>STATE_FAULT\<close> is never entered: nothing reports a recovered bus, a failed recovery, or all
  sensors offline.
\<close>

theorem fsm_app_events_trap:
  assumes "fsm_ok c" and "set es \<subseteq> app_events" and "fsm_run c es = Some c'"
  shows "(fsm_state c = STATE_RECOVERING \<longrightarrow> fsm_state c' = STATE_RECOVERING)
    \<and> (fsm_state c \<noteq> STATE_FAULT \<longrightarrow> fsm_state c' \<noteq> STATE_FAULT)"
proof -
  have "fsm_state c' = foldl fsm_next (fsm_state c) es"
    using fsm_run_next [OF assms(1), of es] assms(3) by simp
  moreover have "foldl fsm_next STATE_RECOVERING es = STATE_RECOVERING"
    using assms(2) by (induction es) (auto simp: fsm_next_app)
  moreover have "s \<noteq> STATE_FAULT \<Longrightarrow> foldl fsm_next s es \<noteq> STATE_FAULT" for s
    using assms(2) by (induction es arbitrary: s) (auto simp: fsm_next_app)
  ultimately show ?thesis by metis
qed

theorem fsm_app_events_trap_witness:
  "\<exists>c'. fsm_run (zero_fsm_context\<lparr>current := state_code STATE_RECOVERING\<rparr>)
       [EVENT_MPU_RESTORED, EVENT_MPU_FAIL, EVENT_I2C_DEADLOCK] = Some c' \<and> fsm_state c' = STATE_RECOVERING"
proof -
  let ?c = "zero_fsm_context\<lparr>current := state_code STATE_RECOVERING\<rparr>"
  let ?es = "[EVENT_MPU_RESTORED, EVENT_MPU_FAIL, EVENT_I2C_DEADLOCK]"
  have ok: "fsm_ok ?c" by (rule fsm_state_set)
  moreover have "set ?es \<subseteq> app_events" by (simp add: app_events_def)
  moreover obtain c' where "fsm_run ?c ?es = Some c'"
    using fsm_run_next [OF ok] by blast
  moreover have "fsm_state ?c = STATE_RECOVERING" by (rule fsm_state_set)
  ultimately show ?thesis
    using fsm_app_events_trap [of ?c ?es c'] by blast
qed

text \<open>
  Whatever the memory cell holds, \<open>fsm_get_state\<close> answers one of the five states (a corrupted
  cell reads as \<open>STATE_FAULT\<close>) and \<open>fsm_get_state_name\<close> stays inside \<open>state_name\<close>.
\<close>

theorem fsm_get_state_total:
  "fsm_get_state c = state_code (fsm_state c)
    \<and> fsm_get_state_name c = Some (state_name ! nat (state_code (fsm_state c)))
    \<and> nat (state_code (fsm_state c)) < length state_name
    \<and> (fsm_ok c \<or> fsm_get_state_name c = Some ''FAULT'')"
proof -
  have "fsm_ok c \<or> fsm_state c = STATE_FAULT"
    by (auto simp: fsm_ok_def fsm_state_def split: option.splits)
  then show ?thesis
    by (cases "fsm_state c") (auto simp: fsm_get_state_name_def fsm_get_state_eq state_name_def)
qed

text \<open>
  Without a time limit (\<open>timeout_ms < 0\<close>) the wait returns as soon as the target state is
  seen, with 0 and without a deadline, and it blocks as long as it is not.
\<close>

theorem fsm_wait_unlimited:
  assumes "timeout_ms < 0"
  shows "fsm_wait_for_state (Some c) target timeout_ms ws
    = (if state_code target \<in> set (current c # map wk_current ws) then Some (0, []) else None)"
  using wait_loop_forever [OF assms] by (simp add: fsm_wait_for_state_def)

theorem fsm_wait_unlimited_witness:
  "fsm_wait_for_state (Some zero_fsm_context) STATE_RUNNING (-1)
     [\<lparr>wk_now = \<lparr>tv_sec = 0, tv_nsec = 0\<rparr>, wk_rc = 0, wk_current = 0\<rparr>,
      \<lparr>wk_now = \<lparr>tv_sec = 9, tv_nsec = 0\<rparr>, wk_rc = 0, wk_current = 1\<rparr>] = Some (0, [])"
  by (subst fsm_wait_unlimited) simp_all

text \<open>
  With a time limit the wait returns \<open>-1\<close> when a wait on the condition variable timed out,
  otherwise in the target state with the result of the last wait (0 if there was none). Each
  round computes a new deadline from the clock of that round, so a wake-up in another state
  starts the whole time limit again.
\<close>

theorem fsm_wait_limited:
  assumes "0 \<le> timeout_ms"
    and "fsm_wait_for_state (Some c) target timeout_ms ws = Some (r, ds)"
  shows "ds = map (\<lambda>w. wait_deadline (wk_now w) timeout_ms) (take (length ds) ws)
    \<and> (r = -1 \<and> ds \<noteq> [] \<and> wk_rc (ws ! (length ds - 1)) = ETIMEDOUT
       \<or> (current c # map wk_current ws) ! length ds = state_code target
         \<and> r = (if ds = [] then 0 else wk_rc (ws ! (length ds - 1))))"
  using wait_loop_timed [OF assms(1)] assms(2) by (simp add: fsm_wait_for_state_def)

theorem fsm_wait_limited_witness:
  "let ws = [\<lparr>wk_now = \<lparr>tv_sec = 5, tv_nsec = 0\<rparr>, wk_rc = 0, wk_current = 2\<rparr>,
             \<lparr>wk_now = \<lparr>tv_sec = 6, tv_nsec = 0\<rparr>, wk_rc = 0, wk_current = 1\<rparr>];
       ds = [\<lparr>tv_sec = 7, tv_nsec = 0\<rparr>, \<lparr>tv_sec = 8, tv_nsec = 0\<rparr>]
   in fsm_wait_for_state (Some zero_fsm_context) STATE_RUNNING 2000 ws = Some (0, ds)
      \<and> ds = map (\<lambda>w. wait_deadline (wk_now w) 2000) ws"
proof -
  let ?ws = "[\<lparr>wk_now = \<lparr>tv_sec = 5, tv_nsec = 0\<rparr>, wk_rc = 0, wk_current = 2\<rparr>,
             \<lparr>wk_now = \<lparr>tv_sec = 6, tv_nsec = 0\<rparr>, wk_rc = 0, wk_current = 1\<rparr>]"
  let ?ds = "[\<lparr>tv_sec = 7, tv_nsec = 0\<rparr>, \<lparr>tv_sec = 8, tv_nsec = 0\<rparr>]"
  have "fsm_wait_for_state (Some zero_fsm_context) STATE_RUNNING 2000 ?ws = Some (0, ?ds)"
    by (simp add: fsm_wait_for_state_def zero_fsm_context_def wait_deadline_def ETIMEDOUT_def
        signed_divide_int_def signed_modulo_int_def)
  then show ?thesis
    using fsm_wait_limited [of 2000 zero_fsm_context STATE_RUNNING ?ws 0 ?ds] by simp
qed

text \<open>
  The deadline is \<open>timeout_ms\<close> milliseconds after the clock, normalised, and the 32-bit
  \<open>long\<close> arithmetic on nanoseconds on the way does not overflow.
\<close>

theorem wait_deadline_exact:
  assumes "0 \<le> timeout_ms" and "0 \<le> tv_nsec now" and "tv_nsec now < 1000000000"
  shows "let d = wait_deadline now timeout_ms in
    0 \<le> tv_nsec d \<and> tv_nsec d < 1000000000
    \<and> tv_sec d * 1000000000 + tv_nsec d = tv_sec now * 1000000000 + tv_nsec now + timeout_ms * 1000000
    \<and> tv_nsec now + (timeout_ms smod 1000) * 1000000 \<le> int_max"
proof -
  have q: "timeout_ms sdiv 1000 = timeout_ms div 1000" "timeout_ms smod 1000 = timeout_ms mod 1000"
    using assms(1) by (auto simp: signed_divide_int_def signed_modulo_int_def sgn_if)
  have m: "0 \<le> timeout_ms mod 1000" "timeout_ms mod 1000 < 1000"
    and split: "timeout_ms = timeout_ms div 1000 * 1000 + timeout_ms mod 1000"
    by simp_all
  define k j where "k = timeout_ms div 1000" and "j = timeout_ms mod 1000"
  show ?thesis
    using m split assms(2,3) unfolding q wait_deadline_def Let_def k_def [symmetric] j_def [symmetric]
    by auto
qed

theorem wait_deadline_exact_witness:
  "wait_deadline \<lparr>tv_sec = 10, tv_nsec = 900000000\<rparr> 1250 = \<lparr>tv_sec = 12, tv_nsec = 150000000\<rparr>
   \<and> (12 :: int) * 1000000000 + 150000000 = 10 * 1000000000 + 900000000 + 1250 * 1000000"
proof -
  have "wait_deadline \<lparr>tv_sec = 10, tv_nsec = 900000000\<rparr> 1250 = \<lparr>tv_sec = 12, tv_nsec = 150000000\<rparr>"
    by (simp add: wait_deadline_def signed_divide_int_def signed_modulo_int_def)
  then show ?thesis
    using wait_deadline_exact [of 1250 "\<lparr>tv_sec = 10, tv_nsec = 900000000\<rparr>"] by simp
qed

end
