(* ===== verification/Metrics.thy ===== *)
theory Metrics
  imports Edge_Prelude
begin

text \<open>
  The latency window and its percentiles (\<open>app/core/metrics.c\<close>): a circular array of the last
  1024 latencies, written by the collector thread and sorted by the web thread.
\<close>

section \<open>State\<close>

definition LATENCY_WINDOW_SIZE :: nat where "LATENCY_WINDOW_SIZE = 1024"

text \<open>
  The latencies are plain \<open>int\<close> values no arithmetic is done on; the index and the count are
  \<open>atomic_int\<close>s that wrap. The gauges are written by the HAL and the collector.
\<close>

record metrics =
  g_latency_window :: "int list"
  g_latency_write_idx :: i32
  g_latency_count :: i32
  g_i2c_retry_total :: i32
  g_temperature_milli :: i32
  g_humidity_milli :: i32
  g_system_state :: int

definition metrics_start :: metrics where
  "metrics_start =
     \<lparr>g_latency_window = replicate LATENCY_WINDOW_SIZE 0, g_latency_write_idx = 0, g_latency_count = 0,
      g_i2c_retry_total = 0, g_temperature_milli = 0, g_humidity_milli = 0, g_system_state = 1\<rparr>"

section \<open>Recording\<close>

text \<open>C's \<open>%\<close> keeps the sign of the dividend: a negative index is a store outside the array.\<close>

definition record_latency :: "metrics \<Rightarrow> int \<Rightarrow> metrics option" where
  "record_latency m latency_us =
     (let idx = sint (g_latency_write_idx m) smod int LATENCY_WINDOW_SIZE;
          m1 = m\<lparr>g_latency_write_idx := g_latency_write_idx m + 1\<rparr> in
      if idx < 0 \<or> int (length (g_latency_window m)) \<le> idx then None
      else let m2 = m1\<lparr>g_latency_window := (g_latency_window m1)[nat idx := latency_us]\<rparr>;
               old_count = g_latency_count m2;
               m3 = m2\<lparr>g_latency_count := old_count + 1\<rparr> in
        if int LATENCY_WINDOW_SIZE \<le> sint old_count
        then Some (m3\<lparr>g_latency_count := of_nat LATENCY_WINDOW_SIZE\<rparr>)
        else Some m3)"

fun record_all :: "metrics \<Rightarrow> int list \<Rightarrow> metrics option" where
  "record_all m [] = Some m"
| "record_all m (x # xs) =
     (case record_latency m x of None \<Rightarrow> None | Some m' \<Rightarrow> record_all m' xs)"

section \<open>Percentiles\<close>

definition swap :: "int list \<Rightarrow> nat \<Rightarrow> nat \<Rightarrow> int list" where
  "swap local i j = local[i := local ! j, j := local ! i]"

text \<open>The inner loop over \<open>j\<close> and the outer loop over \<open>i\<close>.\<close>

function sort_inner :: "nat \<Rightarrow> nat \<Rightarrow> nat \<Rightarrow> int list \<Rightarrow> int list" where
  "sort_inner cnt i j local =
     (if j < cnt
      then sort_inner cnt i (Suc j) (if local ! j < local ! i then swap local i j else local)
      else local)"
  by pat_completeness auto
termination
  by (relation "measure (\<lambda>(cnt, i, j, local). cnt - j)") auto

function sort_outer :: "nat \<Rightarrow> nat \<Rightarrow> int list \<Rightarrow> int list" where
  "sort_outer cnt i local =
     (if i < cnt - 1 then sort_outer cnt (Suc i) (sort_inner cnt i (Suc i) local) else local)"
  by pat_completeness auto
termination
  by (relation "measure (\<lambda>(cnt, i, local). cnt - i)") auto

declare sort_inner.simps [simp del] sort_outer.simps [simp del]

text \<open>The two percentiles; a negative count would read an element that was never stored.\<close>

definition calc_latency_percentile :: "metrics \<Rightarrow> (int \<times> int) option" where
  "calc_latency_percentile m =
     (let count0 = sint (g_latency_count m);
          count = (if int LATENCY_WINDOW_SIZE < count0 then int LATENCY_WINDOW_SIZE else count0) in
      if count = 0 then Some (0, 0)
      else if count < 0 \<or> int (length (g_latency_window m)) < count then None
      else let n = nat count;
               local = sort_outer n 0 (take n (g_latency_window m)) in
        Some (local ! (n * 50 div 100), local ! (n * 99 div 100)))"

section \<open>The loops sort\<close>

lemma length_swap [simp]: "length (swap l i j) = length l"
  by (simp add: swap_def)

lemma mset_swap_eq: "i < length l \<Longrightarrow> j < length l \<Longrightarrow> mset (swap l i j) = mset l"
  by (simp add: swap_def mset_swap)

lemma sort_inner_spec:
  assumes "i < j" and "j \<le> length l" and "\<And>m. i < m \<Longrightarrow> m < j \<Longrightarrow> l ! i \<le> l ! m"
  shows "mset (sort_inner (length l) i j l) = mset l
    \<and> length (sort_inner (length l) i j l) = length l
    \<and> (\<forall>k < i. sort_inner (length l) i j l ! k = l ! k)
    \<and> (\<forall>m. i < m \<longrightarrow> m < length l \<longrightarrow> sort_inner (length l) i j l ! i \<le> sort_inner (length l) i j l ! m)"
  using assms
proof (induction "length l - j" arbitrary: j l)
  case 0
  then show ?case by (simp add: sort_inner.simps [of j i j])
next
  case (Suc d)
  define l' where "l' = (if l ! j < l ! i then swap l i j else l)"
  have j: "j < length l" and i: "i < length l"
    using Suc.hyps(2) Suc.prems by auto
  have len: "length l' = length l" and mset: "mset l' = mset l"
    using i j by (auto simp: l'_def mset_swap_eq)
  have below: "l' ! i \<le> l' ! m" if "i < m" "m < Suc j" for m
  proof (cases "l ! j < l ! i")
    case True
    then show ?thesis
      using that Suc.prems(1) Suc.prems(3) [of m] i j
      by (cases "m = j") (auto simp: l'_def swap_def nth_list_update)
  next
    case False
    then show ?thesis
      using that Suc.prems(3) [of m] by (cases "m = j") (auto simp: l'_def)
  qed
  have same: "l' ! k = l ! k" if "k < i" for k
    using that Suc.prems(1) by (auto simp: l'_def swap_def)
  have "sort_inner (length l) i j l = sort_inner (length l') i (Suc j) l'"
    using j by (simp add: sort_inner.simps [of "length l" i j] l'_def)
  moreover have "d = length l' - Suc j"
    using Suc.hyps(2) len by simp
  ultimately show ?case
    using Suc.hyps(1) [of l' "Suc j"] below Suc.prems(1) j len mset same by auto
qed

lemma sort_outer_spec:
  assumes "i \<le> length l" and "sorted (take i l)"
    and "\<And>k m. k < i \<Longrightarrow> i \<le> m \<Longrightarrow> m < length l \<Longrightarrow> l ! k \<le> l ! m"
  shows "sorted (sort_outer (length l) i l) \<and> mset (sort_outer (length l) i l) = mset l"
  using assms
proof (induction "length l - i" arbitrary: i l)
  case 0
  then show ?case by (auto simp: sort_outer.simps [of i i])
next
  case (Suc d)
  have i: "i < length l" using Suc.hyps(2) by simp
  show ?case
  proof (cases "i < length l - 1")
    case False
    then have last: "length l = Suc i" using i by simp
    then have "l = take i l @ [l ! i]"
      by (metis take_Suc_conv_app_nth lessI order_refl take_all)
    moreover have "\<forall>x \<in> set (take i l). x \<le> l ! i"
      using Suc.prems(3) last by (auto simp: in_set_conv_nth)
    ultimately have "sorted l"
      using Suc.prems(2) by (metis sorted_wrt_append sorted_wrt1 empty_iff list.set(1) set_ConsD)
    then show ?thesis
      using False by (simp add: sort_outer.simps [of "length l"])
  next
    case True
    define l' where "l' = sort_inner (length l) i (Suc i) l"
    have inner: "mset l' = mset l" "length l' = length l" "\<And>k. k < i \<Longrightarrow> l' ! k = l ! k"
        "\<And>m. i < m \<Longrightarrow> m < length l \<Longrightarrow> l' ! i \<le> l' ! m"
      using sort_inner_spec [of i "Suc i" l] i unfolding l'_def by auto
    have pre: "take i l' = take i l"
      using inner(2,3) i by (intro nth_equalityI) auto
    then have "mset (drop i l') = mset (drop i l)"
      using inner(1) by (metis add_left_cancel append_take_drop_id mset_append)
    then have rest: "set (drop i l') = set (drop i l)"
      by (metis set_mset_mset)
    have low: "l' ! k \<le> l' ! m" if "k < i" "i \<le> m" "m < length l" for k m
    proof -
      have "l' ! m \<in> set (drop i l)"
        using that inner(2) unfolding rest [symmetric] by (auto simp: set_drop_conv)
      then obtain p where "i \<le> p" "p < length l" "l' ! m = l ! p"
        by (auto simp: set_drop_conv)
      then show ?thesis
        using Suc.prems(3) that inner(3) by auto
    qed
    have "x \<le> l' ! i" if x: "x \<in> set (take i l')" for x
    proof -
      obtain k where "k < i" "l' ! k = x"
        using x i inner(2) by (auto simp: in_set_conv_nth)
      then show ?thesis
        using low [of k i] i by blast
    qed
    then have "sorted (take (Suc i) l')"
      using Suc.prems(2) pre i inner(2) by (simp add: take_Suc_conv_app_nth sorted_append)
    moreover have "sort_outer (length l) i l = sort_outer (length l') (Suc i) l'"
      using True by (simp add: sort_outer.simps [of "length l" i] l'_def inner(2) [unfolded l'_def])
    moreover have "l' ! k \<le> l' ! m" if "k < Suc i" "Suc i \<le> m" "m < length l'" for k m
      using that low inner(2,4) by (cases "k = i") auto
    ultimately show ?thesis
      using Suc.hyps(1) [of l' "Suc i"] Suc.hyps(2) i inner(1,2) by auto
  qed
qed

lemma sort_outer_sort: "sort_outer (length l) 0 l = sort l"
  using sort_outer_spec [of 0 l] by (metis le0 not_less_zero properties_for_sort sorted_wrt.simps(1) take0)

section \<open>The window holds the latest latencies\<close>

text \<open>
  What \<open>n\<close> recordings leave: the index has counted them, the count has stopped at 1024,
  every one of the last 1024 latencies is at its place, and the places after them are still 0.
\<close>

definition window_of :: "int list \<Rightarrow> metrics \<Rightarrow> bool" where
  "window_of xs m \<longleftrightarrow>
     length (g_latency_window m) = LATENCY_WINDOW_SIZE
     \<and> g_latency_write_idx m = of_nat (length xs)
     \<and> g_latency_count m = of_nat (min (length xs) LATENCY_WINDOW_SIZE)
     \<and> (\<forall>k < length xs. length xs \<le> k + LATENCY_WINDOW_SIZE
          \<longrightarrow> g_latency_window m ! (k mod LATENCY_WINDOW_SIZE) = xs ! k)
     \<and> (\<forall>k < LATENCY_WINDOW_SIZE. length xs \<le> k \<longrightarrow> g_latency_window m ! k = 0)"

lemma window_of_start: "window_of [] metrics_start"
  by (simp add: window_of_def metrics_start_def LATENCY_WINDOW_SIZE_def)

lemma sint_of_nat_small: "n < 2147483648 \<Longrightarrow> sint (of_nat n :: i32) = int n"
  by (simp add: signed_of_nat signed_take_bit_int_eq_self)

lemma sint_of_nat_count: "sint (of_nat (min n LATENCY_WINDOW_SIZE) :: i32) = int (min n LATENCY_WINDOW_SIZE)"
  by (rule sint_of_nat_small) (simp add: LATENCY_WINDOW_SIZE_def)

lemma record_latency_at:
  assumes "window_of xs m" and "0 \<le> sint (g_latency_write_idx m) smod 1024"
    and "nat (sint (g_latency_write_idx m) smod 1024) = length xs mod 1024"
  shows "\<exists>m'. record_latency m x = Some m' \<and> window_of (xs @ [x]) m'"
proof -
  let ?n = "length xs"
  let ?win = "(g_latency_window m)[?n mod 1024 := x]"
  have len: "length (g_latency_window m) = 1024"
    using assms(1) by (simp add: window_of_def LATENCY_WINDOW_SIZE_def)
  have idx: "sint (g_latency_write_idx m) smod 1024 = int (?n mod 1024)"
    using assms(2,3) by (metis int_nat_eq)
  have cnt: "sint (g_latency_count m) = int (min ?n 1024)"
    using assms(1) sint_of_nat_count by (simp add: window_of_def LATENCY_WINDOW_SIZE_def)
  define m' where "m' = m\<lparr>g_latency_write_idx := g_latency_write_idx m + 1, g_latency_window := ?win,
      g_latency_count := of_nat (min (Suc ?n) 1024)\<rparr>"
  have cell: "g_latency_count m = of_nat (min ?n 1024)"
    using assms(1) by (simp add: window_of_def LATENCY_WINDOW_SIZE_def)
  have recorded: "record_latency m x = Some m'"
  proof (cases "?n < 1024")
    case True
    then have "min ?n 1024 = ?n" "min (Suc ?n) 1024 = Suc ?n" by simp_all
    then show ?thesis
      using True cnt cell idx len
      by (simp add: record_latency_def Let_def m'_def LATENCY_WINDOW_SIZE_def)
  next
    case False
    then have "min ?n 1024 = 1024" "min (Suc ?n) 1024 = 1024" by simp_all
    then show ?thesis
      using cnt idx len by (simp add: record_latency_def Let_def m'_def LATENCY_WINDOW_SIZE_def)
  qed
  have "?win ! (k mod 1024) = (xs @ [x]) ! k" if "k < Suc ?n" "Suc ?n \<le> k + 1024" for k
  proof (cases "k = ?n")
    case True
    then show ?thesis using len by simp
  next
    case False
    have "k mod 1024 \<noteq> ?n mod 1024"
      using mod_add_left_inj [of 0 1024 "?n - k" k] that False by simp
    moreover have "k < ?n" "?n \<le> k + 1024"
      using that False by simp_all
    then have "g_latency_window m ! (k mod 1024) = xs ! k"
      using assms(1) unfolding window_of_def LATENCY_WINDOW_SIZE_def by blast
    ultimately show ?thesis
      using \<open>k < ?n\<close> by (simp add: nth_append)
  qed
  moreover have "?win ! k = 0" if "k < 1024" "Suc ?n \<le> k" for k
    using assms(1) that by (simp add: window_of_def LATENCY_WINDOW_SIZE_def)
  ultimately have "window_of (xs @ [x]) m'"
    using assms(1) len by (simp add: window_of_def m'_def LATENCY_WINDOW_SIZE_def)
  with recorded show ?thesis by blast
qed

lemma window_elements:
  assumes "window_of xs m"
  shows "set (g_latency_window m) \<subseteq> insert 0 (set xs)"
proof
  fix l assume "l \<in> set (g_latency_window m)"
  then obtain k where k: "k < 1024" "l = g_latency_window m ! k"
    using assms by (auto simp: in_set_conv_nth window_of_def LATENCY_WINDOW_SIZE_def)
  show "l \<in> insert 0 (set xs)"
  proof (cases "length xs \<le> k")
    case True
    then show ?thesis
      using assms k by (simp add: window_of_def LATENCY_WINDOW_SIZE_def)
  next
    case False
    define j where "j = k + 1024 * ((length xs - 1 - k) div 1024)"
    have j: "j < length xs" "length xs \<le> j + 1024" "j mod 1024 = k"
      using False k(1) by (auto simp: j_def)
    then have "l = xs ! j"
      using assms k(2) unfolding window_of_def LATENCY_WINDOW_SIZE_def by metis
    then show ?thesis
      using j(1) by simp
  qed
qed

lemma record_latency_window:
  assumes "window_of xs m" and "length xs \<le> 2147483648"
  shows "\<exists>m'. record_latency m x = Some m' \<and> window_of (xs @ [x]) m'"
proof (cases "length xs = 2147483648")
  case True
  have "sint (g_latency_write_idx m) = - 2147483648"
    using assms(1) True by (simp add: window_of_def)
  then show ?thesis
    using True by (intro record_latency_at [OF assms(1)]) (simp_all add: signed_modulo_int_def)
next
  case False
  then have "sint (g_latency_write_idx m) = int (length xs)"
    using assms sint_of_nat_small by (simp add: window_of_def)
  moreover have "int (length xs) smod 1024 = int (length xs mod 1024)"
    by (simp add: signed_modulo_int_eq_modulo_int zmod_int)
  ultimately show ?thesis
    using assms(1) by (intro record_latency_at) simp_all
qed

text \<open>The index has become negative and not a multiple of 1024.\<close>

lemma record_latency_overflow:
  assumes "window_of xs m" and "length xs = 2147483649"
  shows "record_latency m x = None"
proof -
  have "sint (g_latency_write_idx m) = - 2147483647"
    using assms by (simp add: window_of_def)
  then show ?thesis
    by (simp add: record_latency_def Let_def LATENCY_WINDOW_SIZE_def signed_modulo_int_def)
qed

lemma record_all_append:
  "record_all m (xs @ ys) = (case record_all m xs of None \<Rightarrow> None | Some m' \<Rightarrow> record_all m' ys)"
  by (induction xs arbitrary: m) (auto split: option.splits)

lemma record_all_window:
  "length xs \<le> 2147483649 \<Longrightarrow> \<exists>m. record_all metrics_start xs = Some m \<and> window_of xs m"
proof (induction xs rule: rev_induct)
  case Nil
  then show ?case by (simp add: window_of_start)
next
  case (snoc x xs)
  then obtain m where "record_all metrics_start xs = Some m" "window_of xs m"
    by auto
  then show ?case
    using record_latency_window [of xs m x] snoc.prems by (auto simp: record_all_append)
qed

lemma window_latest:
  assumes "window_of xs m"
  shows "mset (take (min (length xs) 1024) (g_latency_window m)) = mset (drop (length xs - 1024) xs)"
proof (cases "length xs < 1024")
  case True
  then have "take (length xs) (g_latency_window m) = xs"
    using assms by (intro nth_equalityI) (auto simp: window_of_def LATENCY_WINDOW_SIZE_def)
  then show ?thesis
    using True by simp
next
  case False
  let ?w = "g_latency_window m" and ?n = "length xs"
  have len: "length ?w = 1024"
    using assms by (simp add: window_of_def LATENCY_WINDOW_SIZE_def)
  have "drop (?n - 1024) xs = rotate (?n - 1024) ?w"
  proof (rule nth_equalityI)
    fix i assume "i < length (drop (?n - 1024) xs)"
    then have i: "i < 1024" "?n - 1024 + i < ?n"
      using False by auto
    then have "?w ! ((?n - 1024 + i) mod 1024) = xs ! (?n - 1024 + i)"
      using assms by (auto simp: window_of_def LATENCY_WINDOW_SIZE_def)
    then show "drop (?n - 1024) xs ! i = rotate (?n - 1024) ?w ! i"
      using i len by (simp add: nth_rotate)
  qed (use False len in simp)
  then show ?thesis
    using False len by simp
qed

lemma calc_latency_percentile_window:
  assumes "window_of xs m" and "xs \<noteq> []"
  shows "calc_latency_percentile m =
    (let s = sort (drop (length xs - 1024) xs); n = min (length xs) 1024
     in Some (s ! (n * 50 div 100), s ! (n * 99 div 100)))"
proof -
  let ?n = "min (length xs) 1024" and ?w = "g_latency_window m"
  have len: "length ?w = 1024"
    and cnt: "sint (g_latency_count m) = int ?n"
    using assms(1) sint_of_nat_count [of "length xs"] by (simp_all add: window_of_def LATENCY_WINDOW_SIZE_def)
  have pos: "0 < ?n"
    using assms(2) by simp
  have general: "calc_latency_percentile m =
      (let l = sort_outer n 0 (take n ?w) in Some (l ! (n * 50 div 100), l ! (n * 99 div 100)))"
    if "sint (g_latency_count m) = int n" "0 < n" "n \<le> 1024" for n
    using that len by (simp add: calc_latency_percentile_def LATENCY_WINDOW_SIZE_def Let_def)
  have "calc_latency_percentile m =
      (let l = sort_outer ?n 0 (take ?n ?w) in Some (l ! (?n * 50 div 100), l ! (?n * 99 div 100)))"
    using general [OF cnt pos] by simp
  moreover have "sort_outer ?n 0 (take ?n ?w) = sort (take ?n ?w)"
    using sort_outer_sort [of "take ?n ?w"] len by simp
  moreover have "sort (take ?n ?w) = sort (drop (length xs - 1024) xs)"
    using window_latest [OF assms(1)] by (intro properties_for_sort) simp_all
  ultimately show ?thesis by (simp add: Let_def)
qed

text \<open>At least \<open>i + 1\<close> elements of a sorted list are no larger than element \<open>i\<close>.\<close>

lemma sorted_rank:
  fixes s :: "int list"
  assumes "sorted s" and "i < length s"
  shows "i < length (filter (\<lambda>x. x \<le> s ! i) s)"
proof -
  have "filter (\<lambda>x. x \<le> s ! i) (take (Suc i) s) = take (Suc i) s"
    using assms by (intro filter_True) (auto simp: in_set_conv_nth less_Suc_eq_le sorted_nth_mono)
  then have "length (filter (\<lambda>x. x \<le> s ! i) (take (Suc i) s)) = Suc i"
    using assms(2) by simp
  moreover have "length (filter (\<lambda>x. x \<le> s ! i) s) =
      length (filter (\<lambda>x. x \<le> s ! i) (take (Suc i) s)) + length (filter (\<lambda>x. x \<le> s ! i) (drop (Suc i) s))"
    by (metis append_take_drop_id filter_append length_append)
  ultimately show ?thesis by simp
qed

lemma length_filter_sort: "length (filter P (sort xs)) = length (filter P xs)"
  by (metis mset_filter mset_sort size_mset)

lemma record_all_calls:
  "record_all metrics_start xs = None \<longleftrightarrow> 2147483649 < length xs"
proof (cases "length xs \<le> 2147483649")
  case True
  then show ?thesis
    using record_all_window [of xs] by auto
next
  case False
  let ?ys = "take 2147483649 xs"
  have split: "xs = ?ys @ xs ! 2147483649 # drop 2147483650 xs"
    using False id_take_nth_drop [of 2147483649 xs] by simp
  obtain m where m: "record_all metrics_start ?ys = Some m" "window_of ?ys m"
    using record_all_window [of ?ys] by auto
  have "record_all metrics_start xs = record_all m (xs ! 2147483649 # drop 2147483650 xs)"
    by (subst split) (simp add: record_all_append m(1))
  moreover have "length ?ys = 2147483649"
    using False by (subst length_take) (rule min_absorb2, simp)
  then have "record_latency m (xs ! 2147483649) = None"
    using m(2) by (intro record_latency_overflow)
  ultimately show ?thesis
    using False by simp
qed

lemma percentiles_recorded:
  assumes "record_all metrics_start xs = Some m"
  shows "calc_latency_percentile m =
    (let s = sort (drop (length xs - 1024) xs); n = min (length xs) 1024
     in if xs = [] then Some (0, 0) else Some (s ! (n * 50 div 100), s ! (n * 99 div 100)))"
proof -
  have "length xs \<le> 2147483649"
    using assms record_all_calls [of xs] by (metis not_le option.distinct(1))
  then have win: "window_of xs m"
    using assms record_all_window [of xs] by auto
  show ?thesis
  proof (cases "xs = []")
    case True
    then show ?thesis
      using assms by (auto simp: calc_latency_percentile_def metrics_start_def)
  next
    case False
    then show ?thesis
      using calc_latency_percentile_window [OF win] by (simp add: Let_def)
  qed
qed

text \<open>
  The loads of the copy may see any mixture of moments. Whatever window of recorded values and
  whatever count they see, the percentiles are elements of it, the 50th not above the 99th.
\<close>

lemma percentiles_in_window:
  assumes "length (g_latency_window m) = LATENCY_WINDOW_SIZE" and "0 \<le> sint (g_latency_count m)"
  obtains p50 p99 where "calc_latency_percentile m = Some (p50, p99)" "p50 \<le> p99"
    "p50 \<in> insert 0 (set (g_latency_window m))" "p99 \<in> insert 0 (set (g_latency_window m))"
proof (cases "sint (g_latency_count m) = 0")
  case True
  then show ?thesis
    using that [of 0 0] by (simp add: calc_latency_percentile_def LATENCY_WINDOW_SIZE_def)
next
  case False
  define n where "n = nat (min 1024 (sint (g_latency_count m)))"
  let ?w = "g_latency_window m"
  let ?s = "sort (take n ?w)"
  have n: "0 < n" "n \<le> 1024" "length ?s = n"
    using False assms by (auto simp: n_def LATENCY_WINDOW_SIZE_def)
  have "calc_latency_percentile m = Some (sort_outer n 0 (take n ?w) ! (n * 50 div 100), sort_outer n 0 (take n ?w) ! (n * 99 div 100))"
    using False assms by (auto simp: calc_latency_percentile_def LATENCY_WINDOW_SIZE_def Let_def n_def min_def)
  moreover have "sort_outer n 0 (take n ?w) = ?s"
    using sort_outer_sort [of "take n ?w"] n(3) by simp
  moreover have idx: "n * 50 div 100 < n" "n * 99 div 100 < n" "n * 50 div 100 \<le> n * 99 div 100"
    using n(1) by linarith+
  moreover have "?s ! (n * 50 div 100) \<in> set ?s" "?s ! (n * 99 div 100) \<in> set ?s"
    by (rule nth_mem, simp only: n(3) idx)+
  moreover have "?s ! (n * 50 div 100) \<le> ?s ! (n * 99 div 100)"
    by (rule sorted_nth_mono) (simp_all only: n(3) idx sorted_sort)
  ultimately show ?thesis
    using that set_take_subset [of n ?w] by (metis (no_types, lifting) insertI2 set_sort subsetD)
qed

section \<open>Properties\<close>

text \<open>The reference: the same percentiles of the window sorted by the library's \<open>sort\<close>.\<close>

definition percentiles_by_sort :: "metrics \<Rightarrow> (int \<times> int) option" where
  "percentiles_by_sort m =
     (let count = min 1024 (sint (g_latency_count m)); s = sort (take (nat count) (g_latency_window m)) in
      if count = 0 then Some (0, 0)
      else if count < 0 \<or> int (length (g_latency_window m)) < count then None
      else Some (s ! (nat count * 50 div 100), s ! (nat count * 99 div 100)))"

text \<open>
  C20. The two nested loops of \<open>calc_latency_percentile\<close>, with their swaps in place, are a sort:
  on every array they end with what the reference \<open>sort\<close> gives, so the percentiles are the
  reference's on every window and every count, also one that is too large, and both are undefined
  for the same.
\<close>

theorem exchange_sort_is_sort:
  "sort_outer (length l) 0 l = sort l \<and> calc_latency_percentile m = percentiles_by_sort m"
proof -
  have same: "sort_outer n 0 (take n w) = sort (take n w)" if "n \<le> length w" for n w
    using sort_outer_sort [of "take n w"] that by simp
  have "calc_latency_percentile m = percentiles_by_sort m"
    by (auto simp: calc_latency_percentile_def percentiles_by_sort_def LATENCY_WINDOW_SIZE_def Let_def min_def same nat_le_iff)
  then show ?thesis
    by (simp add: sort_outer_sort)
qed

text \<open>
  C40. From the start of the program \<open>record_latency\<close> stays inside the window for exactly
  \<open>2 ^ 31 + 1\<close> calls; the next one computes a negative index, because \<open>%\<close> of the wrapped
  \<open>atomic_int\<close> is negative, and stores outside the array.
\<close>

theorem record_latency_calls:
  "record_all metrics_start xs = None \<longleftrightarrow> 2147483649 < length xs"
  by (rule record_all_calls)

text \<open>
  After any number of recordings inside that bound the percentiles are those of the last
  1024 latencies (of all of them while there are fewer): elements \<open>n * 50 / 100\<close> and
  \<open>n * 99 / 100\<close> of their sorted sequence, and \<open>0, 0\<close> for none.
\<close>

theorem percentiles_of_latest:
  assumes "record_all metrics_start xs = Some m"
  shows "calc_latency_percentile m =
    (let s = sort (drop (length xs - 1024) xs); n = min (length xs) 1024
     in if xs = [] then Some (0, 0) else Some (s ! (n * 50 div 100), s ! (n * 99 div 100)))"
  using assms by (rule percentiles_recorded)

theorem percentiles_of_latest_witness:
  "\<exists>m. record_all metrics_start [30, 10, 20, 40] = Some m \<and> calc_latency_percentile m = Some (30, 40)"
proof -
  obtain m where m: "record_all metrics_start [30, 10, 20, 40] = Some m"
    using record_all_window [of "[30, 10, 20, 40]"] by auto
  have "sort [30, 10, 20, 40 :: int] = [10, 20, 30, 40]"
    by (simp add: sort_key_def)
  then show ?thesis
    using percentiles_of_latest [OF m] m by (simp add: Let_def)
qed

text \<open>
  The reported percentiles mean what they say: both are recorded latencies, the 50th is not
  above the 99th, and more than 50 and 99 percent of the latest latencies do not exceed them.
\<close>

theorem percentiles_rank:
  assumes "record_all metrics_start xs = Some m" and "xs \<noteq> []"
    and "calc_latency_percentile m = Some (p50, p99)"
  shows "let l = drop (length xs - 1024) xs in
    p50 \<in> set l \<and> p99 \<in> set l \<and> p50 \<le> p99
    \<and> 50 * length l < 100 * length (filter (\<lambda>x. x \<le> p50) l)
    \<and> 99 * length l < 100 * length (filter (\<lambda>x. x \<le> p99) l)"
proof -
  let ?l = "drop (length xs - 1024) xs" and ?n = "min (length xs) 1024"
  let ?s = "sort ?l"
  have len: "length ?s = ?n" "length ?l = ?n" "0 < ?n"
    using assms(2) by auto
  have p: "p50 = ?s ! (?n * 50 div 100)" "p99 = ?s ! (?n * 99 div 100)"
    using percentiles_recorded [OF assms(1)] assms(2,3) by (simp_all add: Let_def)
  have idx: "?n * 50 div 100 < ?n" "?n * 99 div 100 < ?n" "?n * 50 div 100 \<le> ?n * 99 div 100"
    using len(3) by linarith+
  have rank: "?n * q < 100 * length (filter (\<lambda>x. x \<le> ?s ! (?n * q div 100)) ?l)"
    if "?n * q div 100 < ?n" for q
  proof -
    have "?n * q div 100 < length (filter (\<lambda>x. x \<le> ?s ! (?n * q div 100)) ?s)"
      using sorted_rank [of ?s "?n * q div 100"] that len(1) by simp
    then show ?thesis
      by (simp only: length_filter_sort div_less_iff_less_mult mult.commute)
  qed
  have "?s ! (?n * 50 div 100) \<in> set ?s" "?s ! (?n * 99 div 100) \<in> set ?s"
    by (rule nth_mem, simp only: len(1) idx)+
  then have "p50 \<in> set ?l" "p99 \<in> set ?l"
    unfolding p by (simp_all only: set_sort)
  moreover have "p50 \<le> p99"
    unfolding p by (rule sorted_nth_mono) (simp_all only: len(1) idx sorted_sort)
  moreover have "50 * ?n < 100 * length (filter (\<lambda>x. x \<le> p50) ?l)"
    using rank [OF idx(1)] unfolding p by (simp only: mult.commute)
  moreover have "99 * ?n < 100 * length (filter (\<lambda>x. x \<le> p99) ?l)"
    using rank [OF idx(2)] unfolding p by (simp only: mult.commute)
  ultimately show ?thesis
    unfolding Let_def len(2) by blast
qed

theorem percentiles_rank_witness:
  "\<exists>m p50 p99. record_all metrics_start [7, 7, 9] = Some m \<and> calc_latency_percentile m = Some (p50, p99)
     \<and> p50 \<le> p99 \<and> p99 \<in> {7, 9}"
proof -
  obtain m where m: "record_all metrics_start [7, 7, 9] = Some m"
    using record_all_window [of "[7, 7, 9]"] by auto
  obtain p50 p99 where p: "calc_latency_percentile m = Some (p50, p99)"
    using percentiles_recorded [OF m] by (auto simp: Let_def)
  show ?thesis
    using percentiles_rank [OF m _ p] m p by (auto simp: Let_def)
qed

end
