(* ===== verification/Heartbeat.thy ===== *)
theory Heartbeat
  imports Edge_Prelude
begin

text \<open>
  The interface between the threads that work and the monitor that watches them: a 64-bit
  heartbeat that a thread increments as it works (\<open>app/include/watchdog.h\<close>). The monitor samples
  it from time to time and relies on a working thread having moved it in between.
\<close>

section \<open>Samples\<close>

text \<open>The heartbeat after each of some runs of a thread; \<open>None\<close> when a run does not come to its end.\<close>

fun samples :: "('r list \<Rightarrow> 's \<Rightarrow> 's option) \<Rightarrow> ('s \<Rightarrow> u64) \<Rightarrow> 'r list list \<Rightarrow> 's \<Rightarrow> u64 list option" where
  "samples run beats [] s = Some []"
| "samples run beats (rs # rss) s =
     (case run rs s of
        None \<Rightarrow> None
      | Some s' \<Rightarrow> map_option (\<lambda>hs. beats s' # hs) (samples run beats rss s'))"

text \<open>Every value differs from the one before it, the first from the value given.\<close>

fun moving :: "u64 \<Rightarrow> u64 list \<Rightarrow> bool" where
  "moving h [] = True"
| "moving h (x # xs) = (x \<noteq> h \<and> moving x xs)"

lemma add_of_nat_moves: "0 < n \<Longrightarrow> n < 2 ^ 64 \<Longrightarrow> (h :: u64) + of_nat n \<noteq> h"
  by (simp add: word_of_nat_eq_0_iff nat_dvd_not_less)

lemma moving_nth: "moving h xs \<Longrightarrow> i < length xs \<Longrightarrow> xs ! i \<noteq> (h # xs) ! i"
proof (induction xs arbitrary: h i)
  case (Cons x xs)
  then show ?case by (cases i) auto
qed simp

lemma moving_take: "moving h xs \<Longrightarrow> moving h (take k xs)"
proof (induction xs arbitrary: h k)
  case (Cons x xs)
  then show ?case by (cases k) auto
qed simp

section \<open>The contract of a thread\<close>

text \<open>
  \<open>run\<close> is a run of rounds, \<open>good n\<close> the invariant of the thread after at most \<open>n\<close> rounds, \<open>proper\<close>
  what the outside answers in a round, \<open>bound\<close> the number of rounds the promise holds for: a run
  of at least one round comes to its end, keeps the invariant and moves the heartbeat by a number
  that does not wrap around to nothing.
\<close>

locale heartbeat_source =
  fixes run :: "'r list \<Rightarrow> 's \<Rightarrow> 's option" and beats :: "'s \<Rightarrow> u64" and good :: "nat \<Rightarrow> 's \<Rightarrow> bool"
    and proper :: "'r \<Rightarrow> bool" and bound :: nat
  assumes run_beats: "good n s \<Longrightarrow> rs \<noteq> [] \<Longrightarrow> \<forall>r\<in>set rs. proper r \<Longrightarrow> n + length rs \<le> bound \<Longrightarrow>
    \<exists>s' k. run rs s = Some s' \<and> good (n + length rs) s' \<and> beats s' = beats s + of_nat k \<and> 0 < k \<and> k < 2 ^ 64"
begin

lemma run_moves:
  assumes "good n s" and "rs \<noteq> []" and "\<forall>r\<in>set rs. proper r" and "n + length rs \<le> bound"
  obtains s' where "run rs s = Some s'" "good (n + length rs) s'" "beats s' \<noteq> beats s"
  using run_beats [OF assms] add_of_nat_moves by metis

lemma samples_moving:
  "good n s \<Longrightarrow> \<forall>rs\<in>set rss. rs \<noteq> [] \<and> (\<forall>r\<in>set rs. proper r) \<Longrightarrow> n + length (concat rss) \<le> bound \<Longrightarrow>
    \<exists>hs. samples run beats rss s = Some hs \<and> length hs = length rss \<and> moving (beats s) hs"
proof (induction rss arbitrary: n s)
  case (Cons rs rss)
  have rs: "rs \<noteq> []" "\<forall>r\<in>set rs. proper r" "n + length rs \<le> bound"
    using Cons.prems(2,3) by simp_all
  obtain s' where s': "run rs s = Some s'" "good (n + length rs) s'" "beats s' \<noteq> beats s"
    using run_moves [OF Cons.prems(1) rs] by blast
  then show ?case
    using Cons.IH [OF s'(2)] Cons.prems(2,3) by auto
qed simp

end

end
