(* ===== verification/Watchdog.thy ===== *)
theory Watchdog
  imports Heartbeat
begin

text \<open>
  The watchdog monitor of \<open>app/core/watchdog.c\<close>: once a second it samples the heartbeat
  counters of the collector and the web thread and feeds the hardware watchdog unless one of
  them has not moved for five samples in a row.
\<close>

section \<open>The monitor thread\<close>

definition DEAD_THRESHOLD_SEC :: int where "DEAD_THRESHOLD_SEC = 5"

text \<open>
  The locals of the thread, the two globals it publishes, the number of writes to
  \<open>/dev/watchdog\<close>, and whether the loop has been left.
\<close>

record watchdog =
  last_sensor_hb :: u64
  last_http_hb :: u64
  sensor_dead_count :: int
  http_dead_count :: int
  g_watchdog_dead_thread :: int
  g_watchdog_monitor_alive :: int
  wd_feeds :: nat
  wd_exited :: bool

definition watchdog_start :: watchdog where
  "watchdog_start =
     \<lparr>last_sensor_hb = 0, last_http_hb = 0, sensor_dead_count = 0, http_dead_count = 0,
      g_watchdog_dead_thread = 0, g_watchdog_monitor_alive = 0, wd_feeds = 0, wd_exited = False\<rparr>"

text \<open>The comparison of one sample with the last, for each of the two threads.\<close>

definition sample_heartbeats :: "u64 \<times> u64 \<Rightarrow> watchdog \<Rightarrow> watchdog" where
  "sample_heartbeats hb w =
     (let curr_sensor_hb = fst hb; curr_http_hb = snd hb;
          w1 = (if curr_sensor_hb = last_sensor_hb w
                then w\<lparr>sensor_dead_count := sensor_dead_count w + 1\<rparr>
                else w\<lparr>sensor_dead_count := 0, last_sensor_hb := curr_sensor_hb\<rparr>) in
      if curr_http_hb = last_http_hb w1
      then w1\<lparr>http_dead_count := http_dead_count w1 + 1\<rparr>
      else w1\<lparr>http_dead_count := 0, last_http_hb := curr_http_hb\<rparr>)"

text \<open>One round of the loop; \<open>test_mode\<close> is \<open>g_watchdog_test_mode\<close>, set once by \<open>main\<close>.\<close>

definition watchdog_step :: "bool \<Rightarrow> u64 \<times> u64 \<Rightarrow> watchdog \<Rightarrow> watchdog" where
  "watchdog_step test_mode hb w =
     (let w = sample_heartbeats hb w;
          sensor_dead = DEAD_THRESHOLD_SEC \<le> sensor_dead_count w;
          http_dead = DEAD_THRESHOLD_SEC \<le> http_dead_count w in
      if sensor_dead \<or> http_dead then
        let w = (if sensor_dead then w\<lparr>g_watchdog_dead_thread := 1\<rparr> else w);
            w = (if http_dead then w\<lparr>g_watchdog_dead_thread := 2\<rparr> else w);
            w = w\<lparr>g_watchdog_monitor_alive := 0\<rparr> in
        if test_mode then w\<lparr>wd_feeds := wd_feeds w + 1\<rparr> else w\<lparr>wd_exited := True\<rparr>
      else w\<lparr>wd_feeds := wd_feeds w + 1\<rparr>)"

fun watchdog_loop :: "bool \<Rightarrow> (u64 \<times> u64) list \<Rightarrow> watchdog \<Rightarrow> watchdog" where
  "watchdog_loop test_mode [] w = w"
| "watchdog_loop test_mode (hb # hbs) w =
     (if wd_exited w then w else watchdog_loop test_mode hbs (watchdog_step test_mode hb w))"

text \<open>The thread over the samples of its life; it does not start when the device does not open.\<close>

definition watchdog_monitor_thread :: "bool \<Rightarrow> bool \<Rightarrow> (u64 \<times> u64) list \<Rightarrow> watchdog" where
  "watchdog_monitor_thread open_ok test_mode hbs =
     (if open_ok then watchdog_loop test_mode hbs watchdog_start else watchdog_start\<lparr>wd_exited := True\<rparr>)"

section \<open>What the counters count\<close>

text \<open>
  \<open>stalled hs j\<close>: the last \<open>j\<close> samples of \<open>hs\<close> all repeat the value before them. The monitor
  compares the first sample with 0, so \<open>hs\<close> starts with 0.
\<close>

definition stalled :: "u64 list \<Rightarrow> nat \<Rightarrow> bool" where
  "stalled hs j \<longleftrightarrow> j < length hs \<and> (\<forall>i. length hs - j \<le> i \<and> i < length hs \<longrightarrow> hs ! i = hs ! (i - 1))"

lemma stalled_0 [simp]: "hs \<noteq> [] \<Longrightarrow> stalled hs 0"
  by (auto simp: stalled_def)

lemma all_below_Suc:
  "a \<le> n \<Longrightarrow> (\<forall>i. a \<le> i \<and> i < Suc n \<longrightarrow> P i) \<longleftrightarrow> P n \<and> (\<forall>i. a \<le> i \<and> i < n \<longrightarrow> P i)" for a n :: nat
  by (auto simp: less_Suc_eq)

lemma stalled_snoc:
  assumes "hs \<noteq> []"
  shows "stalled (hs @ [h]) (Suc j) \<longleftrightarrow> h = last hs \<and> stalled hs j"
proof (cases "j < length hs")
  case True
  have old: "(hs @ [h]) ! i = (hs @ [h]) ! (i - 1) \<longleftrightarrow> hs ! i = hs ! (i - 1)" if "i < length hs" for i
    using that by (simp add: nth_append less_imp_diff_less)
  have "(\<forall>i. length hs - j \<le> i \<and> i < Suc (length hs) \<longrightarrow> (hs @ [h]) ! i = (hs @ [h]) ! (i - 1))
    \<longleftrightarrow> (hs @ [h]) ! length hs = (hs @ [h]) ! (length hs - 1)
      \<and> (\<forall>i. length hs - j \<le> i \<and> i < length hs \<longrightarrow> hs ! i = hs ! (i - 1))"
    by (subst all_below_Suc) (use old in auto)
  moreover have "(hs @ [h]) ! length hs = h" and "(hs @ [h]) ! (length hs - 1) = last hs"
    using assms by (simp_all add: nth_append last_conv_nth)
  ultimately show ?thesis
    using True by (simp add: stalled_def)
qed (simp add: stalled_def)

lemma moving_not_stalled:
  assumes "moving h xs" and "0 < j"
  shows "\<not> stalled (h # xs) j"
proof
  assume *: "stalled (h # xs) j"
  then have "j < length (h # xs)"
    by (simp add: stalled_def)
  moreover have "(h # xs) ! length xs = (h # xs) ! (length xs - 1)"
    using * assms(2) by (auto simp: stalled_def)
  ultimately show False
    using moving_nth [OF assms(1), of "length xs - 1"] assms(2) by (cases xs) auto
qed

definition counts :: "u64 list \<Rightarrow> int \<Rightarrow> bool" where
  "counts hs n \<longleftrightarrow> 0 \<le> n \<and> (\<forall>j. stalled hs j \<longleftrightarrow> int j \<le> n)"

lemma counts_start: "counts [0] 0"
  by (auto simp: counts_def stalled_def)

lemma counts_snoc:
  assumes "hs \<noteq> []" and "counts hs n"
  shows "counts (hs @ [h]) (if h = last hs then n + 1 else 0)"
proof -
  have "stalled (hs @ [h]) j \<longleftrightarrow> int j \<le> (if h = last hs then n + 1 else 0)" for j
    using assms stalled_snoc [OF assms(1), of h] by (cases j) (auto simp: counts_def)
  then show ?thesis
    using assms(2) by (simp add: counts_def)
qed

text \<open>The state of a running monitor after the samples \<open>hbs\<close>.\<close>

definition wd_tracks :: "(u64 \<times> u64) list \<Rightarrow> watchdog \<Rightarrow> bool" where
  "wd_tracks hbs w \<longleftrightarrow>
     last_sensor_hb w = last (0 # map fst hbs) \<and> last_http_hb w = last (0 # map snd hbs)
     \<and> counts (0 # map fst hbs) (sensor_dead_count w) \<and> counts (0 # map snd hbs) (http_dead_count w)"

lemma wd_tracks_start: "wd_tracks [] watchdog_start"
  by (simp add: wd_tracks_def watchdog_start_def counts_start)

lemma wd_tracks_sample:
  assumes "wd_tracks hbs w"
  shows "wd_tracks (hbs @ [hb]) (sample_heartbeats hb w)"
  using assms counts_snoc [of "0 # map fst hbs" "sensor_dead_count w" "fst hb"]
    counts_snoc [of "0 # map snd hbs" "http_dead_count w" "snd hb"]
  by (auto simp: wd_tracks_def sample_heartbeats_def Let_def)

text \<open>The sample at which the monitor gives a thread up.\<close>

definition someone_dead :: "(u64 \<times> u64) list \<Rightarrow> bool" where
  "someone_dead hbs \<longleftrightarrow> stalled (0 # map fst hbs) 5 \<or> stalled (0 # map snd hbs) 5"

lemma wd_tracks_dead:
  "wd_tracks hbs w \<Longrightarrow> stalled (0 # map fst hbs) 5 \<longleftrightarrow> DEAD_THRESHOLD_SEC \<le> sensor_dead_count w"
  "wd_tracks hbs w \<Longrightarrow> stalled (0 # map snd hbs) 5 \<longleftrightarrow> DEAD_THRESHOLD_SEC \<le> http_dead_count w"
  by (auto simp: wd_tracks_def counts_def DEAD_THRESHOLD_SEC_def)

lemma watchdog_step_tracks:
  "wd_tracks hbs w \<Longrightarrow> wd_tracks (hbs @ [hb]) (watchdog_step test hb w)"
  using wd_tracks_sample [of hbs w hb]
  by (auto simp: watchdog_step_def Let_def wd_tracks_def)

lemma sample_frame [simp]:
  "wd_feeds (sample_heartbeats hb w) = wd_feeds w"
  "wd_exited (sample_heartbeats hb w) = wd_exited w"
  "g_watchdog_monitor_alive (sample_heartbeats hb w) = g_watchdog_monitor_alive w"
  "g_watchdog_dead_thread (sample_heartbeats hb w) = g_watchdog_dead_thread w"
  by (simp_all add: sample_heartbeats_def Let_def)

lemma watchdog_step_alive:
  assumes "wd_tracks hbs w" and "\<not> someone_dead (hbs @ [hb])"
  shows "watchdog_step test hb w = (sample_heartbeats hb w)\<lparr>wd_feeds := wd_feeds w + 1\<rparr>"
  using assms wd_tracks_dead [OF wd_tracks_sample [OF assms(1), of hb]]
  by (simp add: watchdog_step_def Let_def someone_dead_def)

lemma watchdog_step_dead:
  assumes "wd_tracks hbs w" and "someone_dead (hbs @ [hb])"
  shows "wd_exited (watchdog_step False hb w)"
    and "wd_feeds (watchdog_step False hb w) = wd_feeds w"
    and "g_watchdog_dead_thread (watchdog_step test hb w) =
      (if stalled (0 # map snd (hbs @ [hb])) 5 then 2 else 1)"
  using assms(2) wd_tracks_dead [OF wd_tracks_sample [OF assms(1), of hb]]
  by (auto simp: watchdog_step_def Let_def someone_dead_def)

lemma watchdog_loop_exited: "wd_exited w \<Longrightarrow> watchdog_loop test hbs w = w"
  by (cases hbs) auto

lemma watchdog_loop_append:
  "watchdog_loop test (hbs @ hbs') w = watchdog_loop test hbs' (watchdog_loop test hbs w)"
  by (induction hbs arbitrary: w) (auto simp: watchdog_loop_exited)

lemma not_dead_start: "\<not> someone_dead []"
  by (simp add: someone_dead_def stalled_def)

lemma watchdog_loop_running:
  assumes "\<And>k. k \<le> length hbs \<Longrightarrow> \<not> someone_dead (take k hbs)"
  shows "wd_tracks hbs (watchdog_loop test hbs watchdog_start)
    \<and> \<not> wd_exited (watchdog_loop test hbs watchdog_start)
    \<and> wd_feeds (watchdog_loop test hbs watchdog_start) = length hbs
    \<and> g_watchdog_dead_thread (watchdog_loop test hbs watchdog_start) = 0"
  using assms
proof (induction hbs rule: rev_induct)
  case Nil
  then show ?case
    using wd_tracks_start by (simp add: watchdog_start_def)
next
  case (snoc hb hbs)
  let ?w = "watchdog_loop test hbs watchdog_start"
  have "\<not> someone_dead (take k hbs)" if "k \<le> length hbs" for k
    using snoc.prems [of k] that by simp
  then have IH: "wd_tracks hbs ?w" "\<not> wd_exited ?w" "wd_feeds ?w = length hbs" "g_watchdog_dead_thread ?w = 0"
    using snoc.IH by auto
  have "\<not> someone_dead (hbs @ [hb])"
    using snoc.prems [of "Suc (length hbs)"] by simp
  then show ?case
    using IH watchdog_step_alive [OF IH(1), of hb test] watchdog_step_tracks [OF IH(1), of hb test]
    by (simp add: watchdog_loop_append)
qed

lemma watchdog_loop_stops:
  assumes "k < length hbs" and "someone_dead (take (Suc k) hbs)"
    and "\<And>j. j \<le> k \<Longrightarrow> \<not> someone_dead (take j hbs)"
  shows "wd_exited (watchdog_loop False hbs watchdog_start)
    \<and> wd_feeds (watchdog_loop False hbs watchdog_start) = k
    \<and> g_watchdog_dead_thread (watchdog_loop False hbs watchdog_start) =
        (if stalled (0 # map snd (take (Suc k) hbs)) 5 then 2 else 1)"
proof -
  let ?w = "watchdog_loop False (take k hbs) watchdog_start"
  have run: "wd_tracks (take k hbs) ?w" "\<not> wd_exited ?w" "wd_feeds ?w = k"
    using watchdog_loop_running [of "take k hbs" False] assms(1,3) by (auto simp: min_absorb1)
  have snoc: "take (Suc k) hbs = take k hbs @ [hbs ! k]"
    using assms(1) by (rule take_Suc_conv_app_nth)
  note dead = watchdog_step_dead [OF run(1), of "hbs ! k"]
  have "hbs = take k hbs @ hbs ! k # drop (Suc k) hbs"
    using assms(1) by (rule id_take_nth_drop)
  then have "watchdog_loop False hbs watchdog_start
      = watchdog_loop False (drop (Suc k) hbs) (watchdog_step False (hbs ! k) ?w)"
    using run(2) by (metis watchdog_loop.simps(2) watchdog_loop_append)
  then show ?thesis
    using dead assms(2) run(3) unfolding snoc by (simp add: watchdog_loop_exited)
qed

section \<open>Properties\<close>

text \<open>
  Outside the test mode the monitor leaves its loop at the first sample that makes five in a
  row without movement for one of the two threads, and not before: it has then fed the device
  once for every earlier sample, and names the web thread if that one is stalled, else the
  collector.
\<close>

theorem watchdog_stops_exactly:
  assumes "\<And>j. j \<le> k \<Longrightarrow> \<not> someone_dead (take j hbs)"
  shows "(k = length hbs \<longrightarrow>
      (let w = watchdog_monitor_thread True False hbs in
       \<not> wd_exited w \<and> wd_feeds w = k \<and> g_watchdog_dead_thread w = 0))
    \<and> (k < length hbs \<and> someone_dead (take (Suc k) hbs) \<longrightarrow>
      (let w = watchdog_monitor_thread True False hbs in
       wd_exited w \<and> wd_feeds w = k
       \<and> g_watchdog_dead_thread w = (if stalled (0 # map snd (take (Suc k) hbs)) 5 then 2 else 1)))"
  using watchdog_loop_stops [of k hbs] watchdog_loop_running [of hbs False] assms
  by (simp add: watchdog_monitor_thread_def Let_def)

theorem watchdog_stops_exactly_witness:
  "let w = watchdog_monitor_thread True False [(1, 1), (2, 1), (3, 1), (4, 1), (5, 1), (6, 1), (7, 2)] in
   wd_exited w \<and> wd_feeds w = 5 \<and> g_watchdog_dead_thread w = 2"
proof -
  let ?hbs = "[(1, 1), (2, 1), (3, 1), (4, 1), (5, 1), (6, 1), (7, 2)] :: (u64 \<times> u64) list"
  have quiet: "\<not> someone_dead (take j ?hbs)" if "j \<le> 5" for j
  proof -
    have "j \<in> {0, 1, 2, 3, 4, 5}"
      using that by auto
    then show ?thesis
      by (auto simp: someone_dead_def stalled_def numeral_eq_Suc intro!: exI [of _ 1])
  qed
  have "stalled (0 # map snd (take (Suc 5) ?hbs)) 5"
    by (auto simp: stalled_def less_Suc_eq numeral_eq_Suc)
  then show ?thesis
    using watchdog_stops_exactly [of 5 ?hbs, OF quiet] by (simp add: Let_def someone_dead_def)
qed

lemma watchdog_loop_not_alive:
  "g_watchdog_monitor_alive w = 0 \<Longrightarrow> g_watchdog_monitor_alive (watchdog_loop test hbs w) = 0"
proof (induction hbs arbitrary: w)
  case (Cons hb hbs)
  then show ?case by (simp add: watchdog_step_def Let_def)
qed simp

text \<open>
  \<open>g_watchdog_monitor_alive\<close>, documented in the metrics as 1 while the monitor runs, is 0
  whatever the monitor does: nothing ever stores 1.
\<close>

theorem watchdog_never_alive:
  "g_watchdog_monitor_alive (watchdog_monitor_thread open_ok test_mode hbs) = 0"
  by (simp add: watchdog_monitor_thread_def watchdog_loop_not_alive watchdog_start_def)

lemma watchdog_step_test:
  "wd_feeds (watchdog_step True hb w) = wd_feeds w + 1"
  "wd_exited (watchdog_step True hb w) = wd_exited w"
  "g_watchdog_dead_thread w \<noteq> 0 \<Longrightarrow> g_watchdog_dead_thread (watchdog_step True hb w) \<noteq> 0"
  by (auto simp: watchdog_step_def Let_def)

lemma watchdog_loop_test:
  "\<not> wd_exited w \<Longrightarrow> \<not> wd_exited (watchdog_loop True hbs w)
    \<and> wd_feeds (watchdog_loop True hbs w) = wd_feeds w + length hbs
    \<and> (g_watchdog_dead_thread w \<noteq> 0 \<longrightarrow> g_watchdog_dead_thread (watchdog_loop True hbs w) \<noteq> 0)"
  by (induction hbs arbitrary: w) (simp_all add: watchdog_step_test)

text \<open>
  In the test mode the monitor feeds at every sample and never leaves its loop, and the
  verdict is sticky: once a thread was reported dead the report never returns to 0, although
  the thread may be alive again.
\<close>

theorem watchdog_test_mode:
  "let w = watchdog_monitor_thread True True hbs; w' = watchdog_monitor_thread True True (hbs @ hbs') in
   \<not> wd_exited w \<and> wd_feeds w = length hbs
   \<and> (g_watchdog_dead_thread w \<noteq> 0 \<longrightarrow> g_watchdog_dead_thread w' \<noteq> 0)"
  using watchdog_loop_test [of watchdog_start hbs]
    watchdog_loop_test [of "watchdog_loop True hbs watchdog_start" hbs']
  by (auto simp: watchdog_monitor_thread_def Let_def watchdog_loop_append watchdog_start_def)

theorem watchdog_test_mode_witness:
  "g_watchdog_dead_thread (watchdog_monitor_thread True True (replicate 5 (0, 1) @ [(1, 2), (2, 3)])) \<noteq> 0"
proof -
  have "g_watchdog_dead_thread (watchdog_monitor_thread True True (replicate 5 (0, 1))) \<noteq> 0"
    by (simp add: watchdog_monitor_thread_def watchdog_start_def watchdog_step_def sample_heartbeats_def
        DEAD_THRESHOLD_SEC_def Let_def numeral_eq_Suc)
  then show ?thesis
    using watchdog_test_mode [of "replicate 5 (0, 1)" "[(1, 2), (2, 3)]"] by (simp add: Let_def)
qed

end
