(* ===== verification/Ban_Policy.thy ===== *)
theory Ban_Policy
  imports Edge_Prelude
begin

text \<open>
  The contract between the Modbus server and its blacklist (\<open>app/modbus/modbus_server.c\<close>): what the
  check of an address and the record of an illegal request promise, as a locale, and what any
  sequence of them comes to. \<open>Blacklist\<close> discharges the laws for the table of the code.
\<close>

section \<open>Sequences of operations\<close>

datatype ban_op = Check u32 int | Strike u32 int

fun ban_run :: "(u32 \<Rightarrow> int \<Rightarrow> 'b \<Rightarrow> bool \<times> 'b) \<Rightarrow> (u32 \<Rightarrow> int \<Rightarrow> 'b \<Rightarrow> 'w \<Rightarrow> 'b \<times> 'w) \<Rightarrow> ban_op list
    \<Rightarrow> 'b \<Rightarrow> 'w \<Rightarrow> 'b \<times> 'w" where
  "ban_run check strike [] b w = (b, w)"
| "ban_run check strike (Check ip now # ops) b w = ban_run check strike ops (snd (check ip now b)) w"
| "ban_run check strike (Strike ip now # ops) b w =
     (let (b', w') = strike ip now b w in ban_run check strike ops b' w')"

lemma ban_run_append:
  "ban_run check strike (ops @ ops') b w =
    (let (b', w') = ban_run check strike ops b w in ban_run check strike ops' b' w')"
  by (induction check strike ops b w rule: ban_run.induct) (auto simp: Let_def split: prod.splits)

text \<open>The operations that name an address other than 0.\<close>

definition real_op :: "ban_op \<Rightarrow> bool" where
  "real_op op = (case op of Check _ _ \<Rightarrow> True | Strike ip _ \<Rightarrow> ip \<noteq> 0)"

lemma real_op_simps [simp]: "real_op (Check ip now)" "real_op (Strike ip now) \<longleftrightarrow> ip \<noteq> 0"
  by (simp_all add: real_op_def)

section \<open>The contract\<close>

text \<open>
  \<open>strikes\<close> counts the offences an address has on record, \<open>ban_time\<close> is the end of its ban, 0 for
  none, \<open>fire ip\<close> what a ban does to the world. Of the addresses other than the named one the
  contract only promises the invariant: a full table gives up one of them.
\<close>

locale ban_policy =
  fixes check :: "u32 \<Rightarrow> int \<Rightarrow> 'b \<Rightarrow> bool \<times> 'b" and strike :: "u32 \<Rightarrow> int \<Rightarrow> 'b \<Rightarrow> 'w \<Rightarrow> 'b \<times> 'w"
    and good :: "'b \<Rightarrow> bool" and strikes :: "'b \<Rightarrow> u32 \<Rightarrow> int" and ban_time :: "'b \<Rightarrow> u32 \<Rightarrow> int"
    and fire :: "u32 \<Rightarrow> 'w \<Rightarrow> 'w" and threshold duration :: int
  assumes check_good: "good b \<Longrightarrow> good (snd (check ip now b))"
    and check_bans: "0 \<le> now \<Longrightarrow> fst (check ip now b) \<longleftrightarrow> now < ban_time b ip"
    and check_same: "fst (check ip now b) \<Longrightarrow> snd (check ip now b) = b"
    and check_clears: "good b \<Longrightarrow> ip \<noteq> 0 \<Longrightarrow> \<not> fst (check ip now b) \<Longrightarrow>
      strikes (snd (check ip now b)) ip = 0 \<and> ban_time (snd (check ip now b)) ip = 0"
    and strikes_range: "good b \<Longrightarrow> 0 \<le> strikes b ip \<and> strikes b ip < threshold"
    and strike_good: "good b \<Longrightarrow> ip \<noteq> 0 \<Longrightarrow> good (fst (strike ip now b w))"
    and strike_counts: "good b \<Longrightarrow> ip \<noteq> 0 \<Longrightarrow> strikes b ip + 1 < threshold \<Longrightarrow> strike ip now b w = (b', w') \<Longrightarrow>
      strikes b' ip = strikes b ip + 1 \<and> ban_time b' ip = ban_time b ip \<and> w' = w"
    and strike_bans: "good b \<Longrightarrow> ip \<noteq> 0 \<Longrightarrow> threshold \<le> strikes b ip + 1 \<Longrightarrow> strike ip now b w = (b', w') \<Longrightarrow>
      strikes b' ip = 0 \<and> ban_time b' ip = now + duration \<and> w' = fire ip w"
begin

lemma run_good: "good b \<Longrightarrow> \<forall>op\<in>set ops. real_op op \<Longrightarrow> good (fst (ban_run check strike ops b w))"
proof (induction ops arbitrary: b w)
  case (Cons op ops)
  then show ?case
  proof (cases op)
    case (Strike ip now)
    then have "good (fst (strike ip now b w))"
      using Cons.prems strike_good by simp
    then show ?thesis
      using Cons Strike by (simp add: split_beta)
  qed (simp add: check_good)
qed simp

text \<open>
  Any number of strikes of one address: \<open>n\<close> of them with those on record. Every \<open>threshold\<close>-th one
  bans, and the rest stay on record.
\<close>

lemma count_up:
  fixes n :: int
  assumes "0 < t"
  shows "n mod t + 1 < t \<Longrightarrow> (n + 1) mod t = n mod t + 1 \<and> (n + 1) div t = n div t"
    and "t \<le> n mod t + 1 \<Longrightarrow> (n + 1) mod t = 0 \<and> (n + 1) div t = n div t + 1 \<and> t * ((n + 1) div t) = n + 1"
proof -
  have n: "n = t * (n div t) + n mod t" "0 \<le> n mod t" "n mod t < t"
    using assms by simp_all
  show "(n + 1) mod t = n mod t + 1 \<and> (n + 1) div t = n div t" if "n mod t + 1 < t"
  proof -
    have "n + 1 = t * (n div t) + (n mod t + 1)"
      using n(1) by linarith
    then show ?thesis
      using int_div_pos_eq [of "n + 1" t "n div t" "n mod t + 1"] int_mod_pos_eq [of "n + 1" t "n div t" "n mod t + 1"]
        that n(2) by simp
  qed
  show "(n + 1) mod t = 0 \<and> (n + 1) div t = n div t + 1 \<and> t * ((n + 1) div t) = n + 1" if "t \<le> n mod t + 1"
  proof -
    have "n + 1 = t * (n div t + 1) + 0"
      using n that unfolding distrib_left by linarith
    then show ?thesis
      using int_div_pos_eq [of "n + 1" t "n div t + 1" 0] int_mod_pos_eq [of "n + 1" t "n div t + 1" 0] assms by simp
  qed
qed

lemma run_strikes:
  assumes "good b" and "ip \<noteq> 0"
  shows "ban_run check strike (map (Strike ip) ts) b w = (b', w') \<Longrightarrow> n = strikes b ip + int (length ts) \<Longrightarrow>
    good b' \<and> strikes b' ip = n mod threshold \<and> w' = (fire ip ^^ nat (n div threshold)) w
    \<and> ban_time b' ip = (if n div threshold = 0 then ban_time b ip
        else ts ! nat (threshold * (n div threshold) - strikes b ip - 1) + duration)"
proof (induction ts arbitrary: b' w' n rule: rev_induct)
  case Nil
  then show ?case
    using assms strikes_range [of b ip] by (simp add: div_pos_pos_trivial)
next
  case (snoc t ts)
  let ?n = "strikes b ip + int (length ts)"
  have pos: "0 < threshold" "0 \<le> strikes b ip" "strikes b ip < threshold"
    using strikes_range [OF assms(1)] by (auto intro: le_less_trans)
  obtain b1 w1 where run1: "ban_run check strike (map (Strike ip) ts) b w = (b1, w1)"
    by fastforce
  note one = snoc.IH [OF run1 refl]
  have "strike ip t b1 w1 = (b', w')"
    using snoc.prems(1) by (simp add: ban_run_append run1 split_beta)
  note step = strike_good [of b1 ip t w1] strike_counts [OF _ assms(2) _ this] strike_bans [OF _ assms(2) _ this] this
  have n: "n = ?n + 1"
    using snoc.prems(2) by simp
  show ?case
  proof (cases "?n mod threshold + 1 < threshold")
    case True
    have "nat (threshold * (?n div threshold) - strikes b ip - 1) < length ts" if "?n div threshold \<noteq> 0"
    proof -
      have "1 \<le> ?n div threshold" "threshold * (?n div threshold) \<le> ?n"
        using that pos pos_imp_zdiv_nonneg_iff [OF pos(1), of ?n] mult_div_mod_eq [of threshold ?n]
          pos_mod_sign [OF pos(1), of ?n] by linarith+
      then have "threshold \<le> threshold * (?n div threshold)" "threshold * (?n div threshold) - strikes b ip - 1 < int (length ts)"
        using pos by simp_all
      then show ?thesis
        using pos(3) by linarith
    qed
    then show ?thesis
      using step one count_up(1) [OF pos(1) True] assms(2) True by (simp add: n nth_append)
  next
    case False
    have "0 \<le> ?n div threshold"
      using pos by (simp add: pos_imp_zdiv_nonneg_iff)
    moreover have "threshold * (n div threshold) - strikes b ip - 1 = int (length ts)"
      using count_up(2) [OF pos(1), of ?n] False unfolding n by linarith
    ultimately show ?thesis
      using step one count_up(2) [OF pos(1)] False assms(2) by (simp add: n nth_append nat_add_distrib)
  qed
qed

text \<open>Fewer than the threshold change nothing but the count; a full count from a clean record bans once.\<close>

lemma few_strikes:
  assumes "good b" and "ip \<noteq> 0" and "strikes b ip + int (length ts) < threshold"
    and "ban_run check strike (map (Strike ip) ts) b w = (b', w')"
  shows "good b' \<and> w' = w \<and> strikes b' ip = strikes b ip + int (length ts) \<and> ban_time b' ip = ban_time b ip"
  using run_strikes [OF assms(1,2,4) refl] assms(3) strikes_range [OF assms(1), of ip] by simp

text \<open>A check without a ban starts a clean record, so only the strikes after it count.\<close>

lemma strikes_after_check:
  assumes "good b" and "ip \<noteq> 0" and "\<not> fst (check ip now b)"
    and "ban_run check strike (map (Strike ip) ts) (snd (check ip now b)) w = (b', w')"
  shows "good b' \<and> w' = (fire ip ^^ nat (int (length ts) div threshold)) w
    \<and> ban_time b' ip = (if int (length ts) div threshold = 0 then 0
        else ts ! nat (threshold * (int (length ts) div threshold) - 1) + duration)"
  using run_strikes [OF check_good [OF assms(1)] assms(2,4) refl] check_clears [OF assms(1-3)] by simp

end

end
