(* ===== verification/Blacklist.thy ===== *)
theory Blacklist
  imports Ban_Policy
begin

text \<open>
  The blacklist of the Modbus server (\<open>app/modbus/modbus_server.c\<close>): sixteen entries found by
  address, a counter of illegal requests, a ban of 300 seconds with a firewall rule, and the
  removal of the rules. The firewall is the argument \<open>system\<close>: what the C library's call of
  that name answers for a command in a state of the world.
\<close>

section \<open>Entries\<close>

definition MODBUS_PORT :: string where "MODBUS_PORT = ''502''"
definition BLACKLIST_THRESHOLD :: int where "BLACKLIST_THRESHOLD = 5"
definition BLACKLIST_BAN_SEC :: int where "BLACKLIST_BAN_SEC = 300"
definition BLACKLIST_MAX :: nat where "BLACKLIST_MAX = 16"

record blacklist_entry =
  ip_addr :: u32
  err_count :: int
  ban_until :: int

definition zero_entry :: blacklist_entry where
  "zero_entry = \<lparr>ip_addr = 0, err_count = 0, ban_until = 0\<rparr>"

definition empty_blacklist :: "blacklist_entry list" where
  "empty_blacklist = replicate BLACKLIST_MAX zero_entry"

section \<open>Checking an address\<close>

text \<open>
  The loop over the entries: the first one with the address decides, and one whose ban is over
  (or that has none) is reset on the way.
\<close>

fun is_ip_banned :: "u32 \<Rightarrow> int \<Rightarrow> blacklist_entry list \<Rightarrow> bool \<times> blacklist_entry list" where
  "is_ip_banned ip now [] = (False, [])"
| "is_ip_banned ip now (e # es) =
     (if ip_addr e = ip then
        if now < ban_until e then (True, e # es)
        else (False, e\<lparr>err_count := 0, ban_until := 0\<rparr> # es)
      else let (b, es') = is_ip_banned ip now es in (b, e # es'))"

section \<open>Recording an illegal request\<close>

text \<open>The search for the slot: the entry of the address, else the first free one.\<close>

fun find_slot :: "u32 \<Rightarrow> nat \<Rightarrow> nat option \<Rightarrow> blacklist_entry list \<Rightarrow> nat option" where
  "find_slot ip i slot [] = slot"
| "find_slot ip i slot (e # es) =
     (if ip_addr e = ip then Some i
      else find_slot ip (Suc i) (if slot = None \<and> ip_addr e = 0 then Some i else slot) es)"

text \<open>The dotted notation of \<open>inet_ntoa\<close> for an address in host order.\<close>

definition inet_ntoa :: "u32 \<Rightarrow> string" where
  "inet_ntoa ip =
     (let b = (\<lambda>k. string_of_nat (unat ip div 256 ^ k mod 256)) in
      b 3 @ ''.'' @ b 2 @ ''.'' @ b 1 @ ''.'' @ b 0)"

text \<open>
  The address of a client, from the four bytes of the network in the memory of \<open>s_addr\<close>:
  \<open>ntohl\<close> is the value they have as digits to the base 256, highest first.
\<close>

definition ip_to_u32 :: "u8 list \<Rightarrow> u32" where
  "ip_to_u32 bytes = foldl (\<lambda>n b. n * 256 + of_nat (unat b)) 0 (take 4 bytes)"

text \<open>The rule that is appended for an address, and the two commands.\<close>

definition ban_rule :: "u32 \<Rightarrow> string" where
  "ban_rule ip = ''INPUT -s '' @ inet_ntoa ip @ '' -p tcp --dport '' @ MODBUS_PORT @ '' -j DROP''"

definition ban_command :: "u32 \<Rightarrow> string" where
  "ban_command ip = ''iptables -A '' @ ban_rule ip"

definition clear_rule :: string where
  "clear_rule = ''INPUT -p tcp --dport '' @ MODBUS_PORT @ '' -j DROP''"

definition clear_command :: string where
  "clear_command = ''iptables -D '' @ clear_rule @ '' 2>/dev/null''"

text \<open>So a rule names the client by the four numbers of its address, and no client has the address 0.0.0.0.\<close>

lemma unat_ip_to_u32:
  "unat (ip_to_u32 [a, b, c, d]) = ((unat a * 256 + unat b) * 256 + unat c) * 256 + unat d" (is "_ = ?n")
proof -
  have "unat a < 256" "unat b < 256" "unat c < 256" "unat d < 256"
    using unsigned_less [of a, where 'a = nat] unsigned_less [of b, where 'a = nat]
      unsigned_less [of c, where 'a = nat] unsigned_less [of d, where 'a = nat] by simp_all
  then have "?n < 2 ^ 32"
    by simp
  then have "unat (of_nat ?n :: u32) = ?n"
    by (simp only: unat_of_nat) simp
  moreover have "ip_to_u32 [a, b, c, d] = of_nat ?n"
    by (simp add: ip_to_u32_def)
  ultimately show ?thesis
    by simp
qed

lemma inet_ntoa_ip_to_u32:
  "inet_ntoa (ip_to_u32 [a, b, c, d])
    = string_of_nat (unat a) @ ''.'' @ string_of_nat (unat b) @ ''.'' @ string_of_nat (unat c) @ ''.'' @ string_of_nat (unat d)"
proof -
  have small: "unat a < 256" "unat b < 256" "unat c < 256" "unat d < 256"
    using unsigned_less [of a, where 'a = nat] unsigned_less [of b, where 'a = nat]
      unsigned_less [of c, where 'a = nat] unsigned_less [of d, where 'a = nat] by simp_all
  have last: "(x * 256 + y) div 256 = x" "(x * 256 + y) mod 256 = y" if "y < 256" for x y :: nat
    using that by simp_all
  have "x div 256 ^ 2 = x div 256 div 256" "x div 256 ^ 3 = x div 256 div 256 div 256" for x :: nat
    by (simp_all add: div_mult2_eq flip: mult_2_right)
  then show ?thesis
    using small unfolding inet_ntoa_def Let_def unat_ip_to_u32 by (simp only: last power_one_right power_0 div_by_1 mod_less)
qed

lemma ip_to_u32_eq_0: "ip_to_u32 [a, b, c, d] = 0 \<longleftrightarrow> [a, b, c, d] = [0, 0, 0, 0]"
  using unat_ip_to_u32 [of a b c d] by (auto simp flip: unat_eq_zero)

definition record_illegal_request ::
  "(string \<Rightarrow> 'w \<Rightarrow> int \<times> 'w) \<Rightarrow> u32 \<Rightarrow> int \<Rightarrow> blacklist_entry list \<Rightarrow> 'w
    \<Rightarrow> blacklist_entry list \<times> 'w" where
  "record_illegal_request system ip now bl world =
     (let (slot, bl) = (case find_slot ip 0 None bl of
                          Some i \<Rightarrow> (i, bl)
                        | None \<Rightarrow> (0, bl[0 := zero_entry]));
          e = (bl ! slot)\<lparr>ip_addr := ip, err_count := err_count (bl ! slot) + 1\<rparr> in
      if BLACKLIST_THRESHOLD \<le> err_count e
      then (bl[slot := e\<lparr>ban_until := now + BLACKLIST_BAN_SEC, err_count := 0\<rparr>],
            snd (system (ban_command ip) world))
      else (bl[slot := e], world))"

text \<open>
  \<open>while (system(cmd) == 0)\<close>: \<open>None\<close> when the fuel is used up, else the state of the world and
  the number of rules removed.
\<close>

fun clear_iptables_rules :: "(string \<Rightarrow> 'w \<Rightarrow> int \<times> 'w) \<Rightarrow> nat \<Rightarrow> 'w \<Rightarrow> (nat \<times> 'w) option" where
  "clear_iptables_rules system 0 world = None"
| "clear_iptables_rules system (Suc fuel) world =
     (let (rc, world') = system clear_command world in
      if rc = 0 then map_option (\<lambda>(n, w). (Suc n, w)) (clear_iptables_rules system fuel world')
      else Some (0, world'))"

section \<open>The entry of an address\<close>

text \<open>What the table says of an address: its first entry.\<close>

definition entry_of :: "blacklist_entry list \<Rightarrow> u32 \<Rightarrow> blacklist_entry option" where
  "entry_of bl ip = find (\<lambda>e. ip_addr e = ip) bl"

lemma entry_of_simps [simp]:
  "entry_of [] ip = None"
  "entry_of (e # es) ip = (if ip_addr e = ip then Some e else entry_of es ip)"
  by (simp_all add: entry_of_def)

lemma entry_of_ip: "entry_of bl ip = Some e \<Longrightarrow> ip_addr e = ip"
  by (induction bl) (auto split: if_splits)

lemma entry_of_None: "entry_of bl ip = None \<longleftrightarrow> ip \<notin> ip_addr ` set bl"
  by (induction bl) auto

text \<open>
  The invariant: sixteen entries, no address twice, every counter below the threshold, and a
  free entry has a clean counter.
\<close>

definition entry_ok :: "blacklist_entry \<Rightarrow> bool" where
  "entry_ok e \<longleftrightarrow> 0 \<le> err_count e \<and> err_count e < BLACKLIST_THRESHOLD
     \<and> (ip_addr e = 0 \<longrightarrow> err_count e = 0 \<and> ban_until e = 0)"

definition ips_distinct :: "blacklist_entry list \<Rightarrow> bool" where
  "ips_distinct bl \<longleftrightarrow> (\<forall>i < length bl. \<forall>j < length bl.
     ip_addr (bl ! i) = ip_addr (bl ! j) \<longrightarrow> i = j \<or> ip_addr (bl ! i) = 0)"

definition bl_ok :: "blacklist_entry list \<Rightarrow> bool" where
  "bl_ok bl \<longleftrightarrow> length bl = BLACKLIST_MAX \<and> ips_distinct bl \<and> (\<forall>e \<in> set bl. entry_ok e)"

lemma bl_ok_empty: "bl_ok empty_blacklist"
  by (simp add: bl_ok_def ips_distinct_def entry_ok_def empty_blacklist_def zero_entry_def
      BLACKLIST_THRESHOLD_def)

lemma bl_ok_distinct:
  "bl_ok bl \<Longrightarrow> i < length bl \<Longrightarrow> j < length bl \<Longrightarrow> ip_addr (bl ! i) = ip_addr (bl ! j)
    \<Longrightarrow> ip_addr (bl ! i) \<noteq> 0 \<Longrightarrow> i = j"
  unfolding bl_ok_def ips_distinct_def by blast

lemma bl_ok_nth: "bl_ok bl \<Longrightarrow> i < length bl \<Longrightarrow> entry_ok (bl ! i)"
  unfolding bl_ok_def by simp

lemma bl_ok_length: "bl_ok bl \<Longrightarrow> length bl = 16"
  unfolding bl_ok_def BLACKLIST_MAX_def by blast

lemma entry_of_Some_nth:
  "entry_of bl ip = Some e \<Longrightarrow> \<exists>i < length bl. bl ! i = e \<and> ip_addr e = ip"
  by (auto simp: entry_of_def find_Some_iff)

lemma entry_of_nth:
  assumes "bl_ok bl" and "i < length bl" and "ip_addr (bl ! i) \<noteq> 0"
  shows "entry_of bl (ip_addr (bl ! i)) = Some (bl ! i)"
proof -
  obtain e where e: "entry_of bl (ip_addr (bl ! i)) = Some e"
    using assms(2) entry_of_None [of bl "ip_addr (bl ! i)"] by (metis image_eqI not_Some_eq nth_mem)
  then obtain j where "j < length bl" "bl ! j = e" "ip_addr e = ip_addr (bl ! i)"
    using entry_of_Some_nth by blast
  then show ?thesis
    using e bl_ok_distinct [OF assms(1,2)] assms(3) by metis
qed

text \<open>Writing one slot, whose old address is the new one or not used.\<close>

lemma bl_ok_update:
  assumes "bl_ok bl" and "k < length bl" and "entry_ok e"
    and "\<And>j. j < length bl \<Longrightarrow> j \<noteq> k \<Longrightarrow> ip_addr (bl ! j) = ip_addr e \<Longrightarrow> ip_addr e = 0"
  shows "bl_ok (bl[k := e])"
proof -
  have "ips_distinct (bl[k := e])"
    unfolding ips_distinct_def
  proof (intro allI impI)
    fix i j
    assume ij: "i < length (bl[k := e])" "j < length (bl[k := e])"
      "ip_addr (bl[k := e] ! i) = ip_addr (bl[k := e] ! j)"
    show "i = j \<or> ip_addr (bl[k := e] ! i) = 0"
      using ij assms(2) assms(4) [of i] assms(4) [of j] bl_ok_distinct [OF assms(1), of i j]
      by (cases "i = k"; cases "j = k") auto
  qed
  moreover have "\<forall>x \<in> set (bl[k := e]). entry_ok x"
    using assms(1,3) set_update_subset_insert [of bl k e] unfolding bl_ok_def by blast
  ultimately show ?thesis
    using assms(1) by (simp add: bl_ok_def)
qed

lemma entry_of_update_same:
  assumes "bl_ok bl" and "k < length bl" and "entry_ok e" and "ip_addr e \<noteq> 0"
    and "\<And>j. j < length bl \<Longrightarrow> j \<noteq> k \<Longrightarrow> ip_addr (bl ! j) = ip_addr e \<Longrightarrow> ip_addr e = 0"
  shows "entry_of (bl[k := e]) (ip_addr e) = Some e"
  using entry_of_nth [OF bl_ok_update [OF assms(1,2,3,5)], where i = k] assms(2,4) by simp

lemma entry_of_update_other:
  "ip_addr e \<noteq> ip \<Longrightarrow> k < length bl \<Longrightarrow> ip_addr (bl ! k) \<noteq> ip \<Longrightarrow> entry_of (bl[k := e]) ip = entry_of bl ip"
proof (induction bl arbitrary: k)
  case (Cons x xs)
  then show ?case by (cases k) auto
qed simp

lemma entry_of_update_gone:
  assumes "bl_ok bl" and "k < length bl" and "ip_addr (bl ! k) \<noteq> 0" and "ip_addr e \<noteq> ip_addr (bl ! k)"
  shows "entry_of (bl[k := e]) (ip_addr (bl ! k)) = None"
proof -
  have "ip_addr x \<noteq> ip_addr (bl ! k)" if "x \<in> set (bl[k := e])" for x
  proof -
    obtain j where "j < length bl" "(bl[k := e]) ! j = x"
      using \<open>x \<in> set (bl[k := e])\<close> by (auto simp: in_set_conv_nth)
    then show ?thesis
      using assms bl_ok_distinct [OF assms(1,2), of j] by (cases "j = k") auto
  qed
  then show ?thesis
    by (force simp: entry_of_None)
qed

section \<open>What the operations do\<close>

definition reset_entry :: "blacklist_entry \<Rightarrow> blacklist_entry" where
  "reset_entry e = e\<lparr>err_count := 0, ban_until := 0\<rparr>"

lemma is_ip_banned_result:
  "fst (is_ip_banned ip now bl) \<longleftrightarrow> (\<exists>e. entry_of bl ip = Some e \<and> now < ban_until e)"
  by (induction bl) (auto simp: Let_def split: prod.splits)

lemma is_ip_banned_cases:
  obtains (unknown) "entry_of bl ip = None" "is_ip_banned ip now bl = (False, bl)"
  | (banned) e where "entry_of bl ip = Some e" "now < ban_until e" "is_ip_banned ip now bl = (True, bl)"
  | (reset) k where "k < length bl" "entry_of bl ip = Some (bl ! k)" "ip_addr (bl ! k) = ip"
      "\<not> now < ban_until (bl ! k)" "is_ip_banned ip now bl = (False, bl[k := reset_entry (bl ! k)])"
proof -
  have "(entry_of bl ip = None \<and> is_ip_banned ip now bl = (False, bl))
    \<or> (\<exists>e. entry_of bl ip = Some e \<and> now < ban_until e \<and> is_ip_banned ip now bl = (True, bl))
    \<or> (\<exists>k < length bl. entry_of bl ip = Some (bl ! k) \<and> ip_addr (bl ! k) = ip
        \<and> \<not> now < ban_until (bl ! k) \<and> is_ip_banned ip now bl = (False, bl[k := reset_entry (bl ! k)]))"
  proof (induction bl)
    case (Cons e es)
    show ?case
    proof (cases "ip_addr e = ip")
      case True
      then show ?thesis
        by (auto simp: reset_entry_def intro!: exI [of _ 0])
    next
      case False
      with Cons show ?thesis
        by (auto simp: Let_def split: prod.splits)
    qed
  qed simp
  then show ?thesis
    using unknown banned reset by blast
qed

lemma find_slot_known:
  "ip \<in> ip_addr ` set bl \<Longrightarrow>
    \<exists>k < length bl. find_slot ip i slot bl = Some (i + k) \<and> ip_addr (bl ! k) = ip"
proof (induction bl arbitrary: i slot)
  case (Cons e es)
  show ?case
  proof (cases "ip_addr e = ip")
    case True
    then show ?thesis by (intro exI [of _ 0]) simp
  next
    case False
    then obtain k where "k < length es" "ip_addr (es ! k) = ip"
      "find_slot ip (Suc i) (if slot = None \<and> ip_addr e = 0 then Some i else slot) es = Some (Suc i + k)"
      using Cons.IH [of "Suc i" "if slot = None \<and> ip_addr e = 0 then Some i else slot"] Cons.prems by auto
    then show ?thesis
      using False by (intro exI [of _ "Suc k"]) simp
  qed
qed simp

lemma find_slot_chosen: "ip \<notin> ip_addr ` set bl \<Longrightarrow> find_slot ip i (Some k) bl = Some k"
  by (induction bl arbitrary: i) auto

lemma find_slot_free:
  "ip \<notin> ip_addr ` set bl \<Longrightarrow> 0 \<in> ip_addr ` set bl \<Longrightarrow>
    \<exists>k < length bl. find_slot ip i None bl = Some (i + k) \<and> ip_addr (bl ! k) = 0"
proof (induction bl arbitrary: i)
  case (Cons e es)
  show ?case
  proof (cases "ip_addr e = 0")
    case True
    then show ?thesis
      using Cons.prems by (intro exI [of _ 0]) (auto simp: find_slot_chosen)
  next
    case False
    then obtain k where "k < length es" "find_slot ip (Suc i) None es = Some (Suc i + k)" "ip_addr (es ! k) = 0"
      using Cons.IH [of "Suc i"] Cons.prems by auto
    moreover have "ip_addr e \<noteq> ip"
      using Cons.prems(1) by auto
    ultimately show ?thesis
      using False by (intro exI [of _ "Suc k"]) simp
  qed
qed simp

lemma find_slot_full:
  "ip \<notin> ip_addr ` set bl \<Longrightarrow> 0 \<notin> ip_addr ` set bl \<Longrightarrow> find_slot ip i None bl = None"
  by (induction bl arbitrary: i) auto

text \<open>The three ways a slot is found.\<close>

definition chosen_slot :: "u32 \<Rightarrow> blacklist_entry list \<Rightarrow> nat \<times> blacklist_entry list" where
  "chosen_slot ip bl =
     (case find_slot ip 0 None bl of Some i \<Rightarrow> (i, bl) | None \<Rightarrow> (0, bl[0 := zero_entry]))"

lemma chosen_slot_cases:
  assumes "bl_ok bl" and "ip \<noteq> 0"
  obtains (known) k where "k < length bl" "ip_addr (bl ! k) = ip" "entry_of bl ip = Some (bl ! k)"
      "chosen_slot ip bl = (k, bl)"
  | (free) k where "k < length bl" "ip_addr (bl ! k) = 0" "entry_of bl ip = None" "chosen_slot ip bl = (k, bl)"
  | (full) "entry_of bl ip = None" "0 \<notin> ip_addr ` set bl" "chosen_slot ip bl = (0, bl[0 := zero_entry])"
proof (cases "ip \<in> ip_addr ` set bl")
  case True
  then obtain k where "k < length bl" "find_slot ip 0 None bl = Some k" "ip_addr (bl ! k) = ip"
    using find_slot_known [of ip bl 0 None] by auto
  then show ?thesis
    using known entry_of_nth [OF assms(1)] assms(2) by (auto simp: chosen_slot_def)
next
  case False
  note out = this
  show ?thesis
  proof (cases "0 \<in> ip_addr ` set bl")
    case True
    then obtain k where "k < length bl" "find_slot ip 0 None bl = Some k" "ip_addr (bl ! k) = 0"
      using find_slot_free [OF out, of 0] by auto
    then show ?thesis
      using free out by (auto simp: chosen_slot_def entry_of_None)
  next
    case False
    then show ?thesis
      using full out find_slot_full [OF out False] by (simp add: chosen_slot_def entry_of_None)
  qed
qed

text \<open>The counter and the ban an address starts a request with.\<close>

definition strikes :: "blacklist_entry list \<Rightarrow> u32 \<Rightarrow> int" where
  "strikes bl ip = (case entry_of bl ip of None \<Rightarrow> 0 | Some e \<Rightarrow> err_count e)"

definition ban_time :: "blacklist_entry list \<Rightarrow> u32 \<Rightarrow> int" where
  "ban_time bl ip = (case entry_of bl ip of None \<Rightarrow> 0 | Some e \<Rightarrow> ban_until e)"

lemma empty_ban_time: "ip \<noteq> 0 \<Longrightarrow> ban_time empty_blacklist ip = 0"
  by (simp add: ban_time_def empty_blacklist_def zero_entry_def BLACKLIST_MAX_def eval_nat_numeral)

definition struck_entry :: "blacklist_entry list \<Rightarrow> u32 \<Rightarrow> int \<Rightarrow> blacklist_entry" where
  "struck_entry bl ip now =
     (if BLACKLIST_THRESHOLD \<le> strikes bl ip + 1
      then \<lparr>ip_addr = ip, err_count = 0, ban_until = now + BLACKLIST_BAN_SEC\<rparr>
      else \<lparr>ip_addr = ip, err_count = strikes bl ip + 1, ban_until = ban_time bl ip\<rparr>)"

lemma strikes_nonneg: "bl_ok bl \<Longrightarrow> 0 \<le> strikes bl ip"
  using bl_ok_nth entry_of_Some_nth by (fastforce simp: strikes_def entry_ok_def split: option.splits)

lemma struck_entry_ok: "bl_ok bl \<Longrightarrow> ip \<noteq> 0 \<Longrightarrow> entry_ok (struck_entry bl ip now)"
  using strikes_nonneg [of bl ip] by (simp add: struck_entry_def entry_ok_def BLACKLIST_THRESHOLD_def)

lemma struck_entry_ip [simp]: "ip_addr (struck_entry bl ip now) = ip"
  by (simp add: struck_entry_def)

text \<open>The whole operation: one slot gets the struck entry, the command is issued on a ban.\<close>

lemma entry_fields:
  "e\<lparr>ip_addr := ip, err_count := n\<rparr> = \<lparr>ip_addr = ip, err_count = n, ban_until = ban_until e\<rparr>"
  "e\<lparr>ip_addr := ip, err_count := n, ban_until := t, err_count := m\<rparr> = \<lparr>ip_addr = ip, err_count = m, ban_until = t\<rparr>"
  for e :: blacklist_entry
  by (cases e; simp)+

lemma record_illegal_request_slot:
  assumes "chosen_slot ip bl = (k, bl')" and "err_count (bl' ! k) = strikes bl ip"
    and "ban_until (bl' ! k) = ban_time bl ip"
  shows "record_illegal_request system ip now bl world =
    (bl'[k := struck_entry bl ip now],
     if BLACKLIST_THRESHOLD \<le> strikes bl ip + 1 then snd (system (ban_command ip) world) else world)"
  unfolding record_illegal_request_def chosen_slot_def [symmetric]
  by (simp add: assms Let_def entry_fields struck_entry_def)

lemma record_illegal_request_eq:
  assumes "bl_ok bl" and "ip \<noteq> 0"
  shows "record_illegal_request system ip now bl world =
    (bl[fst (chosen_slot ip bl) := struck_entry bl ip now],
     if BLACKLIST_THRESHOLD \<le> strikes bl ip + 1 then snd (system (ban_command ip) world) else world)"
  using assms
proof (cases rule: chosen_slot_cases)
  case (known k)
  show ?thesis
    by (subst record_illegal_request_slot [OF known(4)])
      (simp_all add: strikes_def ban_time_def known)
next
  case (free k)
  then have "err_count (bl ! k) = 0" "ban_until (bl ! k) = 0"
    using bl_ok_nth [OF assms(1), of k] by (simp_all add: entry_ok_def)
  then show ?thesis
    by (subst record_illegal_request_slot [OF free(4)])
      (simp_all add: strikes_def ban_time_def free)
next
  case full
  have "0 < length bl"
    using bl_ok_length [OF assms(1)] by simp
  then show ?thesis
    by (subst record_illegal_request_slot [OF full(3)])
      (simp_all add: strikes_def ban_time_def full zero_entry_def)
qed

lemma chosen_slot_unused:
  assumes "bl_ok bl" and "ip \<noteq> 0"
  shows "fst (chosen_slot ip bl) < length bl"
    and "j < length bl \<Longrightarrow> j \<noteq> fst (chosen_slot ip bl) \<Longrightarrow> ip_addr (bl ! j) \<noteq> ip"
proof -
  have none: "entry_of bl ip = None \<Longrightarrow> j < length bl \<Longrightarrow> ip_addr (bl ! j) \<noteq> ip" for j
    by (auto simp: entry_of_None)
  show "fst (chosen_slot ip bl) < length bl"
    using assms by (cases rule: chosen_slot_cases) (use bl_ok_length [OF assms(1)] in auto)
  show "ip_addr (bl ! j) \<noteq> ip" if j: "j < length bl" "j \<noteq> fst (chosen_slot ip bl)"
    using assms
  proof (cases rule: chosen_slot_cases)
    case (known k)
    then show ?thesis
      using j bl_ok_distinct [OF assms(1), of j k] assms(2) by auto
  qed (use none j in auto)
qed

lemma record_illegal_request_ok:
  assumes "bl_ok bl" and "ip \<noteq> 0"
  shows "bl_ok (fst (record_illegal_request system ip now bl world))"
    and "entry_of (fst (record_illegal_request system ip now bl world)) ip = Some (struck_entry bl ip now)"
proof -
  let ?e = "struck_entry bl ip now"
  have slot: "fst (chosen_slot ip bl) < length bl" "entry_ok ?e" "ip_addr ?e \<noteq> 0"
    "\<And>j. j < length bl \<Longrightarrow> j \<noteq> fst (chosen_slot ip bl) \<Longrightarrow> ip_addr (bl ! j) = ip_addr ?e \<Longrightarrow> ip_addr ?e = 0"
    using chosen_slot_unused [OF assms] struck_entry_ok [OF assms] assms(2) by simp_all
  show "bl_ok (fst (record_illegal_request system ip now bl world))"
    unfolding record_illegal_request_eq [OF assms] fst_conv
    using slot(4) by (rule bl_ok_update [OF assms(1) slot(1,2)])
  have "entry_of (bl[fst (chosen_slot ip bl) := ?e]) (ip_addr ?e) = Some ?e"
    using slot(4) by (rule entry_of_update_same [OF assms(1) slot(1,2,3)])
  then show "entry_of (fst (record_illegal_request system ip now bl world)) ip = Some ?e"
    unfolding record_illegal_request_eq [OF assms] fst_conv by simp
qed

lemma is_ip_banned_ok: "bl_ok bl \<Longrightarrow> bl_ok (snd (is_ip_banned ip now bl))"
proof (cases rule: is_ip_banned_cases [of bl ip now])
  case (reset k)
  assume ok: "bl_ok bl"
  have "entry_ok (reset_entry (bl ! k))"
    by (simp add: reset_entry_def entry_ok_def BLACKLIST_THRESHOLD_def)
  moreover have "ip_addr (bl ! j) = ip_addr (reset_entry (bl ! k)) \<Longrightarrow> ip_addr (reset_entry (bl ! k)) = 0"
    if "j < length bl" "j \<noteq> k" for j
    using bl_ok_distinct [OF ok that(1) reset(1)] that(2) by (auto simp: reset_entry_def)
  ultimately have "bl_ok (bl[k := reset_entry (bl ! k)])"
    by (rule bl_ok_update [OF ok reset(1)])
  then show ?thesis
    by (simp add: reset(5))
qed simp_all

text \<open>A check that finds no ban leaves the address with a clean record.\<close>

lemma is_ip_banned_entry:
  assumes "bl_ok bl" and "ip \<noteq> 0" and "\<not> fst (is_ip_banned ip now bl)"
  shows "strikes (snd (is_ip_banned ip now bl)) ip = 0 \<and> ban_time (snd (is_ip_banned ip now bl)) ip = 0"
proof (cases rule: is_ip_banned_cases [of bl ip now])
  case (reset k)
  let ?e = "reset_entry (bl ! k)"
  have e: "ip_addr ?e = ip" "entry_ok ?e"
    using reset(3) by (simp_all add: reset_entry_def entry_ok_def BLACKLIST_THRESHOLD_def)
  have "ip_addr (bl ! j) = ip_addr ?e \<Longrightarrow> ip_addr ?e = 0" if "j < length bl" "j \<noteq> k" for j
    using bl_ok_distinct [OF assms(1) that(1) reset(1)] that(2) by (auto simp: reset_entry_def)
  then have "entry_of (bl[k := ?e]) (ip_addr ?e) = Some ?e"
    using e assms(2) by (intro entry_of_update_same [OF assms(1) reset(1)]) simp_all
  then show ?thesis
    unfolding e by (simp add: reset(5) strikes_def ban_time_def) (simp add: reset_entry_def)
qed (use assms in \<open>auto simp: strikes_def ban_time_def\<close>)

lemma is_ip_banned_ban_time:
  "0 \<le> now \<Longrightarrow> fst (is_ip_banned ip now bl) \<longleftrightarrow> now < ban_time bl ip"
  by (auto simp: is_ip_banned_result ban_time_def split: option.splits)

lemma is_ip_banned_same: "fst (is_ip_banned ip now bl) \<Longrightarrow> snd (is_ip_banned ip now bl) = bl"
  by (induction bl) (auto simp: Let_def split: prod.splits if_splits)

lemma strikes_struck:
  "entry_of bl ip = Some (struck_entry bl0 ip now) \<Longrightarrow>
    strikes bl ip = (if BLACKLIST_THRESHOLD \<le> strikes bl0 ip + 1 then 0 else strikes bl0 ip + 1)
    \<and> ban_time bl ip = (if BLACKLIST_THRESHOLD \<le> strikes bl0 ip + 1 then now + BLACKLIST_BAN_SEC
        else ban_time bl0 ip)"
  by (auto simp: strikes_def [of bl] ban_time_def [of bl] struck_entry_def)

lemma strikes_bounds:
  assumes "bl_ok bl"
  shows "0 \<le> strikes bl ip \<and> strikes bl ip < BLACKLIST_THRESHOLD"
proof (cases "entry_of bl ip")
  case (Some e)
  then have "entry_ok e"
    using bl_ok_nth [OF assms] entry_of_Some_nth by fastforce
  then show ?thesis
    using Some by (simp add: strikes_def entry_ok_def)
qed (simp add: strikes_def BLACKLIST_THRESHOLD_def)

section \<open>The contract\<close>

text \<open>What a ban does to the world: the command, whatever it answers.\<close>

definition fire_ban :: "(string \<Rightarrow> 'w \<Rightarrow> int \<times> 'w) \<Rightarrow> u32 \<Rightarrow> 'w \<Rightarrow> 'w" where
  "fire_ban system ip w = snd (system (ban_command ip) w)"

lemma record_illegal_request_result:
  assumes "bl_ok bl" and "ip \<noteq> 0" and "record_illegal_request system ip now bl w = (bl', w')"
  shows "strikes bl' ip = (if BLACKLIST_THRESHOLD \<le> strikes bl ip + 1 then 0 else strikes bl ip + 1)
    \<and> ban_time bl' ip = (if BLACKLIST_THRESHOLD \<le> strikes bl ip + 1 then now + BLACKLIST_BAN_SEC else ban_time bl ip)
    \<and> w' = (if BLACKLIST_THRESHOLD \<le> strikes bl ip + 1 then fire_ban system ip w else w)"
  using strikes_struck [OF record_illegal_request_ok(2) [OF assms(1,2), of system now w]]
    record_illegal_request_eq [OF assms(1,2), of system now w]
  by (simp add: assms(3) fire_ban_def)

text \<open>The table of the code keeps the contract of the server, whatever \<open>system\<close> does.\<close>

interpretation bans: ban_policy is_ip_banned "record_illegal_request system" bl_ok strikes ban_time
  "fire_ban system" BLACKLIST_THRESHOLD BLACKLIST_BAN_SEC for system
proof
  show "bl_ok b \<Longrightarrow> bl_ok (snd (is_ip_banned ip now b))" for b ip now
    by (rule is_ip_banned_ok)
  show "0 \<le> now \<Longrightarrow> fst (is_ip_banned ip now b) \<longleftrightarrow> now < ban_time b ip" for b ip now
    by (rule is_ip_banned_ban_time)
  show "fst (is_ip_banned ip now b) \<Longrightarrow> snd (is_ip_banned ip now b) = b" for b ip now
    by (rule is_ip_banned_same)
qed (use is_ip_banned_entry strikes_bounds record_illegal_request_ok(1) record_illegal_request_result in \<open>fastforce+\<close>)

abbreviation bl_run :: "(string \<Rightarrow> 'w \<Rightarrow> int \<times> 'w) \<Rightarrow> ban_op list \<Rightarrow> blacklist_entry list \<Rightarrow> 'w
    \<Rightarrow> blacklist_entry list \<times> 'w" where
  "bl_run system \<equiv> ban_run is_ip_banned (record_illegal_request system)"

lemma empty_blacklist_clean [simp]: "strikes empty_blacklist ip = 0" "ban_time empty_blacklist ip = 0"
proof -
  have "e = zero_entry" if "entry_of empty_blacklist ip = Some e" for e
    using that by (auto simp: empty_blacklist_def entry_of_def find_Some_iff)
  then show "strikes empty_blacklist ip = 0" "ban_time empty_blacklist ip = 0"
    by (auto simp: strikes_def ban_time_def zero_entry_def split: option.splits)
qed

section \<open>Properties\<close>

text \<open>
  Whatever is checked and recorded, the blacklist keeps its invariant: sixteen entries, no
  address in two of them, every error count below the threshold.
\<close>

theorem blacklist_invariant:
  assumes "\<forall>op\<in>set ops. real_op op"
  shows "bl_ok (fst (bl_run system ops empty_blacklist world))"
  using assms by (rule bans.run_good [OF bl_ok_empty])

theorem blacklist_invariant_witness:
  "bl_ok (fst (bl_run (\<lambda>cmd w. (0, w @ [cmd]))
     [Check 7 10, Strike 7 11, Strike 7 12, Strike 8 13, Strike 7 14, Strike 7 15, Strike 7 16, Check 7 17]
     empty_blacklist []))"
  by (rule blacklist_invariant) simp

text \<open>A firewall that is its list of rules.\<close>

definition list_system :: "string \<Rightarrow> string list \<Rightarrow> int \<times> string list" where
  "list_system cmd rules =
     (if cmd = clear_command
      then if clear_rule \<in> set rules then (0, remove1 clear_rule rules) else (1, rules)
      else (0, rules @ [drop 12 cmd]))"

lemma list_system_ban [simp]: "list_system (ban_command ip) rules = (0, rules @ [ban_rule ip])"
  by (simp add: list_system_def ban_command_def clear_command_def)

text \<open>
  A full table forgets: when sixteen other addresses fill it, an illegal request from a
  seventeenth overwrites the first entry, and the address that was there is no longer banned.
\<close>

theorem full_table_evicts:
  assumes "bl_ok bl" and "0 \<notin> ip_addr ` set bl" and "ip \<notin> ip_addr ` set bl" and "ip \<noteq> 0"
  shows "entry_of bl (ip_addr (bl ! 0)) = Some (bl ! 0)
    \<and> \<not> fst (is_ip_banned (ip_addr (bl ! 0)) now (fst (record_illegal_request system ip t bl world)))"
proof -
  have len: "0 < length bl"
    using bl_ok_length [OF assms(1)] by simp
  have first: "ip_addr (bl ! 0) \<noteq> 0" "ip_addr (bl ! 0) \<noteq> ip"
    using assms(2,3) len by (metis image_eqI nth_mem)+
  have "chosen_slot ip bl = (0, bl[0 := zero_entry])"
    using find_slot_full [OF assms(3,2)] by (simp add: chosen_slot_def)
  then have "fst (record_illegal_request system ip t bl world) = bl[0 := struck_entry bl ip t]"
    by (simp add: record_illegal_request_eq [OF assms(1,4)])
  then show ?thesis
    using entry_of_nth [OF assms(1) len first(1)]
      entry_of_update_gone [OF assms(1) len first(1), of "struck_entry bl ip t"] first(2)
    by (auto simp: is_ip_banned_result)
qed

lemma ips_distinctI: "distinct (map ip_addr bl) \<Longrightarrow> ips_distinct bl"
  unfolding ips_distinct_def by (metis length_map nth_eq_iff_index_eq nth_map)

theorem full_table_evicts_witness:
  "\<exists>bl. entry_of bl 1 = Some \<lparr>ip_addr = 1, err_count = 0, ban_until = 1000\<rparr> \<and> fst (is_ip_banned 1 500 bl)
     \<and> \<not> fst (is_ip_banned 1 500 (fst (record_illegal_request list_system 99 400 bl [])))"
proof -
  let ?e = "\<lambda>ip. \<lparr>ip_addr = ip, err_count = 0, ban_until = 1000\<rparr>"
  let ?bl = "map ?e [1, 2, 3, 4, 5, 6, 7, 8, 9, 10, 11, 12, 13, 14, 15, 16]"
  have "ips_distinct ?bl"
    by (rule ips_distinctI) simp
  then have ok: "bl_ok ?bl"
    by (simp add: bl_ok_def entry_ok_def BLACKLIST_MAX_def BLACKLIST_THRESHOLD_def)
  have free: "0 \<notin> ip_addr ` set ?bl" "99 \<notin> ip_addr ` set ?bl" "(99 :: u32) \<noteq> 0"
    by simp_all
  show ?thesis
    using full_table_evicts [OF ok free, of 500 list_system 400 "[]"]
    by (intro exI [of _ ?bl]) simp
qed

text \<open>
  What the manual of iptables says of the two commands the program uses: \<open>-A\<close> appends the rule;
  \<open>-D\<close> removes the first rule that is the same as its specification and fails if there is none.
\<close>

definition iptables_ok :: "(string \<Rightarrow> 'w \<Rightarrow> int \<times> 'w) \<Rightarrow> ('w \<Rightarrow> string list) \<Rightarrow> bool" where
  "iptables_ok system rules \<longleftrightarrow>
     (\<forall>ip w. rules (snd (system (ban_command ip) w)) = rules w @ [ban_rule ip])
     \<and> (\<forall>w. clear_rule \<in> set (rules w) \<longrightarrow>
          fst (system clear_command w) = 0 \<and> rules (snd (system clear_command w)) = remove1 clear_rule (rules w))
     \<and> (\<forall>w. clear_rule \<notin> set (rules w) \<longrightarrow>
          fst (system clear_command w) \<noteq> 0 \<and> rules (snd (system clear_command w)) = rules w)"

lemma ban_rule_not_clear_rule: "ban_rule ip \<noteq> clear_rule"
  by (simp add: ban_rule_def clear_rule_def)

lemma count_list_remove1: "x \<in> set xs \<Longrightarrow> count_list xs x = Suc (count_list (remove1 x xs) x)"
  by (induction xs) auto

lemma clear_iptables_rules_ok:
  assumes "iptables_ok system rules" and "count_list (rules world) clear_rule < fuel"
  shows "\<exists>world'. clear_iptables_rules system fuel world = Some (count_list (rules world) clear_rule, world')
    \<and> rules world' = filter (\<lambda>r. r \<noteq> clear_rule) (rules world)"
  using assms(2)
proof (induction fuel arbitrary: world)
  case (Suc fuel)
  show ?case
  proof (cases "clear_rule \<in> set (rules world)")
    case False
    then have "count_list (rules world) clear_rule = 0" "filter (\<lambda>r. r \<noteq> clear_rule) (rules world) = rules world"
      by (auto simp: filter_id_conv)
    then show ?thesis
      using assms(1) False by (cases "system clear_command world") (fastforce simp: iptables_ok_def)
  next
    case True
    obtain world1 where w1: "system clear_command world = (0, world1)" "rules world1 = remove1 clear_rule (rules world)"
      using assms(1) True by (cases "system clear_command world") (fastforce simp: iptables_ok_def)
    have count: "count_list (rules world) clear_rule = Suc (count_list (rules world1) clear_rule)"
      using True unfolding w1(2) by (rule count_list_remove1)
    have rest: "filter (\<lambda>r. r \<noteq> clear_rule) (rules world1) = filter (\<lambda>r. r \<noteq> clear_rule) (rules world)"
      unfolding w1(2) by (simp add: filter_remove1)
    show ?thesis
      using Suc.IH [of world1] Suc.prems w1(1) count rest by auto
  qed
qed simp

text \<open>
  C31. The clean-up ends, after removing exactly the rules that are the same as its own: a number
  of rounds that is one more than the copies of that rule is enough, every other rule stays, and
  so do all the rules the bans appended, which have a source address where it has none.
\<close>

theorem clear_rules_exact:
  assumes "iptables_ok system rules" and "count_list (rules world) clear_rule < fuel"
  shows "\<exists>world'. clear_iptables_rules system fuel world = Some (count_list (rules world) clear_rule, world')
    \<and> rules world' = filter (\<lambda>r. r \<noteq> clear_rule) (rules world)
    \<and> (\<forall>ip. count_list (rules world') (ban_rule ip) = count_list (rules world) (ban_rule ip))"
proof -
  have "count_list (filter (\<lambda>r. r \<noteq> clear_rule) rs) (ban_rule ip) = count_list rs (ban_rule ip)" for rs ip
    using ban_rule_not_clear_rule [of ip] by (induction rs) auto
  then show ?thesis
    using clear_iptables_rules_ok [OF assms] by fastforce
qed

lemma list_system_ok: "iptables_ok list_system (\<lambda>rules. rules)"
  by (simp add: iptables_ok_def) (simp add: list_system_def)

theorem clear_rules_exact_witness:
  "\<exists>rules. clear_iptables_rules list_system 3 [clear_rule, ban_rule 7, clear_rule] = Some (2, rules) \<and> rules = [ban_rule 7]"
  using clear_rules_exact [OF list_system_ok, of "[clear_rule, ban_rule 7, clear_rule]" 3] ban_rule_not_clear_rule [of 7]
  by auto

end
