(* ===== verification/Row_Sink.thy ===== *)
theory Row_Sink
  imports Edge_Prelude
begin

text \<open>
  The contract between the collector thread, which hands over rows, and the database layer
  (\<open>app/include/db_manager.h\<close>), which accepts them: a service that answers 0 to every operation, and
  its extension by the rows the service is answerable for. \<open>Db_Manager\<close> discharges the laws.
\<close>

section \<open>Runs of operations\<close>

text \<open>The answers of the calls and the state behind them; \<open>None\<close> as soon as a call is undefined.\<close>

fun run_all :: "('o \<Rightarrow> 's \<Rightarrow> (int \<times> 's) option) \<Rightarrow> 'o list \<Rightarrow> 's \<Rightarrow> (int list \<times> 's) option" where
  "run_all step [] s = Some ([], s)"
| "run_all step (op # ops) s =
     (case step op s of
        None \<Rightarrow> None
      | Some (rc, s') \<Rightarrow> map_option (\<lambda>(rcs, s''). (rc # rcs, s'')) (run_all step ops s'))"

lemma run_all_append:
  "run_all step (ops @ ops') s =
    (case run_all step ops s of
       None \<Rightarrow> None
     | Some (rcs, s') \<Rightarrow> map_option (\<lambda>(rcs', s''). (rcs @ rcs', s'')) (run_all step ops' s'))"
proof (induction ops arbitrary: s)
  case Nil
  show ?case
    by (simp add: option.map_ident_strong split_beta)
next
  case (Cons op ops)
  then show ?case
    by (auto simp: option.map_comp o_def split_beta split: option.split)
qed

lemma fold_no_effect [simp]: "fold (\<lambda>_ x. x) xs y = y"
  by (induction xs) simp_all

section \<open>A service that never refuses\<close>

text \<open>\<open>view\<close> is what an observer sees of the state, \<open>effect\<close> what an operation does to it.\<close>

locale service =
  fixes step :: "'o \<Rightarrow> 's \<Rightarrow> (int \<times> 's) option" and good :: "'s \<Rightarrow> bool" and view :: "'s \<Rightarrow> 'a"
    and effect :: "'o \<Rightarrow> 'a \<Rightarrow> 'a"
  assumes step_serves: "good s \<Longrightarrow> \<exists>s'. step op s = Some (0, s') \<and> good s' \<and> view s' = effect op (view s)"
begin

lemma run_serves:
  "good s \<Longrightarrow> \<exists>s'. run_all step ops s = Some (replicate (length ops) 0, s') \<and> good s' \<and> view s' = fold effect ops (view s)"
proof (induction ops arbitrary: s)
  case (Cons op ops)
  obtain s1 where s1: "step op s = Some (0, s1)" "good s1" "view s1 = effect op (view s)"
    using step_serves [OF Cons.prems] by blast
  then show ?case
    using Cons.IH [OF s1(2)] by auto
qed simp

end

section \<open>A sink of rows\<close>

locale row_sink = service step good rows "\<lambda>op rs. rs @ new_rows op"
  for step :: "'o \<Rightarrow> 's \<Rightarrow> (int \<times> 's) option" and good :: "'s \<Rightarrow> bool" and rows :: "'s \<Rightarrow> 'r list"
    and new_rows :: "'o \<Rightarrow> 'r list" +
  fixes finish :: "'s \<Rightarrow> 's" and final :: "'s \<Rightarrow> 'r list"
  assumes finish_keeps: "good s \<Longrightarrow> final (finish s) = rows s"
begin

lemma fold_rows: "fold (\<lambda>op rs. rs @ new_rows op) ops rs = rs @ concat (map new_rows ops)"
  by (induction ops arbitrary: rs) simp_all

lemma run_keeps_rows:
  assumes "good s"
  obtains s' where "run_all step ops s = Some (replicate (length ops) 0, s')" "good s'"
    "rows s' = rows s @ concat (map new_rows ops)" "final (finish s') = rows s @ concat (map new_rows ops)"
  using run_serves [OF assms, of ops] finish_keeps unfolding fold_rows by metis

end

end
