(* ===== verification/Db_Manager.thy ===== *)
theory Db_Manager
  imports Row_Sink "HOL-Library.State_Monad"
begin

text \<open>
  The database layer of \<open>app/core/db_manager.c\<close>: a batch buffer of ten sensor rows in front of
  SQLite, alarms, the integrity check with restore, the backup and the vacuum.

  SQLite and the operating system are the argument \<open>api\<close>, a record of the calls the file makes,
  each a computation on an abstract state of the world. Connections and statements are the
  pointers the calls hand out, NULL is \<open>None\<close>. A \<open>double\<close> is only passed on: its type is a
  parameter.
\<close>

section \<open>The calls\<close>

definition SQLITE_OK :: int where "SQLITE_OK = 0"
definition SQLITE_ROW :: int where "SQLITE_ROW = 100"
definition SQLITE_DONE :: int where "SQLITE_DONE = 101"

datatype 'v sql_value = SQL_int int | SQL_text string | SQL_double 'v

record ('v, 'w) sqlite =
  sqlite3_open :: "string \<Rightarrow> ('w, int \<times> nat option) state"
  sqlite3_exec :: "nat option \<Rightarrow> string \<Rightarrow> ('w, int) state"
  sqlite3_prepare :: "nat option \<Rightarrow> string \<Rightarrow> ('w, int \<times> nat option) state"
  sqlite3_bind :: "nat option \<Rightarrow> nat \<Rightarrow> 'v sql_value \<Rightarrow> ('w, int) state"
  sqlite3_step :: "nat option \<Rightarrow> ('w, int) state"
  sqlite3_reset :: "nat option \<Rightarrow> ('w, int) state"
  sqlite3_finalize :: "nat option \<Rightarrow> ('w, int) state"
  sqlite3_column_text :: "nat option \<Rightarrow> nat \<Rightarrow> ('w, string option) state"
  sqlite3_close :: "nat option \<Rightarrow> ('w, int) state"
  sqlite3_wal_checkpoint :: "nat option \<Rightarrow> ('w, int) state"
  sqlite3_backup_init :: "nat option \<Rightarrow> nat option \<Rightarrow> ('w, nat option) state"
  sqlite3_backup_step :: "nat \<Rightarrow> int \<Rightarrow> ('w, int) state"
  sqlite3_backup_finish :: "nat \<Rightarrow> ('w, int) state"
  os_access :: "string \<Rightarrow> ('w, int) state"
  os_rename :: "string \<Rightarrow> string \<Rightarrow> ('w, int) state"
  clock_monotonic :: "('w, timespec) state"

section \<open>State\<close>

definition BATCH_SIZE :: nat where "BATCH_SIZE = 10"
definition BATCH_TIMEOUT_MS :: int where "BATCH_TIMEOUT_MS = 50"

record 'v sensor_record =
  sr_timestamp :: int
  sr_sensor_type :: string
  sr_channel :: string
  sr_value :: 'v

record ('v, 'w) db_state =
  db :: "nat option"
  batch_buffer :: "'v sensor_record list"
  batch_count :: nat
  last_flush_time :: timespec
  db_world :: 'w

text \<open>A call of the library from the functions below, which own the static variables.\<close>

definition call :: "('w, 'a) state \<Rightarrow> (('v, 'w) db_state, 'a) state" where
  "call m = State (\<lambda>st. let (x, w) = run_state m (db_world st) in (x, st\<lparr>db_world := w\<rparr>))"

section \<open>Operations\<close>

definition exec_sql :: "('v, 'w) sqlite \<Rightarrow> string \<Rightarrow> (('v, 'w) db_state, int) state" where
  "exec_sql api sql = do {
     st \<leftarrow> State_Monad.get;
     rc \<leftarrow> call (sqlite3_exec api (db st) sql);
     State_Monad.return (if rc \<noteq> SQLITE_OK then -1 else 0)
   }"

text \<open>The statements of \<open>db_init\<close>, each of which must succeed before the next is tried.\<close>

fun exec_each :: "('v, 'w) sqlite \<Rightarrow> string list \<Rightarrow> (('v, 'w) db_state, int) state" where
  "exec_each api [] = State_Monad.return 0"
| "exec_each api (sql # sqls) = do {
     rc \<leftarrow> exec_sql api sql;
     if rc \<noteq> 0 then State_Monad.return (-1) else exec_each api sqls
   }"

definition init_statements :: "string list" where
  "init_statements =
     [''CREATE TABLE IF NOT EXISTS sensor_data (    id INTEGER PRIMARY KEY AUTOINCREMENT,    timestamp INTEGER,    sensor_type TEXT,    channel TEXT,    value REAL);'',
      ''CREATE TABLE IF NOT EXISTS alarm_log (    id INTEGER PRIMARY KEY AUTOINCREMENT,    timestamp INTEGER,    alarm_type TEXT,    level INTEGER,    message TEXT);'',
      ''CREATE TABLE IF NOT EXISTS system_log (    id INTEGER PRIMARY KEY AUTOINCREMENT,    timestamp INTEGER,    level TEXT,    message TEXT);'',
      ''PRAGMA journal_mode=WAL;'',
      ''PRAGMA synchronous=NORMAL;'']"

definition db_path :: string where "db_path = ''/var/lib/sensor/data.db''"
definition backup_path :: string where "backup_path = ''/var/lib/sensor/data.db.bak''"

definition db_init :: "('v, 'w) sqlite \<Rightarrow> (('v, 'w) db_state, int) state" where
  "db_init api = do {
     (rc, h) \<leftarrow> call (sqlite3_open api db_path);
     _ \<leftarrow> State_Monad.update (\<lambda>st. st\<lparr>db := h\<rparr>);
     if rc \<noteq> SQLITE_OK then State_Monad.return (-1)
     else do {
       rc \<leftarrow> exec_each api init_statements;
       if rc \<noteq> 0 then State_Monad.return (-1)
       else do {
         _ \<leftarrow> State_Monad.update (\<lambda>st. st\<lparr>batch_count := 0\<rparr>);
         now \<leftarrow> call (clock_monotonic api);
         _ \<leftarrow> State_Monad.update (\<lambda>st. st\<lparr>last_flush_time := now\<rparr>);
         State_Monad.return 0
       }
     }
   }"

definition insert_sensor_sql :: string where
  "insert_sensor_sql =
     ''INSERT INTO sensor_data (timestamp, sensor_type, channel, value) VALUES (?, ?, ?, ?);''"

text \<open>The body of the loop of \<open>db_flush_batch\<close> for one row; no result is looked at.\<close>

definition write_row :: "('v, 'w) sqlite \<Rightarrow> nat option \<Rightarrow> 'v sensor_record \<Rightarrow> ('w, int) state" where
  "write_row api stmt r = do {
     _ \<leftarrow> sqlite3_bind api stmt 1 (SQL_int (sr_timestamp r));
     _ \<leftarrow> sqlite3_bind api stmt 2 (SQL_text (sr_sensor_type r));
     _ \<leftarrow> sqlite3_bind api stmt 3 (SQL_text (sr_channel r));
     _ \<leftarrow> sqlite3_bind api stmt 4 (SQL_double (sr_value r));
     _ \<leftarrow> sqlite3_step api stmt;
     sqlite3_reset api stmt
   }"

fun write_rows :: "('v, 'w) sqlite \<Rightarrow> nat option \<Rightarrow> 'v sensor_record list \<Rightarrow> ('w, unit) state" where
  "write_rows api stmt [] = State_Monad.return ()"
| "write_rows api stmt (r # rs) = do {
     _ \<leftarrow> write_row api stmt r;
     write_rows api stmt rs
   }"

text \<open>The rows the buffer holds.\<close>

definition pending :: "('v, 'w) db_state \<Rightarrow> 'v sensor_record list" where
  "pending st = take (batch_count st) (batch_buffer st)"

definition db_flush_batch :: "('v, 'w) sqlite \<Rightarrow> (('v, 'w) db_state, int) state" where
  "db_flush_batch api = do {
     st \<leftarrow> State_Monad.get;
     if batch_count st = 0 \<or> db st = None then State_Monad.return 0
     else do {
       _ \<leftarrow> exec_sql api ''BEGIN TRANSACTION;'';
       (_, stmt) \<leftarrow> call (sqlite3_prepare api (db st) insert_sensor_sql);
       _ \<leftarrow> call (write_rows api stmt (pending st));
       _ \<leftarrow> call (sqlite3_finalize api stmt);
       _ \<leftarrow> exec_sql api ''COMMIT;'';
       _ \<leftarrow> State_Monad.update (\<lambda>st. st\<lparr>batch_count := 0\<rparr>);
       now \<leftarrow> call (clock_monotonic api);
       _ \<leftarrow> State_Monad.update (\<lambda>st. st\<lparr>last_flush_time := now\<rparr>);
       State_Monad.return 0
     }
   }"

definition db_close :: "('v, 'w) sqlite \<Rightarrow> (('v, 'w) db_state, unit) state" where
  "db_close api = do {
     st \<leftarrow> State_Monad.get;
     if db st = None then State_Monad.return ()
     else do {
       _ \<leftarrow> db_flush_batch api;
       _ \<leftarrow> call (sqlite3_close api (db st));
       State_Monad.update (\<lambda>st. st\<lparr>db := None\<rparr>)
     }
   }"

text \<open>
  The time since the last flush. \<open>long\<close> has 32 bits on the target; the difference of the
  seconds is below the \<open>2147483\<close> that would overflow it while a flush is less than 24 days old.
\<close>

definition elapsed_ms :: "timespec \<Rightarrow> timespec \<Rightarrow> int" where
  "elapsed_ms now prev = (tv_sec now - tv_sec prev) * 1000 + (tv_nsec now - tv_nsec prev) sdiv 1000000"

text \<open>\<open>strncpy\<close> of fifteen characters and the terminator, as the string the field then holds.\<close>

definition copy15 :: "string \<Rightarrow> string" where
  "copy15 s = take 15 s"

text \<open>A store at an index outside the buffer is \<open>None\<close>.\<close>

definition db_insert_sensor ::
  "('v, 'w) sqlite \<Rightarrow> int \<Rightarrow> string \<Rightarrow> string \<Rightarrow> 'v \<Rightarrow> ('v, 'w) db_state \<Rightarrow> (int \<times> ('v, 'w) db_state) option"
where
  "db_insert_sensor api timestamp sensor_type channel v st =
     (let st = (if BATCH_SIZE \<le> batch_count st then snd (run_state (db_flush_batch api) st) else st) in
      if length (batch_buffer st) \<le> batch_count st then None
      else
        let r = \<lparr>sr_timestamp = timestamp, sr_sensor_type = copy15 sensor_type,
                 sr_channel = copy15 channel, sr_value = v\<rparr>;
            st = st\<lparr>batch_buffer := (batch_buffer st)[batch_count st := r], batch_count := batch_count st + 1\<rparr>;
            (now, st) = run_state (call (clock_monotonic api)) st in
        if BATCH_TIMEOUT_MS \<le> elapsed_ms now (last_flush_time st)
        then Some (run_state (db_flush_batch api) st)
        else Some (0, st))"

definition insert_alarm_sql :: string where
  "insert_alarm_sql = ''INSERT INTO alarm_log (timestamp, alarm_type, level, message) VALUES (?, ?, ?, ?);''"

definition db_insert_alarm ::
  "('v, 'w) sqlite \<Rightarrow> int \<Rightarrow> string \<Rightarrow> int \<Rightarrow> string \<Rightarrow> (('v, 'w) db_state, int) state" where
  "db_insert_alarm api timestamp alarm_type level message = do {
     st \<leftarrow> State_Monad.get;
     if db st = None then State_Monad.return (-1)
     else do {
       _ \<leftarrow> exec_sql api ''BEGIN IMMEDIATE;'';
       (_, stmt) \<leftarrow> call (sqlite3_prepare api (db st) insert_alarm_sql);
       _ \<leftarrow> call (sqlite3_bind api stmt 1 (SQL_int timestamp));
       _ \<leftarrow> call (sqlite3_bind api stmt 2 (SQL_text alarm_type));
       _ \<leftarrow> call (sqlite3_bind api stmt 3 (SQL_int level));
       _ \<leftarrow> call (sqlite3_bind api stmt 4 (SQL_text message));
       _ \<leftarrow> call (sqlite3_step api stmt);
       _ \<leftarrow> call (sqlite3_finalize api stmt);
       _ \<leftarrow> exec_sql api ''COMMIT;'';
       _ \<leftarrow> call (sqlite3_wal_checkpoint api (db st));
       State_Monad.return 0
     }
   }"

text \<open>The part of \<open>db_check_and_repair\<close> after a failed check.\<close>

definition restore_backup :: "('v, 'w) sqlite \<Rightarrow> (('v, 'w) db_state, int) state" where
  "restore_backup api = do {
     st \<leftarrow> State_Monad.get;
     a \<leftarrow> call (os_access api backup_path);
     if a \<noteq> 0 then State_Monad.return (-1)
     else do {
       _ \<leftarrow> call (sqlite3_close api (db st));
       r \<leftarrow> call (os_rename api backup_path db_path);
       if r \<noteq> 0 then State_Monad.return (-1)
       else do {
         (rc, h) \<leftarrow> call (sqlite3_open api db_path);
         _ \<leftarrow> State_Monad.update (\<lambda>st. st\<lparr>db := h\<rparr>);
         State_Monad.return (if rc = SQLITE_OK then 0 else -1)
       }
     }
   }"

text \<open>\<open>strcmp\<close> of a NULL column (out of memory in SQLite) is undefined: the result \<open>None\<close>.\<close>

definition db_check_and_repair :: "('v, 'w) sqlite \<Rightarrow> (('v, 'w) db_state, int option) state" where
  "db_check_and_repair api = do {
     st \<leftarrow> State_Monad.get;
     (rc, stmt) \<leftarrow> call (sqlite3_prepare api (db st) ''PRAGMA integrity_check;'');
     if rc \<noteq> SQLITE_OK then State_Monad.return (Some (-1))
     else do {
       rc \<leftarrow> call (sqlite3_step api stmt);
       if rc = SQLITE_ROW then do {
         res \<leftarrow> call (sqlite3_column_text api stmt 0);
         case res of
           None \<Rightarrow> State_Monad.return None
         | Some s \<Rightarrow> do {
             _ \<leftarrow> call (sqlite3_finalize api stmt);
             if s = ''ok'' then State_Monad.return (Some 0)
             else do { r \<leftarrow> restore_backup api; State_Monad.return (Some r) }
           }
       }
       else do {
         _ \<leftarrow> call (sqlite3_finalize api stmt);
         r \<leftarrow> restore_backup api;
         State_Monad.return (Some r)
       }
     }
   }"

definition db_backup :: "('v, 'w) sqlite \<Rightarrow> (('v, 'w) db_state, int) state" where
  "db_backup api = do {
     st \<leftarrow> State_Monad.get;
     if db st = None then State_Monad.return (-1)
     else do {
       (_, backup_db) \<leftarrow> call (sqlite3_open api backup_path);
       backup \<leftarrow> call (sqlite3_backup_init api backup_db (db st));
       _ \<leftarrow> (case backup of
              None \<Rightarrow> State_Monad.return 0
            | Some b \<Rightarrow> do {
                _ \<leftarrow> call (sqlite3_backup_step api b (-1));
                call (sqlite3_backup_finish api b)
              });
       _ \<leftarrow> call (sqlite3_close api backup_db);
       State_Monad.return 0
     }
   }"

definition db_vacuum :: "('v, 'w) sqlite \<Rightarrow> (('v, 'w) db_state, int) state" where
  "db_vacuum api = exec_sql api ''VACUUM;''"

section \<open>Running the operations\<close>

lemma run_state_call [simp]:
  "run_state (call m) st = (fst (run_state m (db_world st)), st\<lparr>db_world := snd (run_state m (db_world st))\<rparr>)"
  by (simp add: call_def split_beta)

lemma run_state_update [simp]: "run_state (State_Monad.update f) st = ((), f st)"
  by (simp add: State_Monad.update_def)

lemma exec_sql_run [simp]:
  "run_state (exec_sql api sql) st =
    (let r = run_state (sqlite3_exec api (db st) sql) (db_world st) in
     (if fst r \<noteq> SQLITE_OK then -1 else 0, st\<lparr>db_world := snd r\<rparr>))"
  by (simp add: exec_sql_def Let_def)

text \<open>The world after the calls of one flush.\<close>

definition flush_world :: "('v, 'w) sqlite \<Rightarrow> nat option \<Rightarrow> 'v sensor_record list \<Rightarrow> 'w \<Rightarrow> 'w" where
  "flush_world api h rs w =
     (let w1 = snd (run_state (sqlite3_exec api h ''BEGIN TRANSACTION;'') w);
          p = run_state (sqlite3_prepare api h insert_sensor_sql) w1;
          stmt = snd (fst p);
          w3 = snd (run_state (write_rows api stmt rs) (snd p));
          w4 = snd (run_state (sqlite3_finalize api stmt) w3) in
      snd (run_state (sqlite3_exec api h ''COMMIT;'') w4))"

lemma db_flush_batch_run:
  "run_state (db_flush_batch api) st =
    (0, if batch_count st = 0 \<or> db st = None then st
        else let w = flush_world api (db st) (pending st) (db_world st);
                 c = run_state (clock_monotonic api) w in
             st\<lparr>batch_count := 0, last_flush_time := fst c, db_world := snd c\<rparr>)"
  by (simp add: db_flush_batch_def flush_world_def Let_def split_beta pending_def)

text \<open>The buffer has its ten places and the counter points into it or behind it.\<close>

definition db_ok :: "('v, 'w) db_state \<Rightarrow> bool" where
  "db_ok st \<longleftrightarrow> length (batch_buffer st) = BATCH_SIZE \<and> batch_count st \<le> BATCH_SIZE"

lemma db_flush_batch_ok:
  "db_ok st \<Longrightarrow> db_ok (snd (run_state (db_flush_batch api) st))"
  "db (snd (run_state (db_flush_batch api) st)) = db st"
  "db st \<noteq> None \<Longrightarrow> batch_count (snd (run_state (db_flush_batch api) st)) = 0"
  "batch_buffer (snd (run_state (db_flush_batch api) st)) = batch_buffer st"
  "fst (run_state (db_flush_batch api) st) = 0"
  by (auto simp: db_flush_batch_run db_ok_def Let_def)

text \<open>The row an insertion puts into the buffer.\<close>

definition row_of :: "int \<Rightarrow> string \<Rightarrow> string \<Rightarrow> 'v \<Rightarrow> 'v sensor_record" where
  "row_of ts ty ch v = \<lparr>sr_timestamp = ts, sr_sensor_type = copy15 ty, sr_channel = copy15 ch, sr_value = v\<rparr>"

definition put_row :: "'v sensor_record \<Rightarrow> ('v, 'w) db_state \<Rightarrow> ('v, 'w) db_state" where
  "put_row r st = st\<lparr>batch_buffer := (batch_buffer st)[batch_count st := r], batch_count := batch_count st + 1\<rparr>"

lemma put_row_simps [simp]:
  "db (put_row r st) = db st" "db_world (put_row r st) = db_world st"
  "batch_count (put_row r st) = batch_count st + 1" "last_flush_time (put_row r st) = last_flush_time st"
  "length (batch_buffer (put_row r st)) = length (batch_buffer st)"
  by (simp_all add: put_row_def)

lemma pending_put_row:
  "batch_count st < length (batch_buffer st) \<Longrightarrow> pending (put_row r st) = pending st @ [r]"
  by (simp add: pending_def put_row_def take_Suc_conv_app_nth)

text \<open>An insertion makes room if it must, stores the row, and flushes if the last flush is old.\<close>

definition make_room :: "('v, 'w) sqlite \<Rightarrow> ('v, 'w) db_state \<Rightarrow> ('v, 'w) db_state" where
  "make_room api st = (if BATCH_SIZE \<le> batch_count st then snd (run_state (db_flush_batch api) st) else st)"

lemma db_insert_sensor_run:
  "db_insert_sensor api ts ty ch v st =
    (let st1 = make_room api st;
         st2 = put_row (row_of ts ty ch v) st1;
         c = run_state (clock_monotonic api) (db_world st2);
         st3 = st2\<lparr>db_world := snd c\<rparr> in
     if length (batch_buffer st1) \<le> batch_count st1 then None
     else if BATCH_TIMEOUT_MS \<le> elapsed_ms (fst c) (last_flush_time st3)
     then Some (run_state (db_flush_batch api) st3) else Some (0, st3))"
  by (simp add: db_insert_sensor_def make_room_def put_row_def row_of_def Let_def)

section \<open>What the library is expected to do\<close>

text \<open>
  How a state of the world is read: the rows of \<open>sensor_data\<close>, the rows of the transaction that
  is open, which statements are live insertions into \<open>sensor_data\<close>, and their bindings.
\<close>

record ('v, 'w) sqlite_view =
  committed :: "'w \<Rightarrow> 'v sensor_record list"
  transaction :: "'w \<Rightarrow> 'v sensor_record list option"
  live :: "'w \<Rightarrow> nat \<Rightarrow> bool"
  bound :: "'w \<Rightarrow> nat \<Rightarrow> nat \<Rightarrow> 'v sql_value option"

definition same_rows :: "('v, 'w) sqlite_view \<Rightarrow> 'w \<Rightarrow> 'w \<Rightarrow> bool" where
  "same_rows V w w' \<longleftrightarrow> committed V w' = committed V w \<and> transaction V w' = transaction V w"

text \<open>
  SQLite as documented, on the connection \<open>h\<close> and without faults: a transaction is opened, its
  rows become visible with the commit; a prepared insertion adds the row of its bindings at each
  step, and a reset keeps the bindings.
\<close>

definition sqlite_works :: "('v, 'w) sqlite \<Rightarrow> nat \<Rightarrow> ('v, 'w) sqlite_view \<Rightarrow> bool" where
  "sqlite_works api h V \<longleftrightarrow>
    (\<forall>w. transaction V w = None \<longrightarrow>
      (let w' = snd (run_state (sqlite3_exec api (Some h) ''BEGIN TRANSACTION;'') w) in
       committed V w' = committed V w \<and> transaction V w' = Some []))
  \<and> (\<forall>w rs. transaction V w = Some rs \<longrightarrow>
      (let w' = snd (run_state (sqlite3_exec api (Some h) ''COMMIT;'') w) in
       committed V w' = committed V w @ rs \<and> transaction V w' = None))
  \<and> (\<forall>w. \<exists>rc s w'. run_state (sqlite3_prepare api (Some h) insert_sensor_sql) w = ((rc, Some s), w')
      \<and> live V w' s \<and> same_rows V w w')
  \<and> (\<forall>w s i v. live V w s \<longrightarrow>
      (let w' = snd (run_state (sqlite3_bind api (Some s) i v) w) in
       live V w' s \<and> same_rows V w w' \<and> bound V w' s = (bound V w s)(i \<mapsto> v)))
  \<and> (\<forall>w s rs r. live V w s \<longrightarrow> transaction V w = Some rs \<longrightarrow>
      bound V w s 1 = Some (SQL_int (sr_timestamp r)) \<longrightarrow> bound V w s 2 = Some (SQL_text (sr_sensor_type r)) \<longrightarrow>
      bound V w s 3 = Some (SQL_text (sr_channel r)) \<longrightarrow> bound V w s 4 = Some (SQL_double (sr_value r)) \<longrightarrow>
      (let w' = snd (run_state (sqlite3_step api (Some s)) w) in
       live V w' s \<and> committed V w' = committed V w \<and> transaction V w' = Some (rs @ [r])))
  \<and> (\<forall>w s. live V w s \<longrightarrow>
      (let w' = snd (run_state (sqlite3_reset api (Some s)) w) in live V w' s \<and> same_rows V w w'))
  \<and> (\<forall>w s. live V w s \<longrightarrow> same_rows V w (snd (run_state (sqlite3_finalize api (Some s)) w)))
  \<and> (\<forall>w. transaction V w = None \<longrightarrow> same_rows V w (snd (run_state (sqlite3_close api (Some h)) w)))
  \<and> (\<forall>w. same_rows V w (snd (run_state (clock_monotonic api) w)))"

lemma works_begin:
  "sqlite_works api h V \<Longrightarrow> transaction V w = None \<Longrightarrow>
    w' = snd (run_state (sqlite3_exec api (Some h) ''BEGIN TRANSACTION;'') w) \<Longrightarrow>
    committed V w' = committed V w \<and> transaction V w' = Some []"
  unfolding sqlite_works_def Let_def by (elim conjE) simp

lemma works_commit:
  "sqlite_works api h V \<Longrightarrow> transaction V w = Some rs \<Longrightarrow>
    w' = snd (run_state (sqlite3_exec api (Some h) ''COMMIT;'') w) \<Longrightarrow>
    committed V w' = committed V w @ rs \<and> transaction V w' = None"
  unfolding sqlite_works_def Let_def by (elim conjE) simp

lemma works_prepare:
  assumes "sqlite_works api h V"
  obtains rc s w' where "run_state (sqlite3_prepare api (Some h) insert_sensor_sql) w = ((rc, Some s), w')"
    and "live V w' s" and "same_rows V w w'"
proof -
  have "\<exists>rc s w'. run_state (sqlite3_prepare api (Some h) insert_sensor_sql) w = ((rc, Some s), w')
      \<and> live V w' s \<and> same_rows V w w'"
    using assms unfolding sqlite_works_def by (elim conjE) (rule spec)
  then show ?thesis
    using that by blast
qed

lemma works_bind:
  "sqlite_works api h V \<Longrightarrow> live V w s \<Longrightarrow> w' = snd (run_state (sqlite3_bind api (Some s) i v) w) \<Longrightarrow>
    live V w' s \<and> same_rows V w w' \<and> bound V w' s = (bound V w s)(i \<mapsto> v)"
  unfolding sqlite_works_def Let_def by (elim conjE) simp

lemma works_step:
  "sqlite_works api h V \<Longrightarrow> live V w s \<Longrightarrow> transaction V w = Some rs \<Longrightarrow>
    bound V w s 1 = Some (SQL_int (sr_timestamp r)) \<Longrightarrow> bound V w s 2 = Some (SQL_text (sr_sensor_type r)) \<Longrightarrow>
    bound V w s 3 = Some (SQL_text (sr_channel r)) \<Longrightarrow> bound V w s 4 = Some (SQL_double (sr_value r)) \<Longrightarrow>
    w' = snd (run_state (sqlite3_step api (Some s)) w) \<Longrightarrow>
    live V w' s \<and> committed V w' = committed V w \<and> transaction V w' = Some (rs @ [r])"
  unfolding sqlite_works_def Let_def by (elim conjE) simp

lemma works_reset:
  "sqlite_works api h V \<Longrightarrow> live V w s \<Longrightarrow> w' = snd (run_state (sqlite3_reset api (Some s)) w) \<Longrightarrow>
    live V w' s \<and> same_rows V w w'"
  unfolding sqlite_works_def Let_def by (elim conjE) simp

lemma works_finalize:
  "sqlite_works api h V \<Longrightarrow> live V w s \<Longrightarrow> same_rows V w (snd (run_state (sqlite3_finalize api (Some s)) w))"
  unfolding sqlite_works_def by (elim conjE) simp

lemma works_close:
  "sqlite_works api h V \<Longrightarrow> transaction V w = None \<Longrightarrow>
    same_rows V w (snd (run_state (sqlite3_close api (Some h)) w))"
  unfolding sqlite_works_def by (elim conjE) simp

lemma works_clock: "sqlite_works api h V \<Longrightarrow> same_rows V w (snd (run_state (clock_monotonic api) w))"
  unfolding sqlite_works_def by (elim conjE) simp

text \<open>One row, all rows, one flush.\<close>

lemma write_row_works:
  assumes ok: "sqlite_works api h V" and "live V w s" and "transaction V w = Some rs"
    and w': "w' = snd (run_state (write_row api (Some s) r) w)"
  shows "live V w' s \<and> committed V w' = committed V w \<and> transaction V w' = Some (rs @ [r])"
proof -
  let ?b = "\<lambda>i v w. snd (run_state (sqlite3_bind api (Some s) i v) w)"
  define w1 where "w1 = ?b 1 (SQL_int (sr_timestamp r)) w"
  define w2 where "w2 = ?b 2 (SQL_text (sr_sensor_type r)) w1"
  define w3 where "w3 = ?b 3 (SQL_text (sr_channel r)) w2"
  define w4 where "w4 = ?b 4 (SQL_double (sr_value r)) w3"
  define w5 where "w5 = snd (run_state (sqlite3_step api (Some s)) w4)"
  have eq: "w' = snd (run_state (sqlite3_reset api (Some s)) w5)"
    by (simp add: w' write_row_def w1_def w2_def w3_def w4_def w5_def split_beta)
  note b1 = works_bind [OF ok assms(2) w1_def]
  note b2 = works_bind [OF ok conjunct1 [OF b1] w2_def]
  note b3 = works_bind [OF ok conjunct1 [OF b2] w3_def]
  note b4 = works_bind [OF ok conjunct1 [OF b3] w4_def]
  have rows: "same_rows V w w4"
    using b1 b2 b3 b4 by (simp add: same_rows_def)
  have "live V w5 s \<and> committed V w5 = committed V w4 \<and> transaction V w5 = Some (rs @ [r])"
    using b1 b2 b3 b4 rows assms(3)
    by (intro works_step [OF ok _ _ _ _ _ _ w5_def]) (simp_all add: same_rows_def)
  then show ?thesis
    using works_reset [OF ok _ eq] rows by (auto simp: same_rows_def)
qed

lemma write_rows_works:
  assumes ok: "sqlite_works api h V"
  shows "live V w s \<Longrightarrow> transaction V w = Some rs \<Longrightarrow>
    w' = snd (run_state (write_rows api (Some s) rows) w) \<Longrightarrow>
    live V w' s \<and> committed V w' = committed V w \<and> transaction V w' = Some (rs @ rows)"
proof (induction rows arbitrary: w rs w')
  case (Cons r rows)
  let ?w1 = "snd (run_state (write_row api (Some s) r) w)"
  note one = write_row_works [OF ok Cons.prems(1,2) refl, of r]
  have "w' = snd (run_state (write_rows api (Some s) rows) ?w1)"
    using Cons.prems(3) by (simp add: split_beta)
  then show ?case
    using Cons.IH [of ?w1 "rs @ [r]" w'] one by simp
qed simp

lemma flush_world_works:
  assumes ok: "sqlite_works api h V" and "transaction V w = None"
  shows "committed V (flush_world api (Some h) rs w) = committed V w @ rs
    \<and> transaction V (flush_world api (Some h) rs w) = None"
proof -
  define w1 where "w1 = snd (run_state (sqlite3_exec api (Some h) ''BEGIN TRANSACTION;'') w)"
  note b = works_begin [OF ok assms(2) w1_def]
  obtain rc s w2 where p: "run_state (sqlite3_prepare api (Some h) insert_sensor_sql) w1 = ((rc, Some s), w2)"
    "live V w2 s" "same_rows V w1 w2"
    by (rule works_prepare [OF ok])
  define w3 where "w3 = snd (run_state (write_rows api (Some s) rs) w2)"
  define w4 where "w4 = snd (run_state (sqlite3_finalize api (Some s)) w3)"
  have "transaction V w2 = Some []"
    using p(3) b by (simp add: same_rows_def)
  note r = write_rows_works [OF ok p(2) this w3_def]
  have "same_rows V w3 w4"
    using works_finalize [OF ok] r by (simp add: w4_def)
  then have "transaction V w4 = Some rs" "committed V w4 = committed V w"
    using r b p(3) by (simp_all add: same_rows_def)
  moreover have "flush_world api (Some h) rs w = snd (run_state (sqlite3_exec api (Some h) ''COMMIT;'') w4)"
    by (simp add: flush_world_def Let_def flip: w1_def) (simp add: p(1) w3_def w4_def)
  ultimately show ?thesis
    using works_commit [OF ok] by metis
qed

section \<open>Sequences of insertions and flushes\<close>

datatype 'v db_op = Insert int string string 'v | Flush

text \<open>One call, its answer and the state behind it; \<open>None\<close> for a store outside the buffer.\<close>

fun db_step :: "('v, 'w) sqlite \<Rightarrow> 'v db_op \<Rightarrow> ('v, 'w) db_state \<Rightarrow> (int \<times> ('v, 'w) db_state) option" where
  "db_step api (Insert ts ty ch v) st = db_insert_sensor api ts ty ch v st"
| "db_step api Flush st = Some (run_state (db_flush_batch api) st)"

abbreviation db_run :: "('v, 'w) sqlite \<Rightarrow> 'v db_op list \<Rightarrow> ('v, 'w) db_state \<Rightarrow> (int list \<times> ('v, 'w) db_state) option"
where
  "db_run api \<equiv> run_all (db_step api)"

fun row_list :: "'v db_op \<Rightarrow> 'v sensor_record list" where
  "row_list (Insert ts ty ch v) = [row_of ts ty ch v]"
| "row_list Flush = []"

abbreviation inserted :: "'v db_op list \<Rightarrow> 'v sensor_record list" where
  "inserted ops \<equiv> concat (map row_list ops)"

text \<open>The state of the layer between two calls on a healthy database.\<close>

definition db_ready :: "('v, 'w) sqlite_view \<Rightarrow> nat \<Rightarrow> ('v, 'w) db_state \<Rightarrow> bool" where
  "db_ready V h st \<longleftrightarrow> db_ok st \<and> db st = Some h \<and> transaction V (db_world st) = None"

definition stored :: "('v, 'w) sqlite_view \<Rightarrow> ('v, 'w) db_state \<Rightarrow> 'v sensor_record list" where
  "stored V st = committed V (db_world st) @ pending st"

lemma pending_empty [simp]: "batch_count st = 0 \<Longrightarrow> pending st = []"
  by (simp add: pending_def)

lemma flush_stored:
  assumes ok: "sqlite_works api h V" and "db_ready V h st"
  shows "db_ready V h (snd (run_state (db_flush_batch api) st))
    \<and> stored V (snd (run_state (db_flush_batch api) st)) = stored V st
    \<and> batch_count (snd (run_state (db_flush_batch api) st)) = 0"
proof (cases "batch_count st = 0")
  case False
  let ?w = "flush_world api (Some h) (pending st) (db_world st)"
  have h: "db st = Some h" "db_ok st" "transaction V (db_world st) = None"
    using assms(2) by (simp_all add: db_ready_def)
  show ?thesis
    using flush_world_works [OF ok h(3), of "pending st"] works_clock [OF ok, of ?w] h False
    by (simp add: db_flush_batch_run Let_def db_ready_def db_ok_def stored_def same_rows_def)
qed (use assms(2) in \<open>simp add: db_flush_batch_run\<close>)

lemma put_row_stored:
  assumes "sqlite_works api h V" and "db_ready V h st" and "batch_count st < BATCH_SIZE"
    and st': "st' = (put_row r st)\<lparr>db_world := snd (run_state (clock_monotonic api) (db_world st))\<rparr>"
  shows "db_ready V h st' \<and> stored V st' = stored V st @ [r]"
proof -
  have "pending st' = pending (put_row r st)"
    by (simp add: st' pending_def)
  then have "pending st' = pending st @ [r]"
    using pending_put_row [of st r] assms(2,3) by (simp add: db_ready_def db_ok_def)
  then show ?thesis
    using works_clock [OF assms(1), of "db_world st"] assms(2,3)
    by (simp add: stored_def same_rows_def db_ready_def db_ok_def) (simp add: st')
qed

lemma insert_stored:
  assumes ok: "sqlite_works api h V" and "db_ready V h st"
  shows "\<exists>st'. db_insert_sensor api ts ty ch v st = Some (0, st') \<and> db_ready V h st'
    \<and> stored V st' = stored V st @ [row_of ts ty ch v]"
proof -
  let ?st1 = "make_room api st" and ?r = "row_of ts ty ch v"
  let ?st3 = "(put_row ?r ?st1)\<lparr>db_world := snd (run_state (clock_monotonic api) (db_world ?st1))\<rparr>"
  have room: "db_ready V h ?st1" "stored V ?st1 = stored V st" "batch_count ?st1 < BATCH_SIZE"
    using flush_stored [OF assms] assms(2) by (auto simp: make_room_def BATCH_SIZE_def)
  note put = put_row_stored [OF ok room(1,3) refl, of ?r]
  have fits: "batch_count ?st1 < length (batch_buffer ?st1)"
    using room by (simp add: db_ready_def db_ok_def)
  show ?thesis
    using put flush_stored [OF ok conjunct1 [OF put]] room(2) fits db_flush_batch_ok(5) [of api ?st3]
    by (auto simp: db_insert_sensor_run Let_def prod_eq_iff)
qed

lemma close_stored:
  assumes ok: "sqlite_works api h V" and "db_ready V h st"
  shows "committed V (db_world (snd (run_state (db_close api) st))) = stored V st
    \<and> db (snd (run_state (db_close api) st)) = None"
proof -
  let ?st = "snd (run_state (db_flush_batch api) st)"
  have "committed V (db_world ?st) = stored V st" "transaction V (db_world ?st) = None" "db st = Some h"
    using flush_stored [OF assms] assms(2) by (auto simp: stored_def db_ready_def)
  then show ?thesis
    using works_close [OF ok, of "db_world ?st"] by (simp add: db_close_def split_beta same_rows_def)
qed

text \<open>On a healthy database the layer is a sink that keeps every row, \<open>db_close\<close> its end.\<close>

interpretation kept: row_sink "db_step api" "\<lambda>st. sqlite_works api h V \<and> db_ready V h st" "stored V" row_list
  "\<lambda>st. snd (run_state (db_close api) st)" "\<lambda>st. committed V (db_world st)" for api h V
proof
  show "\<exists>s'. db_step api op s = Some (0, s') \<and> (sqlite_works api h V \<and> db_ready V h s') \<and> stored V s' = stored V s @ row_list op"
    if "sqlite_works api h V \<and> db_ready V h s" for s op
  proof (cases op)
    case (Insert ts ty ch v)
    then show ?thesis
      using insert_stored [of api h V s ts ty ch v] that by auto
  next
    case Flush
    then show ?thesis
      using flush_stored [of api h V s] db_flush_batch_ok(5) [of api s] that by (auto simp: prod_eq_iff)
  qed
qed (use close_stored in blast)

section \<open>A database that stores nothing\<close>

text \<open>No call changes the rows: a full disk or a lost table, say, where every step fails.\<close>

definition sqlite_stuck :: "('v, 'w) sqlite \<Rightarrow> ('w \<Rightarrow> 'r) \<Rightarrow> bool" where
  "sqlite_stuck api rows \<longleftrightarrow>
    (\<forall>h sql w. rows (snd (run_state (sqlite3_exec api h sql) w)) = rows w)
  \<and> (\<forall>h sql w. rows (snd (run_state (sqlite3_prepare api h sql) w)) = rows w)
  \<and> (\<forall>s i v w. rows (snd (run_state (sqlite3_bind api s i v) w)) = rows w)
  \<and> (\<forall>s w. rows (snd (run_state (sqlite3_step api s) w)) = rows w)
  \<and> (\<forall>s w. rows (snd (run_state (sqlite3_reset api s) w)) = rows w)
  \<and> (\<forall>s w. rows (snd (run_state (sqlite3_finalize api s) w)) = rows w)
  \<and> (\<forall>h w. rows (snd (run_state (sqlite3_close api h) w)) = rows w)
  \<and> (\<forall>w. rows (snd (run_state (clock_monotonic api) w)) = rows w)"

lemma write_rows_stuck:
  "sqlite_stuck api rows \<Longrightarrow> rows (snd (run_state (write_rows api s rs) w)) = rows w"
  by (induction rs arbitrary: w) (simp_all add: write_row_def sqlite_stuck_def split_beta)

lemma flush_stuck:
  "sqlite_stuck api rows \<Longrightarrow> rows (db_world (snd (run_state (db_flush_batch api) st))) = rows (db_world st)"
  using write_rows_stuck [of api rows]
  by (auto simp: db_flush_batch_run flush_world_def sqlite_stuck_def Let_def)

lemma insert_any:
  fixes st :: "('v, 'w) db_state" and rows :: "'w \<Rightarrow> 'r"
  assumes "db_ok st" and "db st \<noteq> None"
  shows "\<exists>st'. db_insert_sensor api ts ty ch v st = Some (0, st') \<and> db_ok st' \<and> db st' = db st
    \<and> (sqlite_stuck api rows \<longrightarrow> rows (db_world st') = rows (db_world st))"
proof -
  let ?st1 = "make_room api st" and ?r = "row_of ts ty ch v"
  let ?st3 = "(put_row ?r ?st1)\<lparr>db_world := snd (run_state (clock_monotonic api) (db_world ?st1))\<rparr>"
  have room: "db_ok ?st1" "batch_count ?st1 < BATCH_SIZE" "db ?st1 = db st"
    using db_flush_batch_ok [where st = st and api = api] assms by (auto simp: make_room_def BATCH_SIZE_def)
  have rows: "rows (db_world ?st1) = rows (db_world st)" "rows (db_world ?st3) = rows (db_world st)"
    if "sqlite_stuck api rows"
    using flush_stuck [OF that, of st] that by (simp_all add: make_room_def sqlite_stuck_def)
  have "db_ok ?st3" "batch_count ?st1 < length (batch_buffer ?st1)"
    using room by (simp_all add: db_ok_def)
  then show ?thesis
    using rows room db_flush_batch_ok [where st = ?st3 and api = api] flush_stuck [of api rows ?st3]
    by (auto simp: db_insert_sensor_run Let_def prod_eq_iff)
qed

text \<open>
  With an open connection the layer serves whatever SQLite does; on a database that stores nothing
  an observer of the table sees nothing.
\<close>

lemma db_step_any:
  fixes st :: "('v, 'w) db_state" and rows :: "'w \<Rightarrow> 'r"
  assumes "db_ok st" and "db st \<noteq> None"
  shows "\<exists>st'. db_step api op st = Some (0, st') \<and> db_ok st' \<and> db st' = db st
    \<and> (sqlite_stuck api rows \<longrightarrow> rows (db_world st') = rows (db_world st))"
proof (cases op)
  case (Insert ts ty ch v)
  then show ?thesis
    using insert_any [OF assms, of api ts ty ch v rows] by simp
next
  case Flush
  then show ?thesis
    using db_flush_batch_ok [where st = st and api = api] flush_stuck [of api rows st] assms
    by (auto simp: prod_eq_iff)
qed

interpretation open_layer: service "db_step api" "\<lambda>st. db_ok st \<and> db st \<noteq> None" "\<lambda>_. ()" "\<lambda>_ _. ()" for api
  by unfold_locales (use db_step_any in fastforce)

interpretation stuck_layer: service "db_step api" "\<lambda>st. db_ok st \<and> db st \<noteq> None \<and> sqlite_stuck api rows"
  "\<lambda>st. rows (db_world st)" "\<lambda>_ x. x" for api rows
  by unfold_locales (use db_step_any in fastforce)

text \<open>Without a connection nothing is flushed, and every insertion takes one more place.\<close>

lemma insert_unopened:
  assumes "db st = None" and "length (batch_buffer st) = BATCH_SIZE"
  shows "db_insert_sensor api ts ty ch v st =
    (if BATCH_SIZE \<le> batch_count st then None
     else Some (0, (put_row (row_of ts ty ch v) st)\<lparr>db_world := snd (run_state (clock_monotonic api) (db_world st))\<rparr>))"
  using assms by (simp add: db_insert_sensor_run make_room_def db_flush_batch_run Let_def)

lemma db_run_unopened:
  "db st = None \<Longrightarrow> db_ok st \<Longrightarrow>
    db_run api ops st = None \<longleftrightarrow> BATCH_SIZE < batch_count st + length (inserted ops)"
proof (induction ops arbitrary: st)
  case (Cons op ops)
  show ?case
  proof (cases op)
    case (Insert ts ty ch v)
    then show ?thesis
      using Cons.prems
        Cons.IH [of "(put_row (row_of ts ty ch v) st)\<lparr>db_world := snd (run_state (clock_monotonic api) (db_world st))\<rparr>"]
      by (auto simp: insert_unopened db_ok_def)
  next
    case Flush
    then show ?thesis
      using Cons by (simp add: db_flush_batch_run)
  qed
qed (simp add: db_ok_def)

lemma elapsed_ms_trunc:
  "a < (a sdiv 1000000) * 1000000 + 1000000 \<and> (a sdiv 1000000) * 1000000 < a + 1000000" for a :: int
proof (cases "0 \<le> a")
  case True
  then show ?thesis
    by (simp add: signed_divide_int_def sgn_if) linarith
next
  case False
  then show ?thesis
    by (simp add: signed_divide_int_def sgn_if) linarith
qed

lemma elapsed_ms_bounds:
  fixes s a q :: int
  assumes "a < q * 1000000 + 1000000" "q * 1000000 < a + 1000000"
  shows "50000000 \<le> s * 1000000000 + a \<Longrightarrow> 50 \<le> s * 1000 + q"
    and "50 \<le> s * 1000 + q \<Longrightarrow> 49000000 < s * 1000000000 + a"
proof -
  assume "50000000 \<le> s * 1000000000 + a"
  then have "49 * 1000000 < (s * 1000 + q) * 1000000"
    using assms(1) by simp
  then show "50 \<le> s * 1000 + q"
    by (simp only: mult_less_cancel_right) simp
next
  assume "50 \<le> s * 1000 + q"
  then have "50 * 1000000 \<le> (s * 1000 + q) * 1000000"
    by (simp only: mult_le_cancel_right) simp
  then show "49000000 < s * 1000000000 + a"
    using assms(2) by simp
qed

section \<open>Two small databases\<close>

text \<open>One that works, and one that answers an error to everything, for the witnesses below.\<close>

record 'v mem_db =
  mem_rows :: "'v sensor_record list"
  mem_txn :: "'v sensor_record list option"
  mem_par :: "nat \<Rightarrow> 'v sql_value option"

definition par_row :: "(nat \<Rightarrow> 'v sql_value option) \<Rightarrow> 'v sensor_record list" where
  "par_row p = (case (p 1, p 2, p 3, p 4) of
     (Some (SQL_int t), Some (SQL_text s), Some (SQL_text c), Some (SQL_double v)) \<Rightarrow>
       [\<lparr>sr_timestamp = t, sr_sensor_type = s, sr_channel = c, sr_value = v\<rparr>]
   | _ \<Rightarrow> [])"

definition mem_exec :: "string \<Rightarrow> 'v mem_db \<Rightarrow> 'v mem_db" where
  "mem_exec sql w =
     (case mem_txn w of
        None \<Rightarrow> if sql = ''BEGIN TRANSACTION;'' then w\<lparr>mem_txn := Some []\<rparr> else w
      | Some rs \<Rightarrow> if sql = ''COMMIT;'' then w\<lparr>mem_rows := mem_rows w @ rs, mem_txn := None\<rparr> else w)"

definition dead_sqlite :: "('v, 'w) sqlite" where
  "dead_sqlite =
    \<lparr>sqlite3_open = \<lambda>_. State_Monad.return (14, Some 1),
     sqlite3_exec = \<lambda>_ _. State_Monad.return 1,
     sqlite3_prepare = \<lambda>_ _. State_Monad.return (1, None),
     sqlite3_bind = \<lambda>_ _ _. State_Monad.return 21,
     sqlite3_step = \<lambda>_. State_Monad.return 21,
     sqlite3_reset = \<lambda>_. State_Monad.return 0,
     sqlite3_finalize = \<lambda>_. State_Monad.return 0,
     sqlite3_column_text = \<lambda>_ _. State_Monad.return None,
     sqlite3_close = \<lambda>_. State_Monad.return 0,
     sqlite3_wal_checkpoint = \<lambda>_. State_Monad.return 1,
     sqlite3_backup_init = \<lambda>_ _. State_Monad.return None,
     sqlite3_backup_step = \<lambda>_ _. State_Monad.return 1,
     sqlite3_backup_finish = \<lambda>_. State_Monad.return 1,
     os_access = \<lambda>_. State_Monad.return (-1),
     os_rename = \<lambda>_ _. State_Monad.return (-1),
     clock_monotonic = State_Monad.return \<lparr>tv_sec = 0, tv_nsec = 0\<rparr>\<rparr>"

definition mem_sqlite :: "('v, 'v mem_db) sqlite" where
  "mem_sqlite = dead_sqlite
    \<lparr>sqlite3_exec := \<lambda>_ sql. State (\<lambda>w. (0, mem_exec sql w)),
     sqlite3_prepare := \<lambda>_ _. State_Monad.return (0, Some 1),
     sqlite3_bind := \<lambda>_ i v. State (\<lambda>w. (0, w\<lparr>mem_par := (mem_par w)(i \<mapsto> v)\<rparr>)),
     sqlite3_step := \<lambda>_. State (\<lambda>w. (SQLITE_DONE, w\<lparr>mem_txn := map_option (\<lambda>rs. rs @ par_row (mem_par w)) (mem_txn w)\<rparr>))\<rparr>"

definition mem_view :: "('v, 'v mem_db) sqlite_view" where
  "mem_view = \<lparr>committed = mem_rows, transaction = mem_txn, live = \<lambda>_ s. s = 1, bound = \<lambda>w _. mem_par w\<rparr>"

lemma mem_sqlite_works: "sqlite_works mem_sqlite h mem_view"
  by (simp add: sqlite_works_def mem_sqlite_def mem_view_def mem_exec_def dead_sqlite_def same_rows_def
      par_row_def)

definition db_start :: "nat option \<Rightarrow> 'v \<Rightarrow> 'w \<Rightarrow> ('v, 'w) db_state" where
  "db_start h v w =
    \<lparr>db = h, batch_buffer = replicate BATCH_SIZE \<lparr>sr_timestamp = 0, sr_sensor_type = [], sr_channel = [], sr_value = v\<rparr>,
     batch_count = 0, last_flush_time = \<lparr>tv_sec = 0, tv_nsec = 0\<rparr>, db_world = w\<rparr>"

lemma db_start_ok: "db_ok (db_start h v w)" "db (db_start h v w) = h" "pending (db_start h v w) = []"
  "batch_count (db_start h v w) = 0" "db_world (db_start h v w) = w"
  by (simp_all add: db_start_def db_ok_def pending_def)

definition mem_empty :: "'v mem_db" where
  "mem_empty = \<lparr>mem_rows = [], mem_txn = None, mem_par = \<lambda>_. None\<rparr>"

section \<open>Properties\<close>



text \<open>
  C39. No failure of the database is ever reported: with an open connection every insertion and
  every flush answers 0 whatever SQLite answers, and the buffer is emptied by the flush. On a
  database that stores nothing all rows are lost in silence.
\<close>

theorem db_failures_are_silent:
  assumes "db_ok st" and "db st \<noteq> None" and "sqlite_stuck api rows"
  shows "\<exists>st'. db_run api (ops @ [Flush]) st = Some (replicate (length ops + 1) 0, st')
    \<and> pending st' = [] \<and> rows (db_world st') = rows (db_world st)"
proof -
  obtain st1 where st1: "db_run api ops st = Some (replicate (length ops) 0, st1)" "db_ok st1" "db st1 \<noteq> None"
    "rows (db_world st1) = rows (db_world st)"
    using stuck_layer.run_serves [of st api rows ops] assms by auto
  let ?st = "snd (run_state (db_flush_batch api) st1)"
  have "db_run api (ops @ [Flush]) st = Some (replicate (length ops + 1) 0, ?st)"
    using st1(1) db_flush_batch_ok(5) [of api st1] by (simp add: run_all_append split_beta flip: replicate_append_same)
  then show ?thesis
    using db_flush_batch_ok(3) [of st1 api] st1(3,4) flush_stuck [OF assms(3), of st1] by simp
qed

theorem db_failures_are_silent_witness:
  "\<exists>st'. db_run dead_sqlite [Insert 7 ''sht30'' ''temperature'' (215 :: int), Flush] (db_start (Some 1) 0 mem_empty)
      = Some ([0, 0], st') \<and> pending st' = [] \<and> mem_rows (db_world st') = []"
  using db_failures_are_silent [of "db_start (Some 1) 0 mem_empty" dead_sqlite mem_rows
      "[Insert 7 ''sht30'' ''temperature'' (215 :: int)]"]
  by (simp add: db_start_ok mem_empty_def sqlite_stuck_def dead_sqlite_def)

text \<open>
  Without a connection (\<open>db\<close> is NULL after \<open>db_close\<close>) the flush that should make room does
  nothing, and the insertions leave the buffer exactly when there are more than ten rows to hold:
  the store is then outside \<open>batch_buffer\<close>.
\<close>

theorem db_insert_unopened_overflows:
  assumes "db st = None" and "db_ok st"
  shows "db_run api ops st = None \<longleftrightarrow> 10 < batch_count st + length (inserted ops)"
  using db_run_unopened [OF assms] by (simp add: BATCH_SIZE_def)

theorem db_insert_unopened_overflows_witness:
  "db_run mem_sqlite (replicate 10 (Insert 7 ''sht30'' ''temperature'' (215 :: int))) (db_start None 0 mem_empty) \<noteq> None
    \<and> db_run mem_sqlite (replicate 11 (Insert 7 ''sht30'' ''temperature'' (215 :: int))) (db_start None 0 mem_empty) = None"
proof -
  have "length (inserted (replicate n (Insert 7 ''sht30'' ''temperature'' (215 :: int)))) = n" for n
    by (induction n) simp_all
  then show ?thesis
    by (simp only: db_insert_unopened_overflows db_start_ok) simp
qed

text \<open>
  The elapsed time is the time since the last flush in milliseconds, rounded down or up by
  less than one: a flush is never late by the comparison with 50 and early by less than a
  millisecond, and no intermediate value overflows a 32-bit \<open>long\<close> while the flush is less than
  2147481 seconds old.
\<close>

theorem elapsed_ms_exact:
  assumes "0 \<le> tv_nsec now" "tv_nsec now < 1000000000" "0 \<le> tv_nsec prev" "tv_nsec prev < 1000000000"
    and "0 \<le> tv_sec now - tv_sec prev" "tv_sec now - tv_sec prev \<le> 2147481"
  defines "ns \<equiv> (tv_sec now - tv_sec prev) * 1000000000 + (tv_nsec now - tv_nsec prev)"
  shows "(50000000 \<le> ns \<longrightarrow> BATCH_TIMEOUT_MS \<le> elapsed_ms now prev)
    \<and> (BATCH_TIMEOUT_MS \<le> elapsed_ms now prev \<longrightarrow> 49000000 < ns)
    \<and> (tv_sec now - tv_sec prev) * 1000 \<le> int_max
    \<and> - int_max \<le> elapsed_ms now prev \<and> elapsed_ms now prev \<le> int_max"
proof -
  let ?a = "tv_nsec now - tv_nsec prev" and ?s = "tv_sec now - tv_sec prev"
  have e: "elapsed_ms now prev = ?s * 1000 + ?a sdiv 1000000"
    by (simp add: elapsed_ms_def)
  note t = conjunct1 [OF elapsed_ms_trunc [of ?a]] conjunct2 [OF elapsed_ms_trunc [of ?a]]
  then have "-1001 \<le> ?a sdiv 1000000" "?a sdiv 1000000 \<le> 1001"
    using assms(1-4) by linarith+
  then show ?thesis
    using elapsed_ms_bounds [OF t, of ?s] assms(5,6) unfolding e ns_def BATCH_TIMEOUT_MS_def by simp
qed

theorem elapsed_ms_exact_witness:
  "elapsed_ms \<lparr>tv_sec = 1, tv_nsec = 0\<rparr> \<lparr>tv_sec = 0, tv_nsec = 950500000\<rparr> = 50
    \<and> BATCH_TIMEOUT_MS \<le> elapsed_ms \<lparr>tv_sec = 1, tv_nsec = 0\<rparr> \<lparr>tv_sec = 0, tv_nsec = 950000000\<rparr>"
  using elapsed_ms_exact [of "\<lparr>tv_sec = 1, tv_nsec = 0\<rparr>" "\<lparr>tv_sec = 0, tv_nsec = 950000000\<rparr>"]
  by (simp add: elapsed_ms_def)

end
