(* ===== verification/Modbus_Server.thy ===== *)
theory Modbus_Server
  imports Blacklist
begin

text \<open>
  The Modbus TCP server of \<open>app/modbus/modbus_server.c\<close> around the blacklist: the registers, the
  conversation with one client, the thread that accepts clients one after another, and the
  creation and release of the library's objects.

  libmodbus and the sockets are outside the repository. What they hand to the server is part of
  the input: the result and the bytes of each \<open>modbus_receive\<close>, the result of each
  \<open>modbus_reply\<close>, of each \<open>select\<close> and \<open>accept\<close>. What the server hands to them is recorded in
  its state: the answers in the order they are sent.
\<close>

section \<open>Registers\<close>

definition MODBUS_MAX_REGS :: nat where "MODBUS_MAX_REGS = 4"
definition MODBUS_TCP_MAX_ADU_LENGTH :: nat where "MODBUS_TCP_MAX_ADU_LENGTH = 260"
definition MODBUS_FC_READ_HOLDING_REGISTERS :: int where "MODBUS_FC_READ_HOLDING_REGISTERS = 3"
definition MODBUS_EXCEPTION_ILLEGAL_FUNCTION :: int where "MODBUS_EXCEPTION_ILLEGAL_FUNCTION = 1"
definition MODBUS_EXCEPTION_ILLEGAL_DATA_ADDRESS :: int where "MODBUS_EXCEPTION_ILLEGAL_DATA_ADDRESS = 2"

record modbus_reg_data =
  temperature :: u16
  humidity :: u16
  accel_x :: u16
  accel_y :: u16

definition zero_regs :: modbus_reg_data where
  "zero_regs = \<lparr>temperature = 0, humidity = 0, accel_x = 0, accel_y = 0\<rparr>"

text \<open>The four registers, each an atomic variable of its own; \<open>store_reg\<close> is the store of one.\<close>

datatype reg = Temperature | Humidity | Accel_x | Accel_y

fun load_reg :: "reg \<Rightarrow> modbus_reg_data \<Rightarrow> u16" where
  "load_reg Temperature g = temperature g"
| "load_reg Humidity g = humidity g"
| "load_reg Accel_x g = accel_x g"
| "load_reg Accel_y g = accel_y g"

fun store_reg :: "modbus_reg_data \<Rightarrow> reg \<Rightarrow> modbus_reg_data \<Rightarrow> modbus_reg_data" where
  "store_reg data Temperature g = g\<lparr>temperature := temperature data\<rparr>"
| "store_reg data Humidity g = g\<lparr>humidity := humidity data\<rparr>"
| "store_reg data Accel_x g = g\<lparr>accel_x := accel_x data\<rparr>"
| "store_reg data Accel_y g = g\<lparr>accel_y := accel_y data\<rparr>"

text \<open>Four separate relaxed stores; \<open>Regs_Race\<close> puts the loads of the server between them.\<close>

definition update_order :: "reg list" where
  "update_order = [Temperature, Humidity, Accel_x, Accel_y]"

definition modbus_server_update_data :: "modbus_reg_data \<Rightarrow> modbus_reg_data \<Rightarrow> modbus_reg_data" where
  "modbus_server_update_data data g = fold (store_reg data) update_order g"

lemma update_data_eq:
  "modbus_server_update_data data g =
     g\<lparr>temperature := temperature data, humidity := humidity data,
       accel_x := accel_x data, accel_y := accel_y data\<rparr>"
  by (simp add: modbus_server_update_data_def update_order_def)

section \<open>One client\<close>

text \<open>An answer: the whole register table with the query, or an exception.\<close>

datatype answer =
    Reply "u8 list" int "u16 list"
  | Reply_exception "u8 list" int

text \<open>
  One round of the loop: \<open>g_running\<close> at its head, what \<open>modbus_receive\<close> returns and writes, the
  time should it be asked for, the values the four atomic loads see, the result of the reply.
\<close>

record request =
  rq_running :: bool
  rq_rc :: int
  rq_frame :: "u8 list"
  rq_now :: int
  rq_regs :: modbus_reg_data
  rq_reply_rc :: int

record 'w server =
  g_blacklist :: "blacklist_entry list"
  tab_registers :: "u16 list"
  sent :: "answer list"
  clients_closed :: nat
  srv_world :: 'w

text \<open>The buffer after a frame was received over what it held before.\<close>

definition received :: "u8 list \<Rightarrow> u8 list \<Rightarrow> u8 list" where
  "received frame query = take (length query) (frame @ drop (length frame) query)"

definition query_function :: "u8 list \<Rightarrow> int" where
  "query_function query = uint (query ! 7)"

text \<open>Two bytes in network order.\<close>

definition word_at :: "u8 list \<Rightarrow> nat \<Rightarrow> int" where
  "word_at query i = push_bit 8 (uint (query ! i)) OR uint (query ! Suc i)"

definition illegal_query :: "u8 list \<Rightarrow> bool" where
  "illegal_query query \<longleftrightarrow>
     query_function query \<noteq> MODBUS_FC_READ_HOLDING_REGISTERS
     \<or> word_at query 8 < 0 \<or> int MODBUS_MAX_REGS < word_at query 8 + word_at query 10"

definition load_order :: "reg list" where
  "load_order = [Temperature, Humidity, Accel_x, Accel_y]"

definition load_regs :: "modbus_reg_data \<Rightarrow> u16 list" where
  "load_regs d = map (\<lambda>r. load_reg r d) load_order"

lemma load_regs_eq: "load_regs d = [temperature d, humidity d, accel_x d, accel_y d]"
  by (simp add: load_regs_def load_order_def)

definition strike :: "(string \<Rightarrow> 'w \<Rightarrow> int \<times> 'w) \<Rightarrow> u32 \<Rightarrow> int \<Rightarrow> 'w server \<Rightarrow> 'w server" where
  "strike system ip now s =
     (let (bl, w) = record_illegal_request system ip now (g_blacklist s) (srv_world s) in
      s\<lparr>g_blacklist := bl, srv_world := w\<rparr>)"

text \<open>One round of the loop: whether it goes on, and the buffer for the next one.\<close>

definition client_request ::
  "(string \<Rightarrow> 'w \<Rightarrow> int \<times> 'w) \<Rightarrow> u32 \<Rightarrow> u8 list \<Rightarrow> request \<Rightarrow> 'w server \<Rightarrow> bool \<times> u8 list \<times> 'w server" where
  "client_request system ip query r s =
     (if \<not> rq_running r \<or> rq_rc r \<le> 0 then (False, query, s\<lparr>clients_closed := clients_closed s + 1\<rparr>)
      else
        let query = received (rq_frame r) query in
        if query_function query \<noteq> MODBUS_FC_READ_HOLDING_REGISTERS then
          let s = strike system ip (rq_now r) s in
          (True, query, s\<lparr>sent := sent s @ [Reply_exception query MODBUS_EXCEPTION_ILLEGAL_FUNCTION]\<rparr>)
        else
          let addr = word_at query 8; count = word_at query 10 in
          if addr < 0 \<or> int MODBUS_MAX_REGS < addr + count then
            let s = strike system ip (rq_now r) s in
            (True, query, s\<lparr>sent := sent s @ [Reply_exception query MODBUS_EXCEPTION_ILLEGAL_DATA_ADDRESS]\<rparr>)
          else
            let s = s\<lparr>tab_registers := load_regs (rq_regs r)\<rparr>;
                s = s\<lparr>sent := sent s @ [Reply query (rq_rc r) (tab_registers s)]\<rparr> in
            if rq_reply_rc r < 0 then (False, query, s\<lparr>clients_closed := clients_closed s + 1\<rparr>)
            else (True, query, s))"

text \<open>
  The loop: the list is what the client sends until the loop ends; when the list ends first the
  server still waits for the next request, with the connection open.
\<close>

fun client_loop ::
  "(string \<Rightarrow> 'w \<Rightarrow> int \<times> 'w) \<Rightarrow> u32 \<Rightarrow> u8 list \<Rightarrow> request list \<Rightarrow> 'w server \<Rightarrow> 'w server" where
  "client_loop system ip query [] s = s"
| "client_loop system ip query (r # rs) s =
     (let (goes_on, query, s) = client_request system ip query r s in
      if goes_on then client_loop system ip query rs s else s)"

text \<open>A connection: the address, the time of the check, the uninitialised buffer, the requests.\<close>

record connection =
  c_ip :: u32
  c_now :: int
  c_query :: "u8 list"
  c_requests :: "request list"

definition handle_client :: "(string \<Rightarrow> 'w \<Rightarrow> int \<times> 'w) \<Rightarrow> connection \<Rightarrow> 'w server \<Rightarrow> 'w server" where
  "handle_client system c s =
     (let (banned, bl) = is_ip_banned (c_ip c) (c_now c) (g_blacklist s);
          s = s\<lparr>g_blacklist := bl\<rparr> in
      if banned then s\<lparr>clients_closed := clients_closed s + 1\<rparr>
      else client_loop system (c_ip c) (c_query c) (c_requests c) s)"

section \<open>The server thread\<close>

text \<open>One round: \<open>g_running\<close>, the result of \<open>select\<close> and whether it was interrupted, the client
  that \<open>accept\<close> returns, if any.\<close>

record round =
  rd_running :: bool
  rd_select :: int
  rd_eintr :: bool
  rd_accept :: "connection option"

fun server_loop :: "(string \<Rightarrow> 'w \<Rightarrow> int \<times> 'w) \<Rightarrow> round list \<Rightarrow> 'w server \<Rightarrow> 'w server" where
  "server_loop system [] s = s"
| "server_loop system (r # rs) s =
     (if \<not> rd_running r then s
      else if rd_select r < 0 then (if rd_eintr r then server_loop system rs s else s)
      else if rd_select r = 0 then server_loop system rs s
      else case rd_accept r of
             None \<Rightarrow> server_loop system rs s
           | Some c \<Rightarrow> server_loop system rs (handle_client system c s))"

definition modbus_server_thread ::
  "(string \<Rightarrow> 'w \<Rightarrow> int \<times> 'w) \<Rightarrow> int \<Rightarrow> round list \<Rightarrow> 'w server \<Rightarrow> 'w server" where
  "modbus_server_thread system server_socket rounds s =
     (if server_socket < 0 then s else server_loop system rounds s)"

section \<open>Start and stop\<close>

text \<open>
  The static pointers, \<open>g_running\<close>, and the objects of the library that are allocated: a context
  is \<open>Inl\<close> of its address, a mapping \<open>Inr\<close>.
\<close>

record modbus_module =
  g_ctx :: "nat option"
  g_mb_mapping :: "nat option"
  g_running :: bool
  g_reg_data :: modbus_reg_data
  m_blacklist :: "blacklist_entry list"
  allocated :: "(nat + nat) list"

definition modbus_free :: "nat \<Rightarrow> modbus_module \<Rightarrow> modbus_module" where
  "modbus_free p m = m\<lparr>allocated := remove1 (Inl p) (allocated m)\<rparr>"

definition modbus_mapping_free :: "nat \<Rightarrow> modbus_module \<Rightarrow> modbus_module" where
  "modbus_mapping_free p m = m\<lparr>allocated := remove1 (Inr p) (allocated m)\<rparr>"

text \<open>The arguments are what \<open>modbus_new_tcp\<close>, \<open>modbus_mapping_new\<close> and \<open>pthread_create\<close> return.\<close>

definition modbus_server_start ::
  "nat option \<Rightarrow> nat option \<Rightarrow> int \<Rightarrow> modbus_module \<Rightarrow> int \<times> modbus_module" where
  "modbus_server_start new_ctx new_mapping thread_rc m =
     (let m = m\<lparr>g_reg_data := zero_regs, m_blacklist := empty_blacklist, g_ctx := new_ctx\<rparr> in
      case new_ctx of
        None \<Rightarrow> (-1, m)
      | Some ctx \<Rightarrow>
          let m = m\<lparr>allocated := Inl ctx # allocated m, g_mb_mapping := new_mapping\<rparr> in
          case new_mapping of
            None \<Rightarrow> (-1, (modbus_free ctx m)\<lparr>g_ctx := None\<rparr>)
          | Some mapping \<Rightarrow>
              let m = m\<lparr>allocated := Inr mapping # allocated m, g_running := True\<rparr> in
              if thread_rc \<noteq> 0
              then (-1, (modbus_free ctx (modbus_mapping_free mapping m))\<lparr>g_mb_mapping := None, g_ctx := None\<rparr>)
              else (0, m))"

text \<open>\<open>fuel\<close> bounds the removal of the firewall rules, a loop that need not end.\<close>

definition modbus_server_stop ::
  "(string \<Rightarrow> 'w \<Rightarrow> int \<times> 'w) \<Rightarrow> nat \<Rightarrow> modbus_module \<times> 'w \<Rightarrow> (modbus_module \<times> 'w) option" where
  "modbus_server_stop system fuel mw =
     (let m = (fst mw)\<lparr>g_running := False\<rparr>;
          m = (case g_mb_mapping m of None \<Rightarrow> m
               | Some p \<Rightarrow> (modbus_mapping_free p m)\<lparr>g_mb_mapping := None\<rparr>);
          m = (case g_ctx m of None \<Rightarrow> m | Some p \<Rightarrow> (modbus_free p m)\<lparr>g_ctx := None\<rparr>) in
      map_option (\<lambda>(n, w). (m, w)) (clear_iptables_rules system fuel (snd mw)))"

text \<open>A stop after a successful start frees what the start allocated.\<close>

lemma modbus_start_stop:
  assumes "g_ctx m = None" and "g_mb_mapping m = None"
    and "iptables_ok system rules" and "count_list (rules world) clear_rule < fuel"
    and "modbus_server_start new_ctx new_mapping thread_rc m = (0, m')"
  shows "\<exists>m2 w2. modbus_server_stop system fuel (m', world) = Some (m2, w2)
    \<and> g_ctx m2 = None \<and> g_mb_mapping m2 = None \<and> \<not> g_running m2 \<and> mset (allocated m2) = mset (allocated m)"
proof -
  obtain w2 n where "clear_iptables_rules system fuel world = Some (n, w2)"
    using clear_iptables_rules_ok [OF assms(3,4)] by blast
  then show ?thesis
    using assms(1,2,5)
    by (cases new_ctx; cases new_mapping)
      (auto simp: modbus_server_start_def modbus_server_stop_def modbus_free_def modbus_mapping_free_def Let_def
        split: if_splits)
qed

section \<open>What a conversation comes to\<close>

text \<open>The queries the loop serves, each with its request, and the answer each gets.\<close>

fun served :: "u8 list \<Rightarrow> request list \<Rightarrow> (u8 list \<times> request) list" where
  "served query [] = []"
| "served query (r # rs) =
     (if \<not> rq_running r \<or> rq_rc r \<le> 0 then []
      else let query = received (rq_frame r) query in
        (query, r) # (if \<not> illegal_query query \<and> rq_reply_rc r < 0 then [] else served query rs))"

definition answer_of :: "u8 list \<times> request \<Rightarrow> answer" where
  "answer_of x =
     (if query_function (fst x) \<noteq> MODBUS_FC_READ_HOLDING_REGISTERS
      then Reply_exception (fst x) MODBUS_EXCEPTION_ILLEGAL_FUNCTION
      else if illegal_query (fst x) then Reply_exception (fst x) MODBUS_EXCEPTION_ILLEGAL_DATA_ADDRESS
      else Reply (fst x) (rq_rc (snd x)) (load_regs (rq_regs (snd x))))"

definition strike_times :: "(u8 list \<times> request) list \<Rightarrow> int list" where
  "strike_times xs = map (\<lambda>x. rq_now (snd x)) (filter (\<lambda>x. illegal_query (fst x)) xs)"

lemma strike_simps [simp]:
  "sent (strike system ip now s) = sent s"
  "clients_closed (strike system ip now s) = clients_closed s"
  "g_blacklist (strike system ip now s) = fst (record_illegal_request system ip now (g_blacklist s) (srv_world s))"
  "srv_world (strike system ip now s) = snd (record_illegal_request system ip now (g_blacklist s) (srv_world s))"
  by (simp_all add: strike_def split_beta)

text \<open>One request: its answer, if it is served, and the strike, if it is illegal.\<close>

definition ends_with :: "request \<Rightarrow> u8 list \<Rightarrow> bool" where
  "ends_with r query \<longleftrightarrow> \<not> illegal_query query \<and> rq_reply_rc r < 0"

lemma client_request_closed:
  "\<not> rq_running r \<or> rq_rc r \<le> 0 \<Longrightarrow>
    client_request system ip query r s = (False, query, s\<lparr>clients_closed := clients_closed s + 1\<rparr>)"
  by (auto simp: client_request_def)

lemma client_request_served:
  assumes "rq_running r" and "0 < rq_rc r" and q: "q = received (rq_frame r) query"
    and step: "client_request system ip query r s = (goes_on, query', s')"
  shows "goes_on = (\<not> ends_with r q)" and "query' = q" and "sent s' = sent s @ [answer_of (q, r)]"
    and "g_blacklist s' = (if illegal_query q then fst (record_illegal_request system ip (rq_now r) (g_blacklist s) (srv_world s))
      else g_blacklist s)"
    and "srv_world s' = (if illegal_query q then snd (record_illegal_request system ip (rq_now r) (g_blacklist s) (srv_world s))
      else srv_world s)"
  using step assms(1,2) unfolding client_request_def q [symmetric] Let_def
  by (auto simp: ends_with_def answer_of_def illegal_query_def split: if_splits)

lemma client_loop_spec:
  "sent (client_loop system ip query rs s) = sent s @ map answer_of (served query rs)
    \<and> (g_blacklist (client_loop system ip query rs s), srv_world (client_loop system ip query rs s))
      = bl_run system (map (Strike ip) (strike_times (served query rs))) (g_blacklist s) (srv_world s)"
proof (induction rs arbitrary: query s)
  case (Cons r rs)
  obtain goes_on query' s' where step: "client_request system ip query r s = (goes_on, query', s')"
    by (metis prod_cases3)
  show ?case
  proof (cases "rq_running r \<and> 0 < rq_rc r")
    case True
    note one = client_request_served [OF conjunct1 [OF True] conjunct2 [OF True] refl step]
    show ?thesis
      using Cons.IH [of query' s'] one step True
      by (auto simp: strike_times_def ends_with_def Let_def split_beta prod_eq_iff)
  next
    case False
    then show ?thesis
      using client_request_closed [of r system ip query s] step by (auto simp: strike_times_def)
  qed
qed (simp add: strike_times_def)

lemma handle_client_served:
  assumes "\<not> fst (is_ip_banned (c_ip c) (c_now c) (g_blacklist s))"
  shows "sent (handle_client system c s) = sent s @ map answer_of (served (c_query c) (c_requests c))"
    and "(g_blacklist (handle_client system c s), srv_world (handle_client system c s))
      = bl_run system (map (Strike (c_ip c)) (strike_times (served (c_query c) (c_requests c))))
          (snd (is_ip_banned (c_ip c) (c_now c) (g_blacklist s))) (srv_world s)"
  using assms client_loop_spec [of system "c_ip c" "c_query c" "c_requests c"
      "s\<lparr>g_blacklist := snd (is_ip_banned (c_ip c) (c_now c) (g_blacklist s))\<rparr>"]
  by (simp_all add: handle_client_def split_beta)

lemma handle_client_banned:
  assumes "fst (is_ip_banned (c_ip c) (c_now c) (g_blacklist s))"
  shows "handle_client system c s = s\<lparr>g_blacklist := snd (is_ip_banned (c_ip c) (c_now c) (g_blacklist s)),
      clients_closed := clients_closed s + 1\<rparr>"
  using assms by (simp add: handle_client_def split_beta)

text \<open>The answers that may leave the server.\<close>

definition answer_safe :: "answer \<Rightarrow> bool" where
  "answer_safe a = (case a of
     Reply q rc tab \<Rightarrow> query_function q = 3 \<and> 0 \<le> word_at q 8 \<and> 0 \<le> word_at q 10
       \<and> word_at q 8 + word_at q 10 \<le> int (length tab)
   | Reply_exception q e \<Rightarrow> e = 1 \<and> query_function q \<noteq> 3
       \<or> e = 2 \<and> query_function q = 3 \<and> 4 < word_at q 8 + word_at q 10)"

lemma word_at_nonneg: "0 \<le> word_at q i"
  by (simp add: word_at_def)

lemma answer_of_safe: "answer_safe (answer_of x)"
  using word_at_nonneg [of "fst x" 8] word_at_nonneg [of "fst x" 10]
  by (auto simp: answer_of_def answer_safe_def illegal_query_def load_regs_eq MODBUS_MAX_REGS_def
      MODBUS_FC_READ_HOLDING_REGISTERS_def MODBUS_EXCEPTION_ILLEGAL_FUNCTION_def
      MODBUS_EXCEPTION_ILLEGAL_DATA_ADDRESS_def)

definition server_ok :: "'w server \<Rightarrow> bool" where
  "server_ok s \<longleftrightarrow> list_all answer_safe (sent s) \<and> bl_ok (g_blacklist s)"

lemma handle_client_ok:
  assumes "server_ok s" and "c_ip c \<noteq> 0"
  shows "server_ok (handle_client system c s)"
proof (cases "fst (is_ip_banned (c_ip c) (c_now c) (g_blacklist s))")
  case True
  then show ?thesis
    using assms is_ip_banned_ok by (simp add: handle_client_banned server_ok_def)
next
  case False
  let ?ops = "map (Strike (c_ip c)) (strike_times (served (c_query c) (c_requests c)))"
  have "g_blacklist (handle_client system c s)
      = fst (bl_run system ?ops (snd (is_ip_banned (c_ip c) (c_now c) (g_blacklist s))) (srv_world s))"
    using handle_client_served(2) [OF False, of system] by (metis fst_conv)
  moreover have "bl_ok \<dots>"
    using assms is_ip_banned_ok by (intro bans.run_good) (auto simp: server_ok_def)
  ultimately show ?thesis
    using assms(1) handle_client_served(1) [OF False, of system]
    by (auto simp: server_ok_def list_all_iff answer_of_safe)
qed

definition real_clients :: "round list \<Rightarrow> bool" where
  "real_clients rounds \<longleftrightarrow>
     list_all (\<lambda>r. case rd_accept r of None \<Rightarrow> True | Some c \<Rightarrow> c_ip c \<noteq> 0) rounds"

lemma server_loop_ok: "server_ok s \<Longrightarrow> real_clients rounds \<Longrightarrow> server_ok (server_loop system rounds s)"
  by (induction system rounds s rule: server_loop.induct)
    (auto simp: handle_client_ok real_clients_def split: option.splits)

text \<open>A connection of an address without a ban that stays below the threshold.\<close>

definition clean :: "u32 \<Rightarrow> 'w server \<Rightarrow> bool" where
  "clean ip s \<longleftrightarrow> bl_ok (g_blacklist s) \<and> ban_time (g_blacklist s) ip = 0"

abbreviation connection_answers :: "connection \<Rightarrow> (u8 list \<times> request) list" where
  "connection_answers c \<equiv> served (c_query c) (c_requests c)"

lemma handle_client_few_strikes:
  assumes "clean ip s" and "ip \<noteq> 0" and "c_ip c = ip" and "0 \<le> c_now c"
    and "length (strike_times (connection_answers c)) \<le> 4"
  shows "clean ip (handle_client system c s) \<and> srv_world (handle_client system c s) = srv_world s
    \<and> sent (handle_client system c s) = sent s @ map answer_of (connection_answers c)"
proof -
  let ?bl = "snd (is_ip_banned ip (c_now c) (g_blacklist s))" and ?s = "handle_client system c s"
  have ok: "bl_ok (g_blacklist s)" and free: "\<not> fst (is_ip_banned ip (c_now c) (g_blacklist s))"
    using assms(1,4) by (simp_all add: clean_def is_ip_banned_ban_time)
  note served = handle_client_served [of c s system, unfolded assms(3), OF free]
  have "strikes ?bl ip = 0" "ban_time ?bl ip = 0"
    using is_ip_banned_entry [OF ok assms(2) free] by simp_all
  then have "bl_ok (g_blacklist ?s) \<and> srv_world ?s = srv_world s \<and> ban_time (g_blacklist ?s) ip = 0"
    using bans.few_strikes [OF is_ip_banned_ok [OF ok] assms(2) _ served(2) [symmetric]] assms(5)
    by (simp add: BLACKLIST_THRESHOLD_def)
  then show ?thesis
    using served(1) by (simp add: clean_def)
qed

section \<open>Properties\<close>

text \<open>
  C12. Whatever clients do, every answer of the server is proper: a register reply only for a read
  of holding registers inside the table, exception 1 only for another function, exception 2 only
  for a read outside the table; and the blacklist keeps its invariant.
\<close>

theorem server_answers_safe:
  assumes "server_ok s" and "real_clients rounds"
  shows "list_all answer_safe (sent (modbus_server_thread system server_socket rounds s))
    \<and> bl_ok (g_blacklist (modbus_server_thread system server_socket rounds s))"
  using server_loop_ok [OF assms] assms(1) by (simp add: modbus_server_thread_def server_ok_def)

definition server_start :: "'w \<Rightarrow> 'w server" where
  "server_start w = \<lparr>g_blacklist = empty_blacklist, tab_registers = [0, 0, 0, 0], sent = [],
     clients_closed = 0, srv_world = w\<rparr>"

text \<open>A request of a well-behaved client, and one for a function the server does not have.\<close>

definition read_request :: "int \<Rightarrow> request" where
  "read_request now = \<lparr>rq_running = True, rq_rc = 12, rq_frame = [0, 1, 0, 0, 0, 6, 1, 3, 0, 0, 0, 2],
     rq_now = now, rq_regs = \<lparr>temperature = 250, humidity = 600, accel_x = 1, accel_y = 2\<rparr>, rq_reply_rc = 13\<rparr>"

definition bad_request :: "int \<Rightarrow> request" where
  "bad_request now = (read_request now)\<lparr>rq_frame := [0, 1, 0, 0, 0, 6, 1, 6, 0, 0, 0, 2]\<rparr>"

definition client :: "u32 \<Rightarrow> int \<Rightarrow> request list \<Rightarrow> connection" where
  "client ip now rs = \<lparr>c_ip = ip, c_now = now, c_query = replicate 260 0, c_requests = rs\<rparr>"

definition read_query :: "u8 list" where
  "read_query = [0, 1, 0, 0, 0, 6, 1, 3, 0, 0, 0, 2] @ replicate 248 0"

definition bad_query :: "u8 list" where
  "bad_query = [0, 1, 0, 0, 0, 6, 1, 6, 0, 0, 0, 2] @ replicate 248 0"

lemma received_simps [simp]:
  "received (rq_frame (read_request now)) (replicate 260 0) = read_query"
  "received (rq_frame (read_request now)) read_query = read_query"
  "received (rq_frame (read_request now)) bad_query = read_query"
  "received (rq_frame (bad_request now)) (replicate 260 0) = bad_query"
  "received (rq_frame (bad_request now)) read_query = bad_query"
  "received (rq_frame (bad_request now)) bad_query = bad_query"
  by (simp_all add: received_def read_request_def bad_request_def read_query_def bad_query_def)

lemma query_simps [simp]:
  "\<not> illegal_query read_query" "illegal_query bad_query"
  "query_function read_query = 3" "query_function bad_query = 6"
  by (simp_all add: illegal_query_def query_function_def word_at_def read_query_def bad_query_def
      MODBUS_FC_READ_HOLDING_REGISTERS_def MODBUS_MAX_REGS_def)

lemma request_simps [simp]:
  "rq_running (read_request now)" "rq_rc (read_request now) = 12" "rq_now (read_request now) = now"
  "rq_reply_rc (read_request now) = 13" "rq_running (bad_request now)" "rq_rc (bad_request now) = 12"
  "rq_now (bad_request now) = now" "c_ip (client ip now rs) = ip" "c_now (client ip now rs) = now"
  "c_query (client ip now rs) = replicate 260 0" "c_requests (client ip now rs) = rs"
  by (simp_all add: read_request_def bad_request_def client_def)

lemma server_start_simps [simp]:
  "g_blacklist (server_start w) = empty_blacklist" "sent (server_start w) = []" "srv_world (server_start w) = w"
  by (simp_all add: server_start_def)

theorem server_answers_safe_witness:
  "list_all answer_safe (sent (modbus_server_thread list_system 5
      [\<lparr>rd_running = True, rd_select = 1, rd_eintr = False,
        rd_accept = Some (client 7 10 [bad_request 11, read_request 12])\<rparr>] (server_start [])))"
  using server_answers_safe [of "server_start []" "[\<lparr>rd_running = True, rd_select = 1, rd_eintr = False,
        rd_accept = Some (client 7 10 [bad_request 11, read_request 12])\<rparr>]" list_system 5]
  by (simp add: server_ok_def bl_ok_empty real_clients_def)

lemma fifths:
  "nat (int n div BLACKLIST_THRESHOLD) = n div 5"
  "int n div BLACKLIST_THRESHOLD = 0 \<longleftrightarrow> n < 5"
  "nat (BLACKLIST_THRESHOLD * (int n div BLACKLIST_THRESHOLD) - 1) = 5 * (n div 5) - 1"
proof -
  have "int n div BLACKLIST_THRESHOLD = int (n div 5)"
    by (simp add: BLACKLIST_THRESHOLD_def zdiv_int)
  then show "nat (int n div BLACKLIST_THRESHOLD) = n div 5" "int n div BLACKLIST_THRESHOLD = 0 \<longleftrightarrow> n < 5"
    "nat (BLACKLIST_THRESHOLD * (int n div BLACKLIST_THRESHOLD) - 1) = 5 * (n div 5) - 1"
    unfolding BLACKLIST_THRESHOLD_def by auto
qed

text \<open>
  C29. Every fifth illegal request of a connection bans its address: the firewall command is issued
  once for each five of them, for this address, and a later connection is closed without an answer
  until 300 seconds after the last of these, and served normally from then on. The program
  itself does not close the open connection: every request that still arrives on it, past the new
  rule of the firewall, is answered, those after the fifth illegal one included.
\<close>

theorem five_illegal_requests_ban:
  assumes "bl_ok (g_blacklist s)" and "c_ip c \<noteq> 0"
    and "\<not> fst (is_ip_banned (c_ip c) (c_now c) (g_blacklist s))"
    and "strike_times (connection_answers c) = ts"
    and "c_ip c' = c_ip c" and "0 \<le> c_now c'"
    and s': "s' = handle_client system c s"
    and "ban_end = (if length ts < 5 then 0 else ts ! (5 * (length ts div 5) - 1) + 300)"
  shows "srv_world s' = ((\<lambda>w. snd (system (ban_command (c_ip c)) w)) ^^ (length ts div 5)) (srv_world s)
    \<and> sent s' = sent s @ map answer_of (connection_answers c)
    \<and> (c_now c' < ban_end \<longrightarrow> handle_client system c' s' = s'\<lparr>clients_closed := clients_closed s' + 1\<rparr>)
    \<and> (ban_end \<le> c_now c' \<longrightarrow> sent (handle_client system c' s') = sent s' @ map answer_of (connection_answers c'))"
proof -
  note served = handle_client_served [OF assms(3), of system, folded s']
  have ban: "srv_world s' = (fire_ban system (c_ip c) ^^ (length ts div 5)) (srv_world s)"
    "ban_time (g_blacklist s') (c_ip c) = ban_end"
    using bans.strikes_after_check [OF assms(1,2,3) served(2) [unfolded assms(4), symmetric]] assms(8)
    by (simp_all add: fifths BLACKLIST_BAN_SEC_def)
  then have banned: "fst (is_ip_banned (c_ip c') (c_now c') (g_blacklist s')) \<longleftrightarrow> c_now c' < ban_end"
    using assms(5,6) by (simp add: is_ip_banned_ban_time)
  then show ?thesis
    using served(1) ban(1) handle_client_banned [of c' s' system] is_ip_banned_same
      handle_client_served(1) [of c' s' system] by (auto simp: fire_ban_def [abs_def])
qed

theorem five_illegal_requests_ban_witness:
  "let c = client 7 10 (map bad_request [10, 11, 12, 13, 14] @ [read_request 15]);
       s = handle_client list_system c (server_start []) in
   srv_world s = [ban_rule 7] \<and> length (sent s) = 6
   \<and> sent (handle_client list_system (client 7 313 [read_request 314]) s) = sent s
   \<and> length (sent (handle_client list_system (client 7 314 [read_request 314]) s)) = 7"
proof -
  let ?c = "client 7 10 (map bad_request [10, 11, 12, 13, 14] @ [read_request 15])"
  have "connection_answers ?c = map (\<lambda>t. (bad_query, bad_request t)) [10, 11, 12, 13, 14] @ [(read_query, read_request 15)]"
    by (simp add: Let_def)
  moreover have "\<not> fst (is_ip_banned 7 10 empty_blacklist)"
    by (simp add: is_ip_banned_ban_time)
  ultimately show ?thesis
    using five_illegal_requests_ban [of "server_start []" ?c "[10, 11, 12, 13, 14]" "client 7 313 [read_request 314]" _ list_system, OF _ _ _ _ _ _ refl refl]
      five_illegal_requests_ban [of "server_start []" ?c "[10, 11, 12, 13, 14]" "client 7 314 [read_request 314]" _ list_system, OF _ _ _ _ _ _ refl refl]
    by (simp add: bl_ok_empty strike_times_def Let_def)
qed

text \<open>
  C30. A client that reconnects before its fifth illegal request is never banned: whatever the
  number of its connections, the firewall is not touched, every one of its requests is answered,
  and it stays without a ban, because the check at the start of a connection resets the counter.
\<close>

theorem reconnecting_client_never_banned:
  assumes "clean ip s" and "ip \<noteq> 0"
    and "\<And>c. c \<in> set cs \<Longrightarrow> c_ip c = ip \<and> 0 \<le> c_now c \<and> length (strike_times (connection_answers c)) \<le> 4"
  shows "clean ip (fold (handle_client system) cs s) \<and> srv_world (fold (handle_client system) cs s) = srv_world s
    \<and> sent (fold (handle_client system) cs s) = sent s @ concat (map (map answer_of \<circ> connection_answers) cs)"
  using assms(1,3)
proof (induction cs arbitrary: s)
  case (Cons c cs)
  have "c_ip c = ip" "0 \<le> c_now c" "length (strike_times (connection_answers c)) \<le> 4"
    using Cons.prems(2) [of c] by simp_all
  note one = handle_client_few_strikes [OF Cons.prems(1) assms(2) this, of system]
  then show ?case
    using Cons.IH [of "handle_client system c s"] Cons.prems(2) by simp
qed simp

theorem reconnecting_client_never_banned_witness:
  "let s = fold (handle_client list_system) (replicate 50 (client 7 10 (map bad_request [10, 11, 12, 13])))
       (server_start []) in
   srv_world s = [] \<and> length (sent s) = 200 \<and> clean 7 s"
proof -
  let ?c = "client 7 10 (map bad_request [10, 11, 12, 13])"
  have "connection_answers ?c = map (\<lambda>t. (bad_query, bad_request t)) [10, 11, 12, 13]"
    by (simp add: Let_def)
  moreover have "length (concat (replicate n xs)) = n * length xs" for n and xs :: "answer list"
    by (induction n) simp_all
  ultimately show ?thesis
    using reconnecting_client_never_banned [of 7 "server_start []" "replicate 50 ?c" list_system]
    by (simp add: bl_ok_empty clean_def strike_times_def Let_def)
qed

definition module_start :: modbus_module where
  "module_start = \<lparr>g_ctx = None, g_mb_mapping = None, g_running = True, g_reg_data = zero_regs,
     m_blacklist = empty_blacklist, allocated = []\<rparr>"

end
