(* ===== verification/Modbus_Client.thy ===== *)
theory Modbus_Client
  imports Modbus_Server
begin

text \<open>
  The Modbus test client of \<open>app/modbus/modbus_test_client.c\<close>, over the functions of libmodbus it
  calls, and its run against the server of the program: a legal read, a read of an illegal address,
  five requests of an illegal function, and a second connection that is to be refused.
\<close>

section \<open>The library\<close>

text \<open>
  What the client uses of libmodbus: \<open>'c\<close> is a context, NULL is \<open>None\<close>, \<open>'w\<close> the world with the
  network. \<open>modbus_read_registers\<close> also answers what it stored.
\<close>

record ('c, 'w) libmodbus =
  modbus_new_tcp :: "string \<Rightarrow> int \<Rightarrow> 'w \<Rightarrow> 'c option \<times> 'w"
  modbus_set_response_timeout :: "'c option \<Rightarrow> int \<Rightarrow> 'w \<Rightarrow> 'w"
  modbus_set_byte_timeout :: "'c option \<Rightarrow> int \<Rightarrow> 'w \<Rightarrow> 'w"
  modbus_connect :: "'c option \<Rightarrow> 'w \<Rightarrow> int \<times> 'w"
  modbus_read_registers :: "'c \<Rightarrow> int \<Rightarrow> int \<Rightarrow> 'w \<Rightarrow> int \<times> u16 list \<times> 'w"
  modbus_send_raw_request :: "'c \<Rightarrow> u8 list \<Rightarrow> 'w \<Rightarrow> int \<times> 'w"
  modbus_receive_confirmation :: "'c \<Rightarrow> 'w \<Rightarrow> int \<times> 'w"
  modbus_close :: "'c option \<Rightarrow> 'w \<Rightarrow> 'w"
  modbus_free_c :: "'c option \<Rightarrow> 'w \<Rightarrow> 'w"

section \<open>The program\<close>

text \<open>What it prints as the outcome of a step.\<close>

datatype report =
    No_context | Connect_failed
  | Read_failed | Registers int "u16 list"
  | Address_refused | Address_served
  | Illegal_answered nat
  | Ban_active | Ban_not_active

definition client_ip :: "string list \<Rightarrow> string" where
  "client_ip argv = (if 1 < length argv then argv ! 1 else ''127.0.0.1'')"

definition client_port :: "string list \<Rightarrow> int" where
  "client_port argv = (if 2 < length argv then atoi (argv ! 2) else 502)"

text \<open>The first eight bytes of \<open>raw_req\<close>; the client hands over the two from 6 on.\<close>

definition raw_req :: "int \<Rightarrow> u8 list" where
  "raw_req tid = [word_of_int (drop_bit 8 tid), word_of_int (tid AND 255), 0, 0, 0, 2, 1, 8]"

fun illegal_requests :: "('c, 'w) libmodbus \<Rightarrow> 'c \<Rightarrow> nat \<Rightarrow> nat \<Rightarrow> 'w \<Rightarrow> report list \<times> 'w" where
  "illegal_requests lib ctx i 0 w = ([], w)"
| "illegal_requests lib ctx i (Suc n) w =
     (let (sent, w) = modbus_send_raw_request lib ctx (take 2 (drop 6 (raw_req (1 + int i)))) w;
          (out, w) = (if 0 < sent
             then (let (rc, w) = modbus_receive_confirmation lib ctx w in (if 0 < rc then [Illegal_answered (i + 1)] else [], w))
             else ([], w));
          (outs, w) = illegal_requests lib ctx (i + 1) n w in
      (out @ outs, w))"

definition modbus_test_main :: "('c, 'w) libmodbus \<Rightarrow> string list \<Rightarrow> 'w \<Rightarrow> int \<times> report list \<times> 'w" where
  "modbus_test_main lib argv w =
     (let ip = client_ip argv; port = client_port argv; (ctx, w) = modbus_new_tcp lib ip port w in
      case ctx of
        None \<Rightarrow> (1, [No_context], w)
      | Some c \<Rightarrow>
          let w = modbus_set_response_timeout lib (Some c) 3 w;
              w = modbus_set_byte_timeout lib (Some c) 3 w;
              (rc, w) = modbus_connect lib (Some c) w in
          if rc = -1 then (1, [Connect_failed], modbus_free_c lib (Some c) w)
          else
            let (rc, tab_reg, w) = modbus_read_registers lib c 0 4 w;
                out1 = (if rc = -1 then Read_failed else Registers rc tab_reg);
                (rc, tab_reg, w) = modbus_read_registers lib c 10 1 w;
                out2 = (if rc = -1 then Address_refused else Address_served);
                (outs, w) = illegal_requests lib c 0 5 w;
                w = modbus_free_c lib (Some c) (modbus_close lib (Some c) w);
                (ctx, w) = modbus_new_tcp lib ip port w;
                w = modbus_set_response_timeout lib ctx 2 w;
                (rc, w) = modbus_connect lib ctx w in
            if rc = -1 then (0, [out1, out2] @ outs @ [Ban_active], modbus_free_c lib ctx w)
            else (0, [out1, out2] @ outs @ [Ban_not_active], modbus_free_c lib ctx (modbus_close lib ctx w)))"

text \<open>The temperature it prints, in hundredths: the register as an unsigned number.\<close>

definition shown_hundredths :: "u16 \<Rightarrow> int" where
  "shown_hundredths r = uint r"

section \<open>The contexts\<close>

text \<open>
  What libmodbus documents of its contexts: \<open>modbus_new_tcp\<close> allocates one or answers NULL,
  \<open>modbus_free\<close> (here \<open>modbus_free_c\<close>) frees it and ignores NULL, nothing else does either, and a NULL context cannot be
  connected.
\<close>

definition counts_contexts :: "('c, 'w) libmodbus \<Rightarrow> ('w \<Rightarrow> int) \<Rightarrow> bool" where
  "counts_contexts lib live \<longleftrightarrow>
     (\<forall>ip port w. live (snd (modbus_new_tcp lib ip port w)) = live w + (if fst (modbus_new_tcp lib ip port w) = None then 0 else 1))
     \<and> (\<forall>c w. live (modbus_free_c lib c w) = live w - (if c = None then 0 else 1))
     \<and> (\<forall>c k w. live (modbus_set_response_timeout lib c k w) = live w \<and> live (modbus_set_byte_timeout lib c k w) = live w)
     \<and> (\<forall>c w. live (snd (modbus_connect lib c w)) = live w)
     \<and> (\<forall>c a n w. live (snd (snd (modbus_read_registers lib c a n w))) = live w)
     \<and> (\<forall>c bs w. live (snd (modbus_send_raw_request lib c bs w)) = live w)
     \<and> (\<forall>c w. live (snd (modbus_receive_confirmation lib c w)) = live w)
     \<and> (\<forall>c w. live (modbus_close lib c w) = live w)
     \<and> (\<forall>w. fst (modbus_connect lib None w) = -1)"

lemma illegal_requests_live:
  "counts_contexts lib live \<Longrightarrow> live (snd (illegal_requests lib ctx i n w)) = live w"
  by (induction n arbitrary: i w) (simp_all add: counts_contexts_def split_beta Let_def)

lemma main_live:
  assumes "counts_contexts lib live"
  shows "live (snd (snd (modbus_test_main lib argv w))) = live w"
  using assms illegal_requests_live [OF assms]
  by (simp add: modbus_test_main_def counts_contexts_def split_beta Let_def split: option.split)

section \<open>The client and the server\<close>

text \<open>
  The network between the client, at the address \<open>ip\<close>, and the server: a request becomes a frame of
  Modbus TCP, which the server answers unless a firewall rule drops it; then the client's wait runs
  into its timeout. The server keeps its tables, the buffer of the open connection and, as the world
  of its \<open>system\<close>, the rules of the firewall.
\<close>

record wire =
  wi_server :: "string list server"
  wi_query :: "u8 list"
  wi_reply :: "answer option"
  wi_contexts :: int

definition dropped :: "u32 \<Rightarrow> wire \<Rightarrow> bool" where
  "dropped ip w \<longleftrightarrow> ban_rule ip \<in> set (srv_world (wi_server w))"

text \<open>The request as the server's loop gets it.\<close>

definition wire_request :: "int \<Rightarrow> modbus_reg_data \<Rightarrow> u8 list \<Rightarrow> request" where
  "wire_request now regs frame = \<lparr>rq_running = True, rq_rc = int (length frame), rq_frame = frame, rq_now = now,
     rq_regs = regs, rq_reply_rc = 0\<rparr>"

definition ask :: "u32 \<Rightarrow> int \<Rightarrow> modbus_reg_data \<Rightarrow> u8 list \<Rightarrow> wire \<Rightarrow> wire" where
  "ask ip now regs frame w =
     (if dropped ip w then w\<lparr>wi_reply := None\<rparr>
      else
        let (goes_on, query, s) = client_request list_system ip (wi_query w) (wire_request now regs frame) (wi_server w) in
        w\<lparr>wi_server := s, wi_query := query, wi_reply := Some (last (sent s))\<rparr>)"

definition read_frame :: "int \<Rightarrow> int \<Rightarrow> u8 list" where
  "read_frame addr n = [0, 0, 0, 0, 0, 6, 255, 3, word_of_int (addr div 256), word_of_int addr, word_of_int (n div 256), word_of_int n]"

definition wired :: "u32 \<Rightarrow> int \<Rightarrow> modbus_reg_data \<Rightarrow> (unit, wire) libmodbus" where
  "wired ip now regs =
     \<lparr>modbus_new_tcp = \<lambda>_ _ w. (Some (), w\<lparr>wi_contexts := wi_contexts w + 1\<rparr>),
      modbus_set_response_timeout = \<lambda>_ _ w. w,
      modbus_set_byte_timeout = \<lambda>_ _ w. w,
      modbus_connect = \<lambda>c w.
        if c = None \<or> dropped ip w then (-1, w)
        else
          let (banned, bl) = is_ip_banned ip now (g_blacklist (wi_server w)) in
          (0, w\<lparr>wi_server := (wi_server w)\<lparr>g_blacklist := bl\<rparr>, wi_query := replicate 260 0\<rparr>),
      modbus_read_registers = \<lambda>_ addr n w.
        let w = ask ip now regs (read_frame addr n) w in
        (case wi_reply w of
           Some (Reply q rc tab) \<Rightarrow> (n, take (nat n) (drop (nat addr) tab), w)
         | _ \<Rightarrow> (-1, [], w)),
      modbus_send_raw_request = \<lambda>_ bytes w. (8, ask ip now regs ([0, 0, 0, 0, 0, 2] @ bytes) w),
      modbus_receive_confirmation = \<lambda>_ w. (if wi_reply w = None then -1 else 9, w),
      modbus_close = \<lambda>_ w. w,
      modbus_free_c = \<lambda>c w. w\<lparr>wi_contexts := wi_contexts w - (if c = None then 0 else 1)\<rparr>\<rparr>"

definition wire_start :: wire where
  "wire_start = \<lparr>wi_server = server_start [], wi_query = [], wi_reply = None, wi_contexts = 0\<rparr>"

lemma wired_counts: "counts_contexts (wired ip now regs) wi_contexts"
  by (auto simp: counts_contexts_def wired_def ask_def split_beta Let_def split: option.split answer.split)

text \<open>An open connection of an address with \<open>k\<close> strikes against it.\<close>

definition on_wire :: "u32 \<Rightarrow> int \<Rightarrow> wire \<Rightarrow> bool" where
  "on_wire ip k w \<longleftrightarrow> bl_ok (g_blacklist (wi_server w)) \<and> strikes (g_blacklist (wi_server w)) ip = k
     \<and> srv_world (wi_server w) = [] \<and> length (wi_query w) = 260"

lemma received_nth: "i < length frame \<Longrightarrow> i < length query \<Longrightarrow> received frame query ! i = frame ! i"
  by (simp add: received_def nth_append)

lemma received_length: "length (received frame query) = length query"
  by (simp add: received_def)

lemma ask_legal:
  assumes "on_wire ip k w" and "frame \<noteq> []" and "\<not> illegal_query (received frame (wi_query w))"
  shows "on_wire ip k (ask ip now regs frame w)"
    and "\<exists>q rc. wi_reply (ask ip now regs frame w) = Some (Reply q rc (load_regs regs))"
proof -
  let ?q = "received frame (wi_query w)"
  obtain g q' s where r: "client_request list_system ip (wi_query w) (wire_request now regs frame) (wi_server w) = (g, q', s)"
    by (metis prod_cases3)
  have one: "q' = ?q" "sent s = sent (wi_server w) @ [answer_of (?q, wire_request now regs frame)]"
    "g_blacklist s = g_blacklist (wi_server w)" "srv_world s = srv_world (wi_server w)"
    using client_request_served [OF _ _ _ r, of ?q] assms(2,3) by (simp_all add: wire_request_def)
  have a: "ask ip now regs frame w = w\<lparr>wi_server := s, wi_query := q', wi_reply := Some (last (sent s))\<rparr>"
    using r assms(1) by (simp add: ask_def dropped_def on_wire_def)
  show "on_wire ip k (ask ip now regs frame w)"
    using assms(1) one unfolding a by (simp add: on_wire_def received_length)
  show "\<exists>q rc. wi_reply (ask ip now regs frame w) = Some (Reply q rc (load_regs regs))"
    using one(2) assms(3) unfolding a by (simp add: answer_of_def wire_request_def illegal_query_def)
qed

lemma ask_illegal:
  assumes "on_wire ip k w" and "ip \<noteq> 0" and "frame \<noteq> []" and "illegal_query (received frame (wi_query w))"
  shows "k < 4 \<Longrightarrow> on_wire ip (k + 1) (ask ip now regs frame w)"
    and "k = 4 \<Longrightarrow> srv_world (wi_server (ask ip now regs frame w)) = [ban_rule ip]"
    and "\<exists>q e. wi_reply (ask ip now regs frame w) = Some (Reply_exception q e)"
proof -
  let ?q = "received frame (wi_query w)"
  obtain g q' s where r: "client_request list_system ip (wi_query w) (wire_request now regs frame) (wi_server w) = (g, q', s)"
    by (metis prod_cases3)
  obtain bl' w' where rec: "record_illegal_request list_system ip now (g_blacklist (wi_server w)) (srv_world (wi_server w)) = (bl', w')"
    by fastforce
  have one: "q' = ?q" "sent s = sent (wi_server w) @ [answer_of (?q, wire_request now regs frame)]" "g_blacklist s = bl'" "srv_world s = w'"
    using client_request_served [OF _ _ _ r, of ?q] assms(3,4) rec by (simp_all add: wire_request_def)
  have a: "ask ip now regs frame w = w\<lparr>wi_server := s, wi_query := q', wi_reply := Some (last (sent s))\<rparr>"
    using r assms(1) by (simp add: ask_def dropped_def on_wire_def)
  have w: "bl_ok (g_blacklist (wi_server w))" "strikes (g_blacklist (wi_server w)) ip = k" "srv_world (wi_server w) = []"
    using assms(1) by (simp_all add: on_wire_def)
  note res = record_illegal_request_result [OF w(1) assms(2) rec]
  have "bl_ok bl'"
    using record_illegal_request_ok(1) [OF w(1) assms(2), of list_system now "srv_world (wi_server w)"] rec by simp
  then show "k < 4 \<Longrightarrow> on_wire ip (k + 1) (ask ip now regs frame w)"
    using assms(1) one res w unfolding a by (simp add: on_wire_def received_length BLACKLIST_THRESHOLD_def)
  show "k = 4 \<Longrightarrow> srv_world (wi_server (ask ip now regs frame w)) = [ban_rule ip]"
    using one res w unfolding a by (simp add: BLACKLIST_THRESHOLD_def fire_ban_def)
  show "\<exists>q e. wi_reply (ask ip now regs frame w) = Some (Reply_exception q e)"
    using one(2) assms(4) unfolding a by (simp add: answer_of_def illegal_query_def)
qed

text \<open>The three kinds of request of the client.\<close>

lemma word_at_received:
  "length query = 260 \<Longrightarrow> Suc i < length frame \<Longrightarrow> length frame \<le> 260 \<Longrightarrow> word_at (received frame query) i = word_at frame i"
  by (simp add: word_at_def received_nth)

lemma query_function_received:
  "length query = 260 \<Longrightarrow> 7 < length frame \<Longrightarrow> query_function (received frame query) = query_function frame"
  by (simp add: query_function_def received_nth)

lemma client_queries:
  assumes "length query = 260"
  shows "\<not> illegal_query (received (read_frame 0 4) query)" "illegal_query (received (read_frame 10 1) query)"
    "illegal_query (received ([0, 0, 0, 0, 0, 2] @ take 2 (drop 6 (raw_req tid))) query)"
proof -
  have "word_at (read_frame 0 4) 8 = 0" "word_at (read_frame 0 4) 10 = 4" "word_at (read_frame 10 1) 8 = 10" "word_at (read_frame 10 1) 10 = 1"
    "query_function (read_frame 0 4) = 3" "query_function (read_frame 10 1) = 3"
    by (simp_all add: word_at_def read_frame_def query_function_def)
  then show "\<not> illegal_query (received (read_frame 0 4) query)" "illegal_query (received (read_frame 10 1) query)"
    using assms by (simp_all add: illegal_query_def word_at_received query_function_received read_frame_def
        MODBUS_FC_READ_HOLDING_REGISTERS_def MODBUS_MAX_REGS_def)
  show "illegal_query (received ([0, 0, 0, 0, 0, 2] @ take 2 (drop 6 (raw_req tid))) query)"
    using assms by (simp add: illegal_query_def query_function_received raw_req_def) (simp add: query_function_def MODBUS_FC_READ_HOLDING_REGISTERS_def)
qed

lemma wired_read_legal:
  assumes "on_wire ip k w"
  obtains w' where "modbus_read_registers (wired ip now regs) () 0 4 w = (4, load_regs regs, w')" "on_wire ip k w'"
proof -
  have len: "length (wi_query w) = 260"
    using assms by (simp add: on_wire_def)
  obtain q rc where "wi_reply (ask ip now regs (read_frame 0 4) w) = Some (Reply q rc (load_regs regs))"
    using ask_legal(2) [OF assms _ client_queries(1) [OF len], of now regs] by (auto simp: read_frame_def)
  then show ?thesis
    using that ask_legal(1) [OF assms _ client_queries(1) [OF len], of now regs]
    by (simp add: wired_def Let_def load_regs_eq read_frame_def)
qed

lemma wired_read_illegal:
  assumes "on_wire ip 0 w" and "ip \<noteq> 0"
  obtains w' where "modbus_read_registers (wired ip now regs) () 10 1 w = (-1, [], w')" "on_wire ip 1 w'"
proof -
  have len: "length (wi_query w) = 260"
    using assms by (simp add: on_wire_def)
  note asked = ask_illegal [OF assms _ client_queries(2) [OF len], of now regs]
  obtain q e where "wi_reply (ask ip now regs (read_frame 10 1) w) = Some (Reply_exception q e)"
    using asked(3) by (auto simp: read_frame_def)
  then show ?thesis
    using that asked(1) by (simp add: wired_def Let_def read_frame_def)
qed

text \<open>One of the five illegal requests: answered, and with the fifth strike against the address the ban.\<close>

lemma wired_illegal:
  assumes "on_wire ip k w" and "ip \<noteq> 0"
  obtains w' where "modbus_send_raw_request (wired ip now regs) () (take 2 (drop 6 (raw_req tid))) w = (8, w')"
    "modbus_receive_confirmation (wired ip now regs) () w' = (9, w')" "k < 4 \<longrightarrow> on_wire ip (k + 1) w'"
    "k = 4 \<longrightarrow> srv_world (wi_server w') = [ban_rule ip]"
proof -
  have len: "length (wi_query w) = 260"
    using assms by (simp add: on_wire_def)
  note asked = ask_illegal [OF assms _ client_queries(3) [OF len], of tid now regs]
  show ?thesis
    using that [of "ask ip now regs ([0, 0, 0, 0, 0, 2] @ take 2 (drop 6 (raw_req tid))) w"] asked by (auto simp: wired_def)
qed

lemma wired_dropped:
  assumes "srv_world (wi_server w) = [ban_rule ip]"
  shows "modbus_send_raw_request (wired ip now regs) () bytes w = (8, w\<lparr>wi_reply := None\<rparr>)"
    "modbus_receive_confirmation (wired ip now regs) () (w\<lparr>wi_reply := None\<rparr>) = (-1, w\<lparr>wi_reply := None\<rparr>)"
  using assms by (simp_all add: wired_def ask_def dropped_def)

lemma wired_five:
  assumes "on_wire ip 1 w" and "ip \<noteq> 0"
  obtains w' where "illegal_requests (wired ip now regs) () 0 5 w = (map Illegal_answered [1, 2, 3, 4], w')"
    "srv_world (wi_server w') = [ban_rule ip]"
proof -
  obtain w1 where w1: "modbus_send_raw_request (wired ip now regs) () (take 2 (drop 6 (raw_req 1))) w = (8, w1)"
    "modbus_receive_confirmation (wired ip now regs) () w1 = (9, w1)" "on_wire ip 2 w1"
    using wired_illegal [OF assms, of now regs 1] by auto
  obtain w2 where w2: "modbus_send_raw_request (wired ip now regs) () (take 2 (drop 6 (raw_req 2))) w1 = (8, w2)"
    "modbus_receive_confirmation (wired ip now regs) () w2 = (9, w2)" "on_wire ip 3 w2"
    using wired_illegal [OF w1(3) assms(2), of now regs 2] by auto
  obtain w3 where w3: "modbus_send_raw_request (wired ip now regs) () (take 2 (drop 6 (raw_req 3))) w2 = (8, w3)"
    "modbus_receive_confirmation (wired ip now regs) () w3 = (9, w3)" "on_wire ip 4 w3"
    using wired_illegal [OF w2(3) assms(2), of now regs 3] by auto
  obtain w4 where w4: "modbus_send_raw_request (wired ip now regs) () (take 2 (drop 6 (raw_req 4))) w3 = (8, w4)"
    "modbus_receive_confirmation (wired ip now regs) () w4 = (9, w4)" "srv_world (wi_server w4) = [ban_rule ip]"
    using wired_illegal [OF w3(3) assms(2), of now regs 4] by auto
  have five: "(5 :: nat) = Suc (Suc (Suc (Suc (Suc 0))))"
    by simp
  have "illegal_requests (wired ip now regs) () 0 5 w = (map Illegal_answered [1, 2, 3, 4], w4\<lparr>wi_reply := None\<rparr>)"
    unfolding five illegal_requests.simps by (simp add: Let_def w1(1,2) w2(1,2) w3(1,2) w4(1,2) wired_dropped [OF w4(3)])
  then show ?thesis
    using that w4(3) by simp
qed

section \<open>Properties\<close>

text \<open>
  C28. The client against the server: from a fresh server, with a firewall that enforces the rule the
  server issues, the client reads the four registers as they are, is refused the illegal address,
  and is banned: exactly one rule for its address, and its second connection fails. But the refused
  address is a strike too, so that already the fourth of the five illegal functions brings the ban
  and the fifth is never answered. Every context of the library is freed.
\<close>

theorem client_meets_server:
  assumes "ip \<noteq> 0" and "0 \<le> now"
  shows "\<exists>w. modbus_test_main (wired ip now regs) argv wire_start
      = (0, [Registers 4 (load_regs regs), Address_refused] @ map Illegal_answered [1, 2, 3, 4] @ [Ban_active], w)
    \<and> srv_world (wi_server w) = [ban_rule ip] \<and> wi_contexts w = 0"
proof -
  obtain bl where bl: "is_ip_banned ip now empty_blacklist = (False, bl)"
    using is_ip_banned_ban_time [OF assms(2)] empty_ban_time [OF assms(1)] assms(2) by (metis not_less prod.collapse)
  define w1 where "w1 = wire_start\<lparr>wi_contexts := 1, wi_server := (server_start [])\<lparr>g_blacklist := bl\<rparr>, wi_query := replicate 260 0\<rparr>"
  have "bl_ok bl" "strikes bl ip = 0"
    using is_ip_banned_ok [OF bl_ok_empty, of ip now] is_ip_banned_entry [OF bl_ok_empty assms(1), of now] bl by simp_all
  then have "on_wire ip 0 w1"
    by (simp add: on_wire_def w1_def)
  then obtain w2 where w2: "modbus_read_registers (wired ip now regs) () 0 4 w1 = (4, load_regs regs, w2)" "on_wire ip 0 w2"
    by (rule wired_read_legal)
  obtain w3 where w3: "modbus_read_registers (wired ip now regs) () 10 1 w2 = (-1, [], w3)" "on_wire ip 1 w3"
    by (rule wired_read_illegal [OF w2(2) assms(1)])
  obtain w4 where w4: "illegal_requests (wired ip now regs) () 0 5 w3 = (map Illegal_answered [1, 2, 3, 4], w4)"
    "srv_world (wi_server w4) = [ban_rule ip]"
    by (rule wired_five [OF w3(2) assms(1)])
  have start: "wi_contexts wire_start = 0" "modbus_connect (wired ip now regs) (Some ()) (wire_start\<lparr>wi_contexts := 1\<rparr>) = (0, w1)"
    using bl by (simp_all add: wired_def wire_start_def dropped_def w1_def)
  have quiet: "modbus_set_response_timeout (wired ip now regs) c k w = w" "modbus_set_byte_timeout (wired ip now regs) c k w = w"
    "modbus_close (wired ip now regs) c w = w"
    "modbus_new_tcp (wired ip now regs) a p w = (Some (), w\<lparr>wi_contexts := wi_contexts w + 1\<rparr>)"
    "modbus_free_c (wired ip now regs) (Some ()) w = w\<lparr>wi_contexts := wi_contexts w - 1\<rparr>" for a p c k w
    by (simp_all add: wired_def)
  have again: "modbus_connect (wired ip now regs) c w4 = (-1, w4)" for c
    using w4(2) by (simp add: wired_def dropped_def)
  have "modbus_test_main (wired ip now regs) argv wire_start
      = (0, [Registers 4 (load_regs regs), Address_refused] @ map Illegal_answered [1, 2, 3, 4] @ [Ban_active], w4\<lparr>wi_contexts := wi_contexts w4 - 1\<rparr>)"
    unfolding modbus_test_main_def by (simp add: Let_def quiet again start w2(1) w3(1) w4(1))
  moreover from this have "wi_contexts w4 - 1 = 0"
    using main_live [OF wired_counts, of ip now regs argv wire_start] by (simp add: wire_start_def)
  ultimately show ?thesis
    using w4(2) by auto
qed

theorem client_meets_server_witness:
  "\<exists>w. modbus_test_main (wired 7 10 zero_regs) [] wire_start
      = (0, [Registers 4 [0, 0, 0, 0], Address_refused, Illegal_answered 1, Illegal_answered 2, Illegal_answered 3, Illegal_answered 4, Ban_active], w)
    \<and> srv_world (wi_server w) = [ban_rule 7]"
  using client_meets_server [of 7 10 zero_regs "[]"] by (auto simp: load_regs_eq zero_regs_def)

text \<open>
  The client returns on every path, frees every context it was given, and its exit code is 1 only
  when it had no context or no first connection: with 0 it has printed one line for each of the two
  reads and a verdict on the ban, whatever these were, a second context that is NULL being reported
  as the ban.
\<close>

theorem client_exit:
  assumes "counts_contexts lib live" and "modbus_test_main lib argv w = (rc, out, w')"
  shows "live w' = live w \<and> (rc = 1 \<and> out \<in> {[No_context], [Connect_failed]}
    \<or> rc = 0 \<and> hd out \<noteq> No_context \<and> last out \<in> {Ban_active, Ban_not_active})"
  using main_live [OF assms(1), of argv w] assms(2)
  by (auto simp: modbus_test_main_def Let_def split: prod.splits option.splits if_splits)

theorem client_exit_witness:
  "\<exists>w. modbus_test_main (wired 7 10 zero_regs\<lparr>modbus_new_tcp := \<lambda>_ _ w. (None, w)\<rparr>) [] wire_start = (1, [No_context], w) \<and> wi_contexts w = 0"
proof -
  let ?lib = "wired 7 10 zero_regs\<lparr>modbus_new_tcp := \<lambda>_ _ w. (None, w)\<rparr>"
  have "counts_contexts ?lib wi_contexts"
    using wired_counts [of 7 10 zero_regs] by (simp add: counts_contexts_def)
  moreover have run: "modbus_test_main ?lib [] wire_start = (1, [No_context], wire_start)"
    by (simp add: modbus_test_main_def Let_def)
  ultimately show ?thesis
    using client_exit [OF _ run] by (simp add: wire_start_def)
qed

text \<open>
  The client prints the temperature register as an unsigned number: right from 0 on, but below zero
  it shows 655.36 degrees too much.
\<close>

theorem client_shows_unsigned:
  assumes "- 32768 \<le> k" and "k < 32768"
  shows "shown_hundredths (word_of_int k) = (if 0 \<le> k then k else k + 65536)"
proof -
  have "k mod 65536 = (if 0 \<le> k then k else k + 65536)"
    using assms mod_pos_pos_trivial [of "k + 65536" 65536] by simp
  then show ?thesis
    using assms(1) by (simp add: shown_hundredths_def unsigned_of_int take_bit_eq_mod)
qed

theorem client_shows_unsigned_witness: "shown_hundredths (word_of_int (-525)) = 65011"
  using client_shows_unsigned [of "-525"] by simp

end
