(* ===== verification/Mpu6050_Hal.thy ===== *)
theory Mpu6050_Hal
  imports Sensor_Hal
begin

text \<open>
  The motion sensor's driver of the abstraction layer (\<open>app/hal/mpu6050_hal.c\<close>): samples are
  collected axis by axis from the events of an input device and handed out six at a time.

  libevdev and the file system are outside the repository: what each call answers is an argument,
  and the answers of \<open>libevdev_next_event\<close> are a list that a read consumes.
\<close>

section \<open>Events\<close>

definition EV_ABS :: nat where "EV_ABS = 3"

record input_event =
  ev_tv_sec :: int
  ev_tv_usec :: int
  ev_type :: nat
  ev_code :: nat
  ev_value :: i32

text \<open>An answer of \<open>libevdev_next_event\<close>: its result and the event it stores.\<close>

type_synonym next_event = "int \<times> input_event"

text \<open>The designated initialisers \<open>ABS_X\<close> = 0, \<open>ABS_Y\<close> = 1, ..., \<open>ABS_RZ\<close> = 5.\<close>

definition axis_map :: "int list" where "axis_map = [0, 1, 2, 3, 4, 5]"

section \<open>State\<close>

record mpu6050_hal =
  fd :: int
  evdev :: nat
  cache :: "sensor_data list"
  cache_count :: nat

section \<open>Opening and closing\<close>

text \<open>
  The arguments: the descriptor \<open>open\<close> returns with \<open>errno\<close> after \<open>perror\<close>, the object of
  \<open>libevdev_new\<close>, the result of \<open>libevdev_set_fd\<close>, the block of \<open>calloc\<close>. The last component of
  the result is what is held afterwards.
\<close>

definition mpu6050_hal_open ::
  "int \<Rightarrow> int \<Rightarrow> nat option \<Rightarrow> int \<Rightarrow> nat option \<Rightarrow> resource list
    \<Rightarrow> int \<times> (nat \<times> mpu6050_hal) option \<times> resource list" where
  "mpu6050_hal_open open_fd errno new_evdev set_fd_rc new_block held =
     (if open_fd < 0 then (- errno, None, held)
      else let held = Fd open_fd # held in
        case new_evdev of
          None \<Rightarrow> (- ENOMEM, None, remove1 (Fd open_fd) held)
        | Some e \<Rightarrow>
            let held = Evdev e # held in
            if set_fd_rc < 0 then (- ENODEV, None, remove1 (Fd open_fd) (remove1 (Evdev e) held))
            else case new_block of
              None \<Rightarrow> (- ENOMEM, None, remove1 (Fd open_fd) (remove1 (Evdev e) held))
            | Some b \<Rightarrow>
                (0, Some (b, \<lparr>fd = open_fd, evdev = e, cache = replicate 6 zero_sensor_data, cache_count = 0\<rparr>),
                 Block b # held))"

text \<open>\<open>handle\<close> is what \<open>*handle\<close> points to; a NULL \<open>handle\<close> itself is not passed by any caller.\<close>

definition mpu6050_hal_close ::
  "(nat \<times> mpu6050_hal) option \<Rightarrow> resource list \<Rightarrow> int \<times> (nat \<times> mpu6050_hal) option \<times> resource list" where
  "mpu6050_hal_close handle held =
     (case handle of
        None \<Rightarrow> (- EINVAL, None, held)
      | Some (b, priv) \<Rightarrow>
          (0, None, remove1 (Block b) (remove1 (Fd (fd priv)) (remove1 (Evdev (evdev priv)) held))))"

definition mpu6050_hal_ioctl :: int where
  "mpu6050_hal_ioctl = - ENOTSUP"

text \<open>The text \<open>snprintf\<close> leaves in the buffer; the name is the one libevdev knows the device by.\<close>

definition mpu6050_hal_get_info :: "(nat \<Rightarrow> string) \<Rightarrow> mpu6050_hal \<Rightarrow> nat \<Rightarrow> string" where
  "mpu6050_hal_get_info libevdev_get_name priv buf_len =
     take (buf_len - 1)
       (''MPU6050: 6-axis IMU, driver='' @ libevdev_get_name (evdev priv) @ '', bus=I2C1, addr=0x68'')"

section \<open>Reading\<close>

text \<open>The samples left from the last frame; an index outside the cache is \<open>None\<close>.\<close>

function drain :: "nat \<Rightarrow> mpu6050_hal \<Rightarrow> sensor_data list \<Rightarrow> (mpu6050_hal \<times> sensor_data list) option" where
  "drain max_count priv out =
     (if 0 < cache_count priv \<and> length out < max_count then
        if 6 < cache_count priv then None
        else drain max_count (priv\<lparr>cache_count := cache_count priv - 1\<rparr>)
               (out @ [cache priv ! (6 - cache_count priv)])
      else Some (priv, out))"
  by pat_completeness auto
termination
  by (relation "measure (\<lambda>(m, p, out). cache_count p)") auto

declare drain.simps [simp del]

definition sample_of :: "input_event \<Rightarrow> int \<Rightarrow> sensor_data" where
  "sample_of ev ch =
     \<lparr>timestamp_ns = word_of_int (ev_tv_sec ev) * 1000000000 + word_of_int (ev_tv_usec ev) * 1000,
      sensor_type = SENSOR_MPU6050, channel = word_of_int ch, sd_value = ev_value ev\<rparr>"

text \<open>
  The loop over the events. The number is what the loop adds to \<open>g_i2c_retry_total\<close>; \<open>None\<close> when
  the answers of the library are used up before the loop ends.
\<close>

fun read_events :: "nat \<Rightarrow> next_event list \<Rightarrow> mpu6050_hal \<Rightarrow> sensor_data list
    \<Rightarrow> (int \<times> sensor_data list \<times> mpu6050_hal \<times> next_event list \<times> nat) option" where
  "read_events max_count [] priv out =
     (if length out < max_count then None
      else Some (int (length out) * int sizeof_sensor_data, out, priv, [], 0))"
| "read_events max_count (e # es) priv out =
     (if length out < max_count then
        let (rc, ev) = e in
        if rc < 0 then
          if rc = - EAGAIN then Some (int (length out) * int sizeof_sensor_data, out, priv, es, 0)
          else Some (rc, out, priv, es, 1)
        else if ev_type ev \<noteq> EV_ABS then read_events max_count es priv out
        else if length axis_map \<le> ev_code ev then read_events max_count es priv out
        else
          let ch = axis_map ! ev_code ev in
          if ch < 0 then read_events max_count es priv out
          else
            let priv = priv\<lparr>cache := (cache priv)[nat ch := sample_of ev ch],
                            cache_count := cache_count priv + 1\<rparr> in
            if 6 \<le> cache_count priv
            then read_events max_count es (priv\<lparr>cache_count := 0\<rparr>)
                   (out @ take (max_count - length out) (take 6 (cache priv)))
            else read_events max_count es priv out
      else Some (int (length out) * int sizeof_sensor_data, out, priv, e # es, 0))"

definition mpu6050_hal_read :: "nat \<Rightarrow> next_event list \<Rightarrow> mpu6050_hal
    \<Rightarrow> (int \<times> sensor_data list \<times> mpu6050_hal \<times> next_event list \<times> nat) option" where
  "mpu6050_hal_read len es priv =
     (let max_count = len div sizeof_sensor_data in
      case drain max_count priv [] of
        None \<Rightarrow> None
      | Some (priv, out) \<Rightarrow> read_events max_count es priv out)"

section \<open>The invariant\<close>

definition hal_ok :: "mpu6050_hal \<Rightarrow> bool" where
  "hal_ok p \<longleftrightarrow> length (cache p) = 6 \<and> cache_count p < 6 \<and> (\<forall>x\<in>set (cache p). unat (channel x) < 6)"

text \<open>The events that count, and what they do to a cache that stays incomplete.\<close>

definition axis_event :: "input_event \<Rightarrow> bool" where
  "axis_event ev \<longleftrightarrow> ev_type ev = EV_ABS \<and> ev_code ev < 6"

definition store_axis :: "input_event \<Rightarrow> sensor_data list \<Rightarrow> sensor_data list" where
  "store_axis ev c = c[ev_code ev := sample_of ev (int (ev_code ev))]"

lemma axis_map_nth [simp]: "i < 6 \<Longrightarrow> axis_map ! i = int i" "length axis_map = 6"
  by (auto simp: axis_map_def less_Suc_eq numeral_eq_Suc)

lemma length_store_axis [simp]: "length (store_axis ev c) = length c"
  by (simp add: store_axis_def)

lemma read_events_skip:
  "0 \<le> rc \<Longrightarrow> \<not> axis_event ev \<Longrightarrow> length out < m \<Longrightarrow> read_events m ((rc, ev) # es) p out = read_events m es p out"
  by (auto simp: axis_event_def)

lemma read_events_axis:
  "0 \<le> rc \<Longrightarrow> axis_event ev \<Longrightarrow> length out < m \<Longrightarrow> read_events m ((rc, ev) # es) p out =
    (if 5 \<le> cache_count p
     then read_events m es (p\<lparr>cache := store_axis ev (cache p), cache_count := 0\<rparr>)
       (out @ take (m - length out) (take 6 (store_axis ev (cache p))))
     else read_events m es (p\<lparr>cache := store_axis ev (cache p), cache_count := cache_count p + 1\<rparr>) out)"
  by (auto simp: axis_event_def store_axis_def Let_def)

lemma channel_sample [simp]: "i < 6 \<Longrightarrow> unat (channel (sample_of ev (int i))) = i"
  by (simp add: sample_of_def unat_of_nat take_bit_nat_eq_self_iff)

lemma store_axis_channels:
  "axis_event ev \<Longrightarrow> \<forall>x\<in>set c. unat (channel x) < 6 \<Longrightarrow> \<forall>x\<in>set (store_axis ev c). unat (channel x) < 6"
  by (auto simp: store_axis_def axis_event_def dest!: set_update_subset_insert [THEN subsetD])

lemma drain_ok:
  "hal_ok p \<Longrightarrow> length out \<le> m \<Longrightarrow> (\<forall>x\<in>set out. unat (channel x) < 6) \<Longrightarrow>
    \<exists>p' out'. drain m p out = Some (p', out') \<and> hal_ok p' \<and> length out' \<le> m \<and> (\<forall>x\<in>set out'. unat (channel x) < 6)"
proof (induction m p out rule: drain.induct)
  case (1 m p out)
  show ?case
  proof (cases "0 < cache_count p \<and> length out < m")
    case True
    let ?x = "cache p ! (6 - cache_count p)"
    have "?x \<in> set (cache p)" "\<not> 6 < cache_count p"
      using True 1(2) by (auto simp: hal_ok_def)
    then have "unat (channel ?x) < 6"
      using 1(2) by (simp add: hal_ok_def)
    moreover have "hal_ok (p\<lparr>cache_count := cache_count p - 1\<rparr>)"
      using 1(2) by (auto simp: hal_ok_def)
    ultimately show ?thesis
      using True 1 \<open>\<not> 6 < cache_count p\<close> by (simp add: drain.simps [of m p])
  qed (use 1 in \<open>auto simp: drain.simps [of m p]\<close>)
qed

lemma read_events_ok:
  "hal_ok p \<Longrightarrow> length out \<le> m \<Longrightarrow> (\<forall>x\<in>set out. unat (channel x) < 6) \<Longrightarrow>
    read_events m es p out = Some (n, out', p', es', k) \<Longrightarrow>
    hal_ok p' \<and> length out' \<le> m \<and> (\<forall>x\<in>set out'. unat (channel x) < 6)
    \<and> (n = int (length out') * int sizeof_sensor_data \<and> k = 0 \<or> n \<in> fst ` set es \<and> n < 0 \<and> n \<noteq> - EAGAIN \<and> k = 1)"
proof (induction es arbitrary: p out)
  case Nil
  then show ?case by (auto split: if_splits)
next
  case (Cons e es)
  show ?case
  proof (cases "length out < m")
    case True
    obtain rc ev where e: "e = (rc, ev)"
      by fastforce
    show ?thesis
    proof (cases "rc < 0")
      case neg: True
      then show ?thesis
        using True Cons.prems e by (auto split: if_splits)
    next
      case False
      then have rc: "0 \<le> rc"
        by simp
      show ?thesis
      proof (cases "axis_event ev")
        case False
        then have "read_events m es p out = Some (n, out', p', es', k)"
          using read_events_skip [OF rc False True, of es p] Cons.prems(4) e by simp
        then show ?thesis
          using Cons.IH [OF Cons.prems(1-3)] by auto
      next
        case axis: True
        let ?c = "store_axis ev (cache p)"
        have c: "length ?c = 6" "\<forall>x\<in>set ?c. unat (channel x) < 6"
          using store_axis_channels [OF axis, of "cache p"] Cons.prems(1) by (simp_all add: hal_ok_def)
        show ?thesis
        proof (cases "5 \<le> cache_count p")
          case full: True
          let ?p = "p\<lparr>cache := ?c, cache_count := 0\<rparr>" and ?out = "out @ take (m - length out) (take 6 ?c)"
          have "read_events m es ?p ?out = Some (n, out', p', es', k)"
            using read_events_axis [OF rc axis True, of es p] full Cons.prems(4) e by simp
          moreover have "hal_ok ?p" "length ?out \<le> m" "\<forall>x\<in>set ?out. unat (channel x) < 6"
            using c Cons.prems(3) True by (auto simp: hal_ok_def dest!: in_set_takeD)
          ultimately show ?thesis
            using Cons.IH [of ?p ?out] by auto
        next
          case part: False
          let ?p = "p\<lparr>cache := ?c, cache_count := cache_count p + 1\<rparr>"
          have "read_events m es ?p out = Some (n, out', p', es', k)"
            using read_events_axis [OF rc axis True, of es p] part Cons.prems(4) e by simp
          moreover have "hal_ok ?p"
            using c part by (simp add: hal_ok_def)
          ultimately show ?thesis
            using Cons.IH [of ?p out] Cons.prems(2,3) by auto
        qed
      qed
    qed
  next
    case False
    then show ?thesis
      using Cons.prems by auto
  qed
qed

lemma mpu6050_hal_read_ok:
  assumes "hal_ok p" and "mpu6050_hal_read len es p = Some (n, out, p', es', k)"
  shows "hal_ok p' \<and> length out \<le> len div sizeof_sensor_data \<and> (\<forall>x\<in>set out. unat (channel x) < 6)
    \<and> (n = int (length out) * int sizeof_sensor_data \<and> k = 0 \<or> n \<in> fst ` set es \<and> n < 0 \<and> n \<noteq> - EAGAIN \<and> k = 1)"
proof -
  obtain p1 out1 where d: "drain (len div sizeof_sensor_data) p [] = Some (p1, out1)" "hal_ok p1"
    "length out1 \<le> len div sizeof_sensor_data" "\<forall>x\<in>set out1. unat (channel x) < 6"
    using drain_ok [OF assms(1), of "[]" "len div sizeof_sensor_data"] by auto
  then show ?thesis
    using read_events_ok [OF d(2-4)] assms(2) by (simp add: mpu6050_hal_read_def)
qed

text \<open>The driver meets the contract of its interface; its state carries the answers to come.\<close>

definition mpu_read :: "nat \<Rightarrow> next_event list \<times> mpu6050_hal
    \<Rightarrow> (int \<times> sensor_data list \<times> (next_event list \<times> mpu6050_hal)) option" where
  "mpu_read len s = map_option (\<lambda>(n, out, p, es, k). (n, out, (es, p))) (mpu6050_hal_read len (fst s) (snd s))"

lemma mpu_read_Some:
  assumes "mpu_read len s = Some (n, out, s')"
  obtains k where "mpu6050_hal_read len (fst s) (snd s) = Some (n, out, snd s', fst s', k)"
  using assms by (auto simp: mpu_read_def)

interpretation mpu: sensor_driver mpu_read "\<lambda>s. hal_ok (snd s)" 6 6
proof
  fix s s' :: "next_event list \<times> mpu6050_hal" and n out
  assume ok: "hal_ok (snd s)" and r: "mpu_read (6 * sizeof_sensor_data) s = Some (n, out, s')"
  obtain k where "mpu6050_hal_read (6 * sizeof_sensor_data) (fst s) (snd s) = Some (n, out, snd s', fst s', k)"
    by (rule mpu_read_Some [OF r])
  note res = mpu6050_hal_read_ok [OF ok this]
  show "hal_ok (snd s')"
    using res by simp
  show "n = int (length out) * int sizeof_sensor_data \<and> length out \<le> 6" if "0 \<le> n"
    using res that by auto
  show "unat (channel x) < 6" if "x \<in> set out" for x
    using res that by simp
qed

section \<open>Whole frames and partial frames\<close>

definition axis_events :: "next_event list \<Rightarrow> input_event list" where
  "axis_events es = filter axis_event (map snd es)"

lemma axis_events_simps [simp]:
  "axis_events [] = []"
  "axis_events (e # es) = (if axis_event (snd e) then snd e # axis_events es else axis_events es)"
  by (simp_all add: axis_events_def)

text \<open>Events that do not fill the cache are all kept in it.\<close>

lemma read_events_partial:
  "list_all (\<lambda>e. 0 \<le> fst e) es \<Longrightarrow> length out < m \<Longrightarrow> cache_count p + length (axis_events es) < 6 \<Longrightarrow>
    read_events m (es @ rest) p out =
      read_events m rest (p\<lparr>cache := fold store_axis (axis_events es) (cache p),
                            cache_count := cache_count p + length (axis_events es)\<rparr>) out"
proof (induction es arbitrary: p)
  case (Cons e es)
  obtain rc ev where e: "e = (rc, ev)" "0 \<le> rc"
    using Cons.prems(1) by (cases e) auto
  show ?case
  proof (cases "axis_event ev")
    case True
    then show ?thesis
      using Cons read_events_axis [OF e(2) True, of out m "es @ rest" p] e(1) by simp
  next
    case False
    then show ?thesis
      using Cons read_events_skip [OF e(2) False, of out m "es @ rest" p] e(1) by simp
  qed
qed simp

lemma length_fold_store [simp]: "length (fold store_axis evs c) = length c"
  by (induction evs arbitrary: c) simp_all

lemma fold_store_other:
  "(\<And>e. e \<in> set evs \<Longrightarrow> ev_code e \<noteq> i) \<Longrightarrow> fold store_axis evs c ! i = c ! i"
  by (induction evs arbitrary: c) (simp_all add: store_axis_def)

lemma fold_store_nth:
  "distinct (map ev_code evs) \<Longrightarrow> i < length c \<Longrightarrow>
    fold store_axis evs c ! i =
      (case find (\<lambda>e. ev_code e = i) evs of Some e \<Rightarrow> sample_of e (int i) | None \<Rightarrow> c ! i)"
proof (induction evs arbitrary: c)
  case (Cons e evs)
  show ?case
  proof (cases "ev_code e = i")
    case True
    then have "fold store_axis evs (store_axis e c) ! i = store_axis e c ! i"
      using Cons.prems(1) by (intro fold_store_other) (auto simp: image_iff dest: sym)
    moreover have "store_axis e c ! i = sample_of e (int i)"
      using True Cons.prems(2) by (simp add: store_axis_def)
    ultimately show ?thesis
      using True by simp
  next
    case False
    then show ?thesis
      using Cons.IH [of "store_axis e c"] Cons.prems by (simp add: store_axis_def split: option.splits)
  qed
qed simp

lemma drain_all:
  "cache_count p \<le> 6 \<Longrightarrow> length (cache p) = 6 \<Longrightarrow> length out + cache_count p \<le> m \<Longrightarrow>
    drain m p out = Some (p\<lparr>cache_count := 0\<rparr>, out @ drop (6 - cache_count p) (cache p))"
proof (induction m p out rule: drain.induct)
  case (1 m p out)
  show ?case
  proof (cases "0 < cache_count p")
    case True
    have "drop (6 - cache_count p) (cache p) = cache p ! (6 - cache_count p) # drop (Suc (6 - cache_count p)) (cache p)"
      using 1(3) True by (intro Cons_nth_drop_Suc [symmetric]) simp
    moreover have "Suc (6 - cache_count p) = 6 - (cache_count p - 1)"
      using True 1(2) by simp
    ultimately show ?thesis
      using True 1 by (simp add: drain.simps [of m p])
  qed (use 1 in \<open>simp add: drain.simps [of m p]\<close>)
qed

lemma drain_none: "cache_count p = 0 \<Longrightarrow> drain m p out = Some (p, out)"
  by (simp add: drain.simps)

section \<open>A device for the witnesses\<close>

definition hal_start :: mpu6050_hal where
  "hal_start = \<lparr>fd = 3, evdev = 1, cache = replicate 6 zero_sensor_data, cache_count = 0\<rparr>"

definition axis_ev :: "nat \<Rightarrow> i32 \<Rightarrow> next_event" where
  "axis_ev code v = (0, \<lparr>ev_tv_sec = 1, ev_tv_usec = 2, ev_type = EV_ABS, ev_code = code, ev_value = v\<rparr>)"

definition again :: next_event where
  "again = (-11, \<lparr>ev_tv_sec = 0, ev_tv_usec = 0, ev_type = 0, ev_code = 0, ev_value = 0\<rparr>)"

definition syn_ev :: next_event where
  "syn_ev = (0, \<lparr>ev_tv_sec = 1, ev_tv_usec = 2, ev_type = 0, ev_code = 0, ev_value = 0\<rparr>)"

lemma axis_ev_simps [simp]:
  "fst (axis_ev i v) = 0" "ev_code (snd (axis_ev i v)) = i" "i < 6 \<Longrightarrow> axis_event (snd (axis_ev i v))"
  "ev_value (snd (axis_ev i v)) = v" "fst syn_ev = 0" "\<not> axis_event (snd syn_ev)"
  by (simp_all add: axis_ev_def syn_ev_def axis_event_def EV_ABS_def)

lemma hal_start_simps [simp]:
  "hal_ok hal_start" "cache_count hal_start = 0" "cache hal_start = replicate 6 zero_sensor_data"
  by (simp_all add: hal_start_def hal_ok_def zero_sensor_data_def)

section \<open>Properties\<close>

text \<open>
  C27. Whatever the device delivers, a read of the collector's buffer of six samples keeps the
  driver's invariant, and if its result is not negative it is the size of at most six samples,
  each of them with a channel that the table of six axis names has.
\<close>

theorem mpu_samples_in_range:
  assumes "hal_ok p" and "mpu6050_hal_read 96 es p = Some (n, out, p', es', k)"
  shows "hal_ok p' \<and> (0 \<le> n \<longrightarrow> n \<le> 96 \<and> nat (n div 16) = length out
    \<and> (\<forall>i < length out. unat (channel (out ! i)) < 6))"
proof -
  have "mpu_read (6 * 16) (es, p) = Some (n, out, (es', p'))"
    using assms(2) by (simp add: mpu_read_def)
  note r = this
  have "0 \<le> n \<Longrightarrow> nat (n div 16) = length out" "0 \<le> n \<Longrightarrow> n \<le> 96"
    using mpu.read_count [OF _ r] mpu.read_size [OF _ r] assms(1) by auto
  then show ?thesis
    using mpu.read_good [OF _ r] mpu.read_channels [OF _ r] assms(1) by auto
qed

theorem mpu_samples_in_range_witness:
  "\<exists>out p'. mpu6050_hal_read 96 [again] (hal_start\<lparr>cache_count := 2\<rparr>) = Some (32, out, p', [], 0)
    \<and> length out = 2 \<and> hal_ok p'"
proof -
  have "hal_ok (hal_start\<lparr>cache_count := 2\<rparr>)"
    by (simp add: hal_start_def hal_ok_def zero_sensor_data_def)
  moreover have "\<exists>out p'. mpu6050_hal_read 96 [again] (hal_start\<lparr>cache_count := 2\<rparr>) = Some (32, out, p', [], 0)"
    by (simp add: mpu6050_hal_read_def drain.simps again_def EAGAIN_def)
  ultimately show ?thesis
    using mpu_samples_in_range by fastforce
qed

text \<open>
  A complete frame comes out as it went in: when the cache is empty and the next events hold
  each of the six axes once, in any order and with other events between them, the read returns
  the six samples in axis order, each with the value and time of its event, and leaves the cache
  empty and the rest of the events unread.
\<close>

theorem mpu_complete_frame:
  assumes "hal_ok p" and "cache_count p = 0" and "list_all (\<lambda>e. 0 \<le> fst e) (es @ [e])"
    and "axis_event (snd e)" and "length (axis_events (es @ [e])) = 6"
    and "distinct (map ev_code (axis_events (es @ [e])))"
    and "evs = axis_events (es @ [e])"
  shows "\<exists>p'. mpu6050_hal_read 96 (es @ e # rest) p =
      Some (96, map (\<lambda>i. sample_of (the (find (\<lambda>ev. ev_code ev = i) evs)) (int i)) [0..<6], p', rest, 0)
    \<and> hal_ok p' \<and> cache_count p' = 0"
proof -
  obtain rc ev where e: "e = (rc, ev)" "0 \<le> rc" "axis_event ev"
    using assms(3,4) by (cases e) auto
  let ?c = "fold store_axis evs (cache p)"
  have evs: "evs = axis_events es @ [ev]" "length (axis_events es) = 5" "length evs = 6"
    using assms(5,7) e by (auto simp: axis_events_def)
  define p5 where "p5 = p\<lparr>cache := fold store_axis (axis_events es) (cache p), cache_count := 5\<rparr>"
  have c: "length ?c = 6" "store_axis ev (cache p5) = ?c" "cache_count p5 = 5"
    using assms(1) evs by (simp_all add: hal_ok_def p5_def)
  have "mpu6050_hal_read 96 (es @ e # rest) p = read_events 6 (e # rest) p5 []"
    using read_events_partial [of es "[]" 6 p "e # rest"] assms(2,3) evs
    by (simp add: mpu6050_hal_read_def drain_none p5_def)
  also have "\<dots> = Some (96, ?c, p5\<lparr>cache := ?c, cache_count := 0\<rparr>, rest, 0)"
    using read_events_axis [OF e(2,3), of "[]" 6 rest p5] c e(1) by (cases rest) simp_all
  finally have run: "mpu6050_hal_read 96 (es @ e # rest) p = Some (96, ?c, p5\<lparr>cache := ?c, cache_count := 0\<rparr>, rest, 0)" .
  have codes: "set (map ev_code evs) = {0..<6}"
  proof (rule card_subset_eq)
    show "set (map ev_code evs) \<subseteq> {0..<6}"
      using assms(7) by (auto simp: axis_events_def axis_event_def)
    have "card (set (map ev_code evs)) = length (map ev_code evs)"
      using assms(6,7) by (intro distinct_card) simp
    then show "card (set (map ev_code evs)) = card {0..<6::nat}"
      using evs(3) by simp
  qed simp
  have "?c = map (\<lambda>i. sample_of (the (find (\<lambda>ev. ev_code ev = i) evs)) (int i)) [0..<6]"
  proof (rule nth_equalityI)
    fix i
    assume "i < length ?c"
    then have "i < 6" "i \<in> set (map ev_code evs)"
      using c(1) codes by auto
    then have "find (\<lambda>ev. ev_code ev = i) evs \<noteq> None"
      by (auto simp: find_None_iff)
    then show "?c ! i = map (\<lambda>i. sample_of (the (find (\<lambda>ev. ev_code ev = i) evs)) (int i)) [0..<6] ! i"
      using fold_store_nth [of evs i "cache p"] assms(6,7) \<open>i < 6\<close> c(1) by auto
  qed (use c in simp)
  moreover have "hal_ok (p5\<lparr>cache := ?c, cache_count := 0\<rparr>)"
    using mpu6050_hal_read_ok [OF assms(1) run] by simp
  ultimately show ?thesis
    using run by auto
qed

theorem mpu_complete_frame_witness:
  "\<exists>out p'. mpu6050_hal_read 96 [syn_ev, axis_ev 3 13, axis_ev 0 10, axis_ev 1 11, syn_ev, axis_ev 2 12,
      axis_ev 5 15, axis_ev 4 14, syn_ev, again] hal_start = Some (96, out, p', [syn_ev, again], 0)
    \<and> map sd_value out = [10, 11, 12, 13, 14, 15]"
  using mpu_complete_frame [of hal_start "[syn_ev, axis_ev 3 13, axis_ev 0 10, axis_ev 1 11, syn_ev, axis_ev 2 12,
      axis_ev 5 15]" "axis_ev 4 14" _ "[syn_ev, again]", OF _ _ _ _ _ _ refl]
  by (auto simp: upt_rec sample_of_def)

text \<open>What the cache holds for an axis after some events: its last one, or what was there before.\<close>

definition slot_after :: "input_event list \<Rightarrow> sensor_data list \<Rightarrow> nat \<Rightarrow> sensor_data" where
  "slot_after evs c i = (case find (\<lambda>e. ev_code e = i) (rev evs) of None \<Rightarrow> c ! i | Some e \<Rightarrow> sample_of e (int i))"

lemma fold_store_last: "i < length c \<Longrightarrow> fold store_axis evs c ! i = slot_after evs c i"
proof (induction evs rule: rev_induct)
  case (snoc e evs)
  have "store_axis e d ! i = (if ev_code e = i then sample_of e (int i) else d ! i)" if "i < length d" for d
    using that by (simp add: store_axis_def)
  then show ?case
    using snoc by (simp add: slot_after_def)
qed (simp add: slot_after_def)

text \<open>
  C26. A partial frame comes out by its number of events, not by its axes: after \<open>k\<close> axis events,
  fewer than six and of whatever axes (the input layer drops an axis whose value did not change), a
  read returns nothing, and the next one returns the last \<open>k\<close> slots of the cache, those of the axes
  \<open>6 - k\<close> to 5: for each its new value if one of the events was of this axis, and else the sample
  that was there before. So if all events were of axes below \<open>6 - k\<close>, every sample is an old one and
  none of the new values comes out.
\<close>

theorem mpu_partial_frame_stale:
  assumes "hal_ok p" and "cache_count p = 0" and "list_all (\<lambda>e. 0 \<le> fst e) es"
    and "k = length (axis_events es)" and "k < 6" and "fst e1 = - EAGAIN" and "fst e2 = - EAGAIN"
  shows "\<exists>p' out p''. mpu6050_hal_read 96 (es @ e1 # rest) p = Some (0, [], p', rest, 0)
    \<and> mpu6050_hal_read 96 (e2 # rest') p' = Some (16 * int k, out, p'', rest', 0) \<and> cache_count p'' = 0
    \<and> out = map (slot_after (axis_events es) (cache p)) [6 - k..<6]
    \<and> (list_all (\<lambda>ev. ev_code ev < 6 - k) (axis_events es) \<longrightarrow> out = drop (6 - k) (cache p))"
proof -
  let ?c = "fold store_axis (axis_events es) (cache p)"
  let ?p = "p\<lparr>cache := ?c, cache_count := k\<rparr>"
  have len: "length (cache p) = 6"
    using assms(1) by (simp add: hal_ok_def)
  have one: "mpu6050_hal_read 96 (es @ e1 # rest) p = Some (0, [], ?p, rest, 0)"
    using read_events_partial [of es "[]" 6 p "e1 # rest"] assms(2-6)
    by (cases e1) (simp add: mpu6050_hal_read_def drain_none EAGAIN_def)
  have slots: "drop (6 - k) ?c = map (slot_after (axis_events es) (cache p)) [6 - k..<6]"
    by (rule nth_equalityI) (use len \<open>k < 6\<close> fold_store_last in simp_all)
  have old: "drop (6 - k) ?c = drop (6 - k) (cache p)" if "list_all (\<lambda>ev. ev_code ev < 6 - k) (axis_events es)"
  proof (rule nth_equalityI)
    fix i
    assume "i < length (drop (6 - k) ?c)"
    have "?c ! (6 - k + i) = cache p ! (6 - k + i)"
      using that by (intro fold_store_other) (fastforce simp: list_all_iff)
    then show "drop (6 - k) ?c ! i = drop (6 - k) (cache p) ! i"
      using len \<open>k < 6\<close> by simp
  qed simp
  have "mpu6050_hal_read 96 (e2 # rest') ?p = Some (16 * int k, drop (6 - k) ?c, ?p\<lparr>cache_count := 0\<rparr>, rest', 0)"
    using drain_all [of ?p "[]" 6] len \<open>k < 6\<close> assms(7)
    by (cases e2) (simp add: mpu6050_hal_read_def EAGAIN_def)
  then show ?thesis
    using one slots old by auto
qed

text \<open>Events of the axes 0 and 1, and of 0 and 5.\<close>

theorem mpu_partial_frame_stale_witness:
  "(\<exists>p' out p''. mpu6050_hal_read 96 [axis_ev 0 100, axis_ev 1 101, syn_ev, again] hal_start = Some (0, [], p', [], 0)
      \<and> mpu6050_hal_read 96 [again] p' = Some (32, out, p'', [], 0)
      \<and> map (\<lambda>x. (channel x, sd_value x)) out = [(0, 0), (0, 0)])
    \<and> (\<exists>p' out p''. mpu6050_hal_read 96 [axis_ev 0 100, axis_ev 5 105, syn_ev, again] hal_start = Some (0, [], p', [], 0)
      \<and> mpu6050_hal_read 96 [again] p' = Some (32, out, p'', [], 0)
      \<and> map (\<lambda>x. (channel x, sd_value x)) out = [(0, 0), (5, 105)])"
proof -
  have range: "[6 - 2..<6] = [4, 5 :: nat]" "\<And>x. replicate 2 x = [x, x]"
    by (simp_all add: upt_rec eval_nat_numeral)
  show ?thesis
    using mpu_partial_frame_stale [of hal_start "[axis_ev 0 100, axis_ev 1 101, syn_ev]" 2 again again "[]" "[]"]
      mpu_partial_frame_stale [of hal_start "[axis_ev 0 100, axis_ev 5 105, syn_ev]" 2 again again "[]" "[]"] range
    by (auto simp: again_def EAGAIN_def zero_sensor_data_def slot_after_def sample_of_def)
qed

end
