(* ===== verification/Sht30_Hal.thy ===== *)
theory Sht30_Hal
  imports Sensor_Hal Metrics
begin

text \<open>
  The humidity sensor's driver of the abstraction layer (\<open>app/hal/sht30_hal.c\<close>): two sysfs
  files read as decimal numbers, up to three attempts each, with the failed ones counted in
  \<open>g_i2c_retry_total\<close>.

  The file system is outside the repository: the result and bytes of each \<open>read\<close> are a list the
  functions consume, and \<open>None\<close> says that the list was too short to tell.
\<close>

section \<open>State\<close>

record sht30_hal =
  temp_path :: string
  hum_path :: string
  temp_fd :: int
  hum_fd :: int

text \<open>What one \<open>read\<close> answers: its result and the bytes it stored.\<close>

type_synonym attempt = "int \<times> string"

section \<open>Operations\<close>

function read_sysfs_int ::
  "nat \<Rightarrow> attempt list \<Rightarrow> metrics \<Rightarrow> (int \<times> i32 option \<times> attempt list \<times> metrics) option" where
  "read_sysfs_int retries attempts m =
     (if retries < 3 then
        case attempts of
          [] \<Rightarrow> None
        | (n, buf) # rest \<Rightarrow>
            if 0 < n then Some (0, Some (word_of_int (atoi (take (nat n) buf))), rest, m)
            else read_sysfs_int (retries + 1) rest (m\<lparr>g_i2c_retry_total := g_i2c_retry_total m + 1\<rparr>)
      else Some (- EIO, None, attempts, m))"
  by pat_completeness auto
termination
  by (relation "measure (\<lambda>(r, a, m). 3 - r)") auto

declare read_sysfs_int.simps [simp del]

text \<open>\<open>snprintf\<close> into 128 bytes.\<close>

definition path128 :: "string \<Rightarrow> string \<Rightarrow> string" where
  "path128 dev_path name = take 127 (dev_path @ name)"

text \<open>The arguments: the block of \<open>calloc\<close>, and the descriptors and error numbers of the two \<open>open\<close>s.\<close>

definition sht30_hal_open ::
  "string \<Rightarrow> nat option \<Rightarrow> int \<Rightarrow> int \<Rightarrow> int \<Rightarrow> int \<Rightarrow> resource list
    \<Rightarrow> int \<times> (nat \<times> sht30_hal) option \<times> resource list" where
  "sht30_hal_open dev_path new_block open_temp errno_temp open_hum errno_hum held =
     (case new_block of
        None \<Rightarrow> (- ENOMEM, None, held)
      | Some b \<Rightarrow>
          let held = Block b # held in
          if open_temp < 0 then (- errno_temp, None, remove1 (Block b) held)
          else
            let held = Fd open_temp # held in
            if open_hum < 0 then (- errno_hum, None, remove1 (Block b) (remove1 (Fd open_temp) held))
            else (0, Some (b, \<lparr>temp_path = path128 dev_path ''/temp1_input'',
                               hum_path = path128 dev_path ''/humidity1_input'',
                               temp_fd = open_temp, hum_fd = open_hum\<rparr>), Fd open_hum # held))"

definition sht30_hal_close ::
  "(nat \<times> sht30_hal) option \<Rightarrow> resource list \<Rightarrow> int \<times> (nat \<times> sht30_hal) option \<times> resource list" where
  "sht30_hal_close handle held =
     (case handle of
        None \<Rightarrow> (- EINVAL, None, held)
      | Some (b, priv) \<Rightarrow>
          (0, None, remove1 (Block b) (remove1 (Fd (hum_fd priv)) (remove1 (Fd (temp_fd priv)) held))))"

definition sht30_hal_ioctl :: int where
  "sht30_hal_ioctl = - ENOTSUP"

definition sht30_hal_get_info :: "sht30_hal \<Rightarrow> nat \<Rightarrow> string" where
  "sht30_hal_get_info priv buf_len =
     take (buf_len - 1) (''SHT30: Temp+Humidity, temp='' @ temp_path priv @ '', hum='' @ hum_path priv)"

text \<open>The result, the samples stored, the unused attempts of the two files, the gauges.\<close>

definition sht30_hal_read ::
  "nat \<Rightarrow> timespec \<Rightarrow> attempt list \<Rightarrow> attempt list \<Rightarrow> metrics
    \<Rightarrow> (int \<times> sensor_data list \<times> attempt list \<times> attempt list \<times> metrics) option" where
  "sht30_hal_read len ts temps hums m =
     (if len < 2 * sizeof_sensor_data then Some (- EINVAL, [], temps, hums, m)
      else case read_sysfs_int 0 temps m of
        None \<Rightarrow> None
      | Some (ret, temp_raw, temps, m) \<Rightarrow>
          if ret < 0 then Some (ret, [], temps, hums, m)
          else case read_sysfs_int 0 hums m of
            None \<Rightarrow> None
          | Some (ret, hum_raw, hums, m) \<Rightarrow>
              if ret < 0 then Some (ret, [], temps, hums, m)
              else
                let m = m\<lparr>g_temperature_milli := the temp_raw, g_humidity_milli := the hum_raw\<rparr>;
                    now = word_of_int (tv_sec ts) * 1000000000 + word_of_int (tv_nsec ts);
                    out0 = \<lparr>timestamp_ns = now, sensor_type = SENSOR_SHT30, channel = 0, sd_value = the temp_raw\<rparr>;
                    out1 = \<lparr>timestamp_ns = timestamp_ns out0, sensor_type = SENSOR_SHT30, channel = 1,
                            sd_value = the hum_raw\<rparr> in
                Some (2 * int sizeof_sensor_data, [out0, out1], temps, hums, m))"

section \<open>Attempts\<close>

text \<open>\<open>k\<close> failures are \<open>k\<close> counts; the third ends the reading.\<close>

definition failing :: "attempt list \<Rightarrow> bool" where
  "failing as \<longleftrightarrow> (\<forall>a\<in>set as. fst a \<le> 0)"

definition add_retries :: "nat \<Rightarrow> metrics \<Rightarrow> metrics" where
  "add_retries k m = m\<lparr>g_i2c_retry_total := g_i2c_retry_total m + of_nat k\<rparr>"

lemma add_retries_simps [simp]:
  "add_retries 0 m = m" "add_retries j (add_retries k m) = add_retries (k + j) m"
  "g_temperature_milli (add_retries k m) = g_temperature_milli m"
  "g_humidity_milli (add_retries k m) = g_humidity_milli m"
  by (simp_all add: add_retries_def)

lemma read_sysfs_int_good:
  "failing fs \<Longrightarrow> retries + length fs < 3 \<Longrightarrow> 0 < n \<Longrightarrow>
    read_sysfs_int retries (fs @ (n, buf) # rest) m
      = Some (0, Some (word_of_int (atoi (take (nat n) buf))), rest, add_retries (length fs) m)"
proof (induction fs arbitrary: retries m)
  case (Cons a fs)
  then show ?case
    using Cons.IH [of "retries + 1"]
    by (cases a) (simp add: read_sysfs_int.simps [of retries] failing_def add_retries_def add.assoc)
qed (simp add: read_sysfs_int.simps)

lemma read_sysfs_int_bad:
  "failing fs \<Longrightarrow> retries + length fs = 3 \<Longrightarrow>
    read_sysfs_int retries (fs @ rest) m = Some (- EIO, None, rest, add_retries (length fs) m)"
proof (induction fs arbitrary: retries m)
  case (Cons a fs)
  then show ?case
    using Cons.IH [of "retries + 1"]
    by (cases a) (simp add: read_sysfs_int.simps [of retries] failing_def add_retries_def add.assoc)
qed (simp add: read_sysfs_int.simps)

text \<open>The driver as a state of its interface: the attempts to come, the clock readings, the gauges.\<close>

definition sht_read ::
  "nat \<Rightarrow> timespec list \<times> attempt list \<times> attempt list \<times> metrics
    \<Rightarrow> (int \<times> sensor_data list \<times> (timespec list \<times> attempt list \<times> attempt list \<times> metrics)) option" where
  "sht_read len s =
     (case s of
        ([], _, _, _) \<Rightarrow> None
      | (ts # clock, temps, hums, m) \<Rightarrow>
          map_option (\<lambda>(n, out, temps, hums, m). (n, out, (clock, temps, hums, m)))
            (sht30_hal_read len ts temps hums m))"

lemma sht30_hal_read_result:
  "sht30_hal_read len ts temps hums m = Some (n, out, temps', hums', m') \<Longrightarrow> 0 \<le> n \<Longrightarrow>
    n = 32 \<and> map channel out = [0, 1]"
  by (auto simp: sht30_hal_read_def Let_def errno_defs split: if_splits option.splits prod.splits)

interpretation sht: sensor_driver sht_read "\<lambda>s. True" 2 2
proof
  fix s s' :: "timespec list \<times> attempt list \<times> attempt list \<times> metrics" and n out
  assume r: "sht_read (2 * sizeof_sensor_data) s = Some (n, out, s')"
  have res: "n = 32 \<and> map channel out = [0, 1]" if "0 \<le> n"
    using r that by (auto simp: sht_read_def dest: sht30_hal_read_result split: prod.splits list.splits)
  show "n = int (length out) * int sizeof_sensor_data \<and> length out \<le> 2" if "0 \<le> n"
    using res [OF that] by (auto simp: map_eq_Cons_conv)
  show "unat (channel x) < 2" if "0 \<le> n" "x \<in> set out" for x
    using res [OF that(1)] that(2) by (auto simp: map_eq_Cons_conv)
qed simp

lemma read_sysfs_int_result:
  "retries \<le> 3 \<Longrightarrow> read_sysfs_int retries as m = Some (ret, v, rest, m') \<Longrightarrow>
    ret = 0 \<and> v \<noteq> None \<and> (\<exists>k. retries + k < 3 \<and> m' = add_retries k m)
    \<or> ret = - EIO \<and> v = None \<and> m' = add_retries (3 - retries) m"
proof (induction retries as m rule: read_sysfs_int.induct)
  case (1 retries as m)
  show ?case
  proof (cases "retries < 3 \<and> as \<noteq> [] \<and> fst (hd as) \<le> 0")
    case False
    then show ?thesis
      using 1(2,3) by (auto simp: read_sysfs_int.simps [of retries] intro!: exI [of _ "0 :: nat"]
          split: if_splits list.splits)
  next
    case True
    then obtain n buf rs where as: "as = (n, buf) # rs" "n \<le> 0" "retries < 3"
      by (cases as) auto
    let ?m = "m\<lparr>g_i2c_retry_total := g_i2c_retry_total m + 1\<rparr>"
    have m: "?m = add_retries 1 m"
      by (simp add: add_retries_def)
    have "read_sysfs_int (retries + 1) rs ?m = Some (ret, v, rest, m')"
      using 1(3) as by (simp add: read_sysfs_int.simps [of retries])
    then have "ret = 0 \<and> v \<noteq> None \<and> (\<exists>k. retries + 1 + k < 3 \<and> m' = add_retries k ?m)
      \<or> ret = - EIO \<and> v = None \<and> m' = add_retries (3 - (retries + 1)) ?m"
      using 1(1) [OF as(3,1) refl] as(2,3) by simp
    then show ?thesis
    proof (elim disjE conjE exE)
      fix k
      assume "ret = 0" "v \<noteq> None" "retries + 1 + k < 3" "m' = add_retries k ?m"
      then show ?thesis
        unfolding m by (auto intro!: exI [of _ "Suc k"])
    next
      have "Suc (3 - (retries + 1)) = 3 - retries"
        using as(3) by simp
      moreover assume "ret = - EIO" "v = None" "m' = add_retries (3 - (retries + 1)) ?m"
      ultimately show ?thesis
        unfolding m by (simp add: numeral_3_eq_3)
    qed
  qed
qed

section \<open>Properties\<close>

text \<open>
  A sensor that answers each file within three attempts is read completely: both numbers are
  delivered, in order and with one time stamp, the gauges get the same values, and the retry
  counter grows by exactly the number of failed attempts.
\<close>

theorem sht30_hal_read_exact:
  assumes "failing ft" "length ft < 3" "0 < nt" and "failing fh" "length fh < 3" "0 < nh" and "32 \<le> len"
  shows "\<exists>x y m'. sht30_hal_read len ts (ft @ (nt, bt) # temps) (fh @ (nh, bh) # hums) m
      = Some (32, [x, y], temps, hums, m')
    \<and> sd_value x = word_of_int (atoi (take (nat nt) bt)) \<and> sd_value y = word_of_int (atoi (take (nat nh) bh))
    \<and> channel x = 0 \<and> channel y = 1 \<and> timestamp_ns x = timestamp_ns y
    \<and> g_temperature_milli m' = sd_value x \<and> g_humidity_milli m' = sd_value y
    \<and> g_i2c_retry_total m' = g_i2c_retry_total m + of_nat (length ft + length fh)"
  using read_sysfs_int_good [OF assms(1) _ assms(3), of 0 bt temps m]
    read_sysfs_int_good [OF assms(4) _ assms(6), of 0 bh hums "add_retries (length ft) m"] assms(2,5,7)
  by (simp add: sht30_hal_read_def Let_def) (simp add: add_retries_def)

theorem sht30_hal_read_exact_witness:
  "\<exists>x y m'. sht30_hal_read 32 \<lparr>tv_sec = 5, tv_nsec = 6\<rparr> [(-5, []), (6, ''21500'' @ [CHR 0x0A])]
      [(0, []), (-5, []), (6, ''45000'' @ [CHR 0x0A])] metrics_start = Some (32, [x, y], [], [], m')
    \<and> sd_value x = 21500 \<and> sd_value y = 45000 \<and> g_i2c_retry_total m' = 3"
proof -
  have "atoi (''21500'' @ [CHR 0x0A]) = 21500" "atoi (''45000'' @ [CHR 0x0A]) = 45000"
    by (simp_all add: atoi_def is_space_def is_digit_def)
  then show ?thesis
    using sht30_hal_read_exact [of "[(-5, [])]" 6 "[(0, []), (-5, [])]" 6 32 "\<lparr>tv_sec = 5, tv_nsec = 6\<rparr>"
        "''21500'' @ [CHR 0x0A]" "[]" "''45000'' @ [CHR 0x0A]" "[]" metrics_start]
    by (auto simp: failing_def metrics_start_def)
qed

text \<open>
  A failed read reports \<open>-EIO\<close> and leaves no trace but the retry counter: no sample is
  delivered, the gauges keep their values, and the counter grows by three to five.
\<close>

theorem sht30_hal_read_failure:
  assumes "sht30_hal_read len ts temps hums m = Some (n, out, temps', hums', m')" and "n < 0" and "32 \<le> len"
  shows "n = - EIO \<and> out = [] \<and> (\<exists>k. 3 \<le> k \<and> k \<le> 5 \<and> m' = add_retries k m)"
proof -
  obtain ret v rest m1 where t: "read_sysfs_int 0 temps m = Some (ret, v, rest, m1)"
    using assms by (auto simp: sht30_hal_read_def split: option.splits)
  note rt = read_sysfs_int_result [OF _ t, simplified]
  show ?thesis
  proof (cases "ret < 0")
    case True
    then show ?thesis
      using rt t assms by (auto simp: sht30_hal_read_def errno_defs)
  next
    case False
    then obtain k where k: "k < 3" "m1 = add_retries k m"
      using rt by (auto simp: errno_defs)
    obtain ret2 v2 rest2 m2 where h: "read_sysfs_int 0 hums m1 = Some (ret2, v2, rest2, m2)"
      using assms t False by (auto simp: sht30_hal_read_def split: option.splits)
    have "ret2 < 0"
      using assms t h False by (auto simp: sht30_hal_read_def Let_def split: if_splits)
    then have "ret2 = - EIO" "m2 = add_retries (k + 3) m"
      using read_sysfs_int_result [OF _ h] k by (auto simp: errno_defs)
    then show ?thesis
      using assms t h False k \<open>ret2 < 0\<close> by (auto simp: sht30_hal_read_def intro!: exI [of _ "k + 3"])
  qed
qed

theorem sht30_hal_read_failure_witness:
  "\<exists>m'. sht30_hal_read 32 \<lparr>tv_sec = 5, tv_nsec = 6\<rparr> [(6, ''21500'' @ [CHR 0x0A])]
      [(-5, []), (-5, []), (-5, [])] metrics_start = Some (- EIO, [], [], [], m')
    \<and> g_temperature_milli m' = 0"
proof -
  obtain n out temps' hums' m' where r: "sht30_hal_read 32 \<lparr>tv_sec = 5, tv_nsec = 6\<rparr> [(6, ''21500'' @ [CHR 0x0A])]
      [(-5, []), (-5, []), (-5, [])] metrics_start = Some (n, out, temps', hums', m')" "n < 0" "temps' = []" "hums' = []"
    by (simp add: sht30_hal_read_def read_sysfs_int.simps errno_defs)
  then show ?thesis
    using sht30_hal_read_failure [OF r(1,2)] by (auto simp: metrics_start_def)
qed

end
