(* ===== verification/Sht30_Driver.thy ===== *)
theory Sht30_Driver
  imports Edge_Prelude
begin

text \<open>
  The kernel driver of the temperature and humidity sensor (\<open>kernel-drivers/sht30/sht30.c\<close>): the
  checksum of the sensor's answers, the periodic measurement, the two sysfs attributes, probe and
  remove. The i2c, hwmon and workqueue calls are outside the repository: their results are
  arguments, what the driver hands to them is part of the state.
\<close>

section \<open>The checksum\<close>

definition crc8_bit :: "u8 \<Rightarrow> u8" where
  "crc8_bit crc = (if crc AND 0x80 \<noteq> 0 then push_bit 1 crc XOR 0x31 else push_bit 1 crc)"

definition crc8_byte :: "u8 \<Rightarrow> u8" where
  "crc8_byte crc = (crc8_bit ^^ 8) crc"

definition sht30_crc8 :: "u8 list \<Rightarrow> nat \<Rightarrow> u8" where
  "sht30_crc8 data len = fold (\<lambda>d crc. crc8_byte (crc XOR d)) (take len data) 0xFF"

section \<open>State\<close>

record sht30_data =
  temp :: i32
  sd_humidity :: i32
  valid :: bool

text \<open>
  The data with what the driver has done to the outside: the bytes it sent on the bus, whether its
  delayed work is queued, whether the hwmon device is registered.
\<close>

record sht30 =
  drv_data :: sht30_data
  sht_sent :: "u8 list list"
  sht_queued :: bool
  sht_hwmon :: bool

section \<open>Bus transfers\<close>

definition sht30_send_cmd :: "int \<Rightarrow> u16 \<Rightarrow> sht30 \<Rightarrow> int \<times> sht30" where
  "sht30_send_cmd send_ret cmd s =
     (let s = s\<lparr>sht_sent := sht_sent s @ [[ucast (drop_bit 8 cmd), ucast (cmd AND 0xFF)]]\<rparr> in
      if send_ret < 0 then (send_ret, s) else if send_ret \<noteq> 2 then (- EIO, s) else (0, s))"

definition sht30_read_data :: "int \<Rightarrow> int \<Rightarrow> int" where
  "sht30_read_data recv_ret len =
     (if recv_ret < 0 then recv_ret else if recv_ret \<noteq> len then - EIO else 0)"

section \<open>The measurement\<close>

definition raw16 :: "u8 \<Rightarrow> u8 \<Rightarrow> u16" where
  "raw16 hi lo = push_bit 8 (ucast hi) OR ucast lo"

text \<open>The two conversions, in 32-bit signed arithmetic.\<close>

definition convert_temp :: "u16 \<Rightarrow> i32" where
  "convert_temp raw = signed_drop_bit 13 (21965 * ucast raw) - 45000"

definition convert_humidity :: "u16 \<Rightarrow> i32" where
  "convert_humidity raw = signed_drop_bit 13 (12500 * ucast raw)"

text \<open>The handler; \<open>buf\<close> is the buffer of six bytes after the transfer. It always queues itself.\<close>

definition sht30_work_handler :: "int \<Rightarrow> int \<Rightarrow> u8 list \<Rightarrow> sht30 \<Rightarrow> sht30" where
  "sht30_work_handler send_ret recv_ret buf s =
     (let (ret, s) = sht30_send_cmd send_ret 0x2400 s;
          s = (if ret \<noteq> 0 then s
               else if sht30_read_data recv_ret 6 \<noteq> 0 then s
               else if sht30_crc8 buf 2 \<noteq> buf ! 2 then s
               else if sht30_crc8 (drop 3 buf) 2 \<noteq> buf ! 5 then s
               else
                 let temp_raw = raw16 (buf ! 0) (buf ! 1);
                     hum_raw = raw16 (buf ! 3) (buf ! 4) in
                 s\<lparr>drv_data := (drv_data s)\<lparr>temp := convert_temp temp_raw,
                     sd_humidity := convert_humidity hum_raw, valid := True\<rparr>\<rparr>) in
      s\<lparr>sht_queued := True\<rparr>)"

section \<open>Attributes\<close>

text \<open>An error number, or the text of the attribute.\<close>

definition temp1_input_show :: "sht30_data \<Rightarrow> int + string" where
  "temp1_input_show d =
     (if \<not> valid d then Inl (- ENODATA) else Inr (string_of_int (sint (temp d)) @ [CHR 0x0A]))"

definition humidity1_input_show :: "sht30_data \<Rightarrow> int + string" where
  "humidity1_input_show d =
     (if \<not> valid d then Inl (- ENODATA) else Inr (string_of_int (sint (sd_humidity d)) @ [CHR 0x0A]))"

text \<open>The files of the hwmon device: name, mode (\<open>0444\<close>) and what a read shows; none can be written.\<close>

record device_attribute =
  attr_name :: string
  attr_mode :: nat
  attr_show :: "sht30_data \<Rightarrow> int + string"

definition sht30_attrs :: "device_attribute list" where
  "sht30_attrs =
     [\<lparr>attr_name = ''temp1_input'', attr_mode = 4 * 64 + 4 * 8 + 4, attr_show = temp1_input_show\<rparr>,
      \<lparr>attr_name = ''humidity1_input'', attr_mode = 4 * 64 + 4 * 8 + 4, attr_show = humidity1_input_show\<rparr>]"

definition show_file :: "string \<Rightarrow> sht30_data \<Rightarrow> (int + string) option" where
  "show_file name d = map_option (\<lambda>a. attr_show a d) (find (\<lambda>a. attr_name a = name) sht30_attrs)"

section \<open>Probe and remove\<close>

text \<open>The arguments: whether the allocation succeeds, the result of the soft reset's transfer, the
  error of the registration, 0 if it succeeds.\<close>

definition sht30_probe :: "bool \<Rightarrow> int \<Rightarrow> int \<Rightarrow> int \<times> sht30 option" where
  "sht30_probe alloc_ok send_ret hwmon_err =
     (if \<not> alloc_ok then (- ENOMEM, None)
      else
        let s = \<lparr>drv_data = \<lparr>temp = 0, sd_humidity = 0, valid = False\<rparr>, sht_sent = [],
                 sht_queued = False, sht_hwmon = False\<rparr>;
            (ret, s) = sht30_send_cmd send_ret 0x30A2 s in
        if ret \<noteq> 0 then (ret, Some s)
        else
          let s = s\<lparr>sht_queued := True\<rparr> in
          if hwmon_err \<noteq> 0 then (hwmon_err, Some (s\<lparr>sht_queued := False\<rparr>))
          else (0, Some (s\<lparr>sht_hwmon := True\<rparr>)))"

definition sht30_remove :: "sht30 \<Rightarrow> sht30" where
  "sht30_remove s = s\<lparr>sht_hwmon := False, sht_queued := False\<rparr>"

section \<open>The checksum is linear\<close>

lemma below_8: "n < 8 \<longleftrightarrow> n \<in> {0, 1, 2, 3, 4, 5, 6, 7}" for n :: nat
  by auto

lemma bit_poly: "bit (0x31 :: u8) n \<longleftrightarrow> n = 0 \<or> n = 4 \<or> n = 5"
proof (cases "n < 8")
  case True
  then have "n \<in> {0, 1, 2, 3, 4, 5, 6, 7}"
    by (simp only: below_8)
  then show ?thesis
    by auto
next
  case False
  then show ?thesis
    using bit_imp_le_length [of "0x31 :: u8" n] by auto
qed

lemma bit_crc8_bit:
  "bit (crc8_bit c) n \<longleftrightarrow>
    n < 8 \<and> ((0 < n \<and> bit c (n - 1)) \<noteq> (bit c 7 \<and> (n = 0 \<or> n = 4 \<or> n = 5)))"
proof -
  have "(0x80 :: u8) = 2 ^ 7"
    by simp
  then have top: "c AND 0x80 \<noteq> 0 \<longleftrightarrow> bit c 7"
    by (simp only: and_exp_eq_0_iff_not_bit) simp
  have shift: "bit (push_bit 1 c) n \<longleftrightarrow> n < 8 \<and> 0 < n \<and> bit c (n - 1)"
    by (simp only: bit_push_bit_iff) auto
  show ?thesis
    unfolding crc8_bit_def top using shift by (auto simp only: bit_xor_iff bit_poly split: if_splits)
qed

lemma crc8_bit_xor: "crc8_bit (a XOR b) = crc8_bit a XOR crc8_bit b"
  by (rule bit_eqI) (auto simp: bit_crc8_bit bit_xor_iff)

lemma crc8_byte_xor: "crc8_byte (a XOR b) = crc8_byte a XOR crc8_byte b"
proof -
  have "(crc8_bit ^^ n) (a XOR b) = (crc8_bit ^^ n) a XOR (crc8_bit ^^ n) b" for n
    by (induction n) (simp_all add: crc8_bit_xor)
  then show ?thesis
    by (simp add: crc8_byte_def)
qed

lemma crc8_bit_0 [simp]: "crc8_bit 0 = 0"
  by (simp add: crc8_bit_def)

lemma crc8_byte_0 [simp]: "crc8_byte 0 = 0"
  by (simp add: crc8_byte_def numeral_eq_Suc)

lemma crc8_bit_eq_0:
  assumes "crc8_bit c = 0"
  shows "c = 0"
proof (rule bit_eqI)
  fix n
  assume "possible_bit TYPE(u8) n"
  then have "n < 8"
    by simp
  have "\<not> bit c 7"
    using arg_cong [OF assms, of "\<lambda>x. bit x 0"] by (simp add: bit_crc8_bit)
  then have "\<not> bit c n" if "n < 7" for n
    using arg_cong [OF assms, of "\<lambda>x. bit x (Suc n)"] that by (simp add: bit_crc8_bit)
  then show "bit c n \<longleftrightarrow> bit 0 n"
    using \<open>\<not> bit c 7\<close> \<open>n < 8\<close> by (cases "n = 7") auto
qed

lemma crc8_byte_eq_0: "crc8_byte c = 0 \<Longrightarrow> c = 0"
proof -
  have "(crc8_bit ^^ n) c = 0 \<Longrightarrow> c = 0" for n
    by (induction n) (auto dest: crc8_bit_eq_0)
  then show "crc8_byte c = 0 \<Longrightarrow> c = 0"
    by (simp add: crc8_byte_def)
qed

section \<open>Bit errors\<close>

text \<open>The number of bits set in a byte, and in an error pattern of three bytes.\<close>

definition bits_set :: "u8 \<Rightarrow> nat" where
  "bits_set w = length (filter (bit w) [0..<8])"

definition error_bits :: "u8 \<times> u8 \<times> u8 \<Rightarrow> nat" where
  "error_bits e = (case e of (a, b, c) \<Rightarrow> bits_set a + bits_set b + bits_set c)"

text \<open>What an error does to the comparison of the checksum; zero is an error that is not seen.\<close>

definition syndrome :: "u8 \<times> u8 \<times> u8 \<Rightarrow> u8" where
  "syndrome e = (case e of (a, b, c) \<Rightarrow> crc8_byte (crc8_byte a XOR b) XOR c)"

definition xor3 :: "u8 \<times> u8 \<times> u8 \<Rightarrow> u8 \<times> u8 \<times> u8 \<Rightarrow> u8 \<times> u8 \<times> u8" where
  "xor3 e f = (case (e, f) of ((a, b, c), (x, y, z)) \<Rightarrow> (a XOR x, b XOR y, c XOR z))"

lemma syndrome_xor3: "syndrome (xor3 e f) = syndrome e XOR syndrome f"
  by (cases e; cases f) (simp add: syndrome_def xor3_def crc8_byte_xor ac_simps)

lemma crc_received:
  "sht30_crc8 [a XOR x, b XOR y] 2 = c XOR z \<longleftrightarrow> sht30_crc8 [a, b] 2 XOR c = syndrome (x, y, z)"
proof -
  have "sht30_crc8 [a XOR x, b XOR y] 2 = sht30_crc8 [a, b] 2 XOR crc8_byte (crc8_byte x XOR y)"
    by (simp add: sht30_crc8_def crc8_byte_xor ac_simps)
  moreover have "u XOR v = c XOR z \<longleftrightarrow> u XOR c = v XOR z" for u v :: u8
    unfolding bit_eq_iff bit_xor_iff by (intro iff_allI) blast
  ultimately show ?thesis
    by (simp add: syndrome_def)
qed

definition unit_errors :: "(u8 \<times> u8 \<times> u8) list" where
  "unit_errors = map (\<lambda>i. (2 ^ i, 0, 0)) [0..<8] @ map (\<lambda>i. (0, 2 ^ i, 0)) [0..<8] @ map (\<lambda>i. (0, 0, 2 ^ i)) [0..<8]"

lemma crc8_byte_steps:
  "crc8_byte c = crc8_bit (crc8_bit (crc8_bit (crc8_bit (crc8_bit (crc8_bit (crc8_bit (crc8_bit c)))))))"
  by (simp add: crc8_byte_def numeral_eq_Suc)

lemma unit_errors_list: "unit_errors =
    [(1, 0, 0), (2, 0, 0), (4, 0, 0), (8, 0, 0), (16, 0, 0), (32, 0, 0), (64, 0, 0), (128, 0, 0),
     (0, 1, 0), (0, 2, 0), (0, 4, 0), (0, 8, 0), (0, 16, 0), (0, 32, 0), (0, 64, 0), (0, 128, 0),
     (0, 0, 1), (0, 0, 2), (0, 0, 4), (0, 0, 8), (0, 0, 16), (0, 0, 32), (0, 0, 64), (0, 0, 128)]"
  by (simp add: unit_errors_def upt_rec)

lemma crc8_byte_units:
  "crc8_byte 1 = 0x31" "crc8_byte 2 = 0x62" "crc8_byte 4 = 0xC4" "crc8_byte 8 = 0xB9"
  "crc8_byte 16 = 0x43" "crc8_byte 32 = 0x86" "crc8_byte 64 = 0x3D" "crc8_byte 128 = 0x7A"
  by (simp_all add: crc8_byte_steps crc8_bit_def)

lemma unit_syndromes: "distinct (map syndrome unit_errors) \<and> 0 \<notin> set (map syndrome unit_errors)"
  by (simp add: unit_errors_list syndrome_def crc8_byte_units) (simp add: crc8_byte_steps crc8_bit_def)

lemma bits_set_card: "bits_set w = card {i. i < 8 \<and> bit w i}"
proof -
  have "set (filter (bit w) [0..<8]) = {i. i < 8 \<and> bit w i}"
    by auto
  then show ?thesis
    using distinct_card [of "filter (bit w) [0..<8]"] by (simp add: bits_set_def)
qed

lemma bits_set_eq_0: "bits_set w = 0 \<longleftrightarrow> w = 0"
proof
  assume "bits_set w = 0"
  then have "\<not> bit w i" if "i < 8" for i
    using that by (auto simp: bits_set_def filter_empty_conv)
  then show "w = 0"
    by (intro bit_eqI) simp
qed (simp add: bits_set_def)

lemma bits_set_peel:
  assumes "bits_set w = Suc n"
  shows "\<exists>i<8. bits_set (w XOR 2 ^ i) = n"
proof -
  let ?S = "\<lambda>w :: u8. {i. i < 8 \<and> bit w i}"
  obtain i where i: "i < 8" "bit w i"
  proof -
    have "filter (bit w) [0..<8] \<noteq> []"
      using assms by (auto simp: bits_set_def)
    then show ?thesis
      using that by (auto simp: filter_empty_conv)
  qed
  have "?S (w XOR 2 ^ i) = ?S w - {i}"
    using i by (auto simp: bit_xor_iff bit_exp_iff)
  then have "card (?S (w XOR 2 ^ i)) = card (?S w) - 1"
    using i by simp
  then show ?thesis
    using assms i(1) by (auto simp: bits_set_card)
qed

lemma error_peel:
  assumes "error_bits e = Suc n"
  shows "\<exists>u\<in>set unit_errors. error_bits (xor3 e u) = n"
proof -
  obtain a b c where e: "e = (a, b, c)"
    by (cases e)
  have "bits_set a \<noteq> 0 \<or> bits_set b \<noteq> 0 \<or> bits_set c \<noteq> 0"
    using assms e by (auto simp: error_bits_def)
  then consider k where "bits_set a = Suc k" | k where "bits_set b = Suc k" | k where "bits_set c = Suc k"
    using not0_implies_Suc by blast
  then show ?thesis
  proof cases
    case 1
    then obtain i where "i < 8" "bits_set (a XOR 2 ^ i) = k"
      using bits_set_peel by blast
    then show ?thesis
      using assms e 1 by (intro bexI [of _ "(2 ^ i, 0, 0)"]) (auto simp: error_bits_def xor3_def unit_errors_def)
  next
    case 2
    then obtain i where "i < 8" "bits_set (b XOR 2 ^ i) = k"
      using bits_set_peel by blast
    then show ?thesis
      using assms e 2 by (intro bexI [of _ "(0, 2 ^ i, 0)"]) (auto simp: error_bits_def xor3_def unit_errors_def)
  next
    case 3
    then obtain i where "i < 8" "bits_set (c XOR 2 ^ i) = k"
      using bits_set_peel by blast
    then show ?thesis
      using assms e 3 by (intro bexI [of _ "(0, 0, 2 ^ i)"]) (auto simp: error_bits_def xor3_def unit_errors_def)
  qed
qed

text \<open>The polynomial has the factor \<open>x + 1\<close>: the checksum keeps the parity.\<close>

definition parity8 :: "u8 \<Rightarrow> bool" where
  "parity8 w = odd (bits_set w)"

lemma upt_8: "[0..<8] = [0, 1, 2, 3, 4, 5, 6, 7 :: nat]"
  by (simp add: upt_rec)

lemma parity8_bits: "parity8 w \<longleftrightarrow>
    (((((((bit w 0 \<noteq> bit w 1) \<noteq> bit w 2) \<noteq> bit w 3) \<noteq> bit w 4) \<noteq> bit w 5) \<noteq> bit w 6) \<noteq> bit w 7)"
proof -
  have fold: "fold (\<lambda>i b. b \<noteq> bit w i) xs b \<longleftrightarrow> b \<noteq> odd (length (filter (bit w) xs))" for xs b
    by (induction xs arbitrary: b) auto
  have eq: "odd (length (filter (bit w) xs)) \<longleftrightarrow> fold (\<lambda>i b. b \<noteq> bit w i) xs False" for xs
    unfolding fold by simp
  show ?thesis
    unfolding parity8_def bits_set_def upt_8 eq by simp
qed

lemma parity8_xor: "parity8 (a XOR b) \<longleftrightarrow> parity8 a \<noteq> parity8 b"
proof -
  have "odd (length (filter (bit (a XOR b)) xs)) \<longleftrightarrow>
      odd (length (filter (bit a) xs)) \<noteq> odd (length (filter (bit b) xs))" for xs
    by (induction xs) (auto simp: bit_xor_iff)
  then show ?thesis
    by (simp add: parity8_def bits_set_def)
qed

lemma parity_chain:
  "(((((((h \<noteq> a) \<noteq> b) \<noteq> c) \<noteq> (d \<noteq> h)) \<noteq> (e \<noteq> h)) \<noteq> f) \<noteq> g) \<longleftrightarrow>
    (((((((a \<noteq> b) \<noteq> c) \<noteq> d) \<noteq> e) \<noteq> f) \<noteq> g) \<noteq> h)"
  by (cases a; cases b; cases c; cases d; cases e; cases f; cases g; cases h) simp_all

lemma parity8_crc8_bit: "parity8 (crc8_bit c) \<longleftrightarrow> parity8 c"
proof -
  have "bit (crc8_bit c) 0 = bit c 7" "bit (crc8_bit c) 1 = bit c 0" "bit (crc8_bit c) 2 = bit c 1"
    "bit (crc8_bit c) 3 = bit c 2" "bit (crc8_bit c) 4 = (bit c 3 \<noteq> bit c 7)"
    "bit (crc8_bit c) 5 = (bit c 4 \<noteq> bit c 7)" "bit (crc8_bit c) 6 = bit c 5" "bit (crc8_bit c) 7 = bit c 6"
    by (simp_all add: bit_crc8_bit)
  then show ?thesis
    unfolding parity8_bits by (simp only: parity_chain)
qed

lemma parity8_crc8_byte: "parity8 (crc8_byte c) \<longleftrightarrow> parity8 c"
proof -
  have "parity8 ((crc8_bit ^^ n) c) \<longleftrightarrow> parity8 c" for n
    by (induction n) (simp_all add: parity8_crc8_bit)
  then show ?thesis
    by (simp add: crc8_byte_def)
qed

lemma xor_word_eq_0: "a XOR b = 0 \<longleftrightarrow> a = b" for a b :: u8
proof
  assume "a XOR b = 0"
  then have "(a XOR b) XOR b = b"
    by simp
  then show "a = b"
    by (simp add: xor.assoc)
qed simp

lemma parity_syndrome: "parity8 (syndrome e) \<longleftrightarrow> odd (error_bits e)"
proof -
  obtain a b c where e: "e = (a, b, c)"
    by (cases e)
  have "parity8 (syndrome e) \<longleftrightarrow> (parity8 a \<noteq> parity8 b) \<noteq> parity8 c"
    by (simp add: e syndrome_def parity8_xor parity8_crc8_byte)
  then show ?thesis
    unfolding parity8_def by (auto simp: e error_bits_def)
qed

lemma xor3_cancel: "xor3 (xor3 e u) u = e"
  by (cases e; cases u) (simp add: xor3_def xor.assoc)

lemma error_bits_eq_0: "error_bits e = 0 \<longleftrightarrow> e = (0, 0, 0)"
  by (cases e) (simp add: error_bits_def bits_set_eq_0)

lemma syndrome_0: "syndrome (0, 0, 0) = 0"
  by (simp add: syndrome_def)

text \<open>Errors of one, two or three bits change the checksum.\<close>

lemma syndrome_detects:
  assumes "0 < error_bits e" and "error_bits e \<le> 3"
  shows "syndrome e \<noteq> 0"
proof
  assume zero: "syndrome e = 0"
  then have "even (error_bits e)"
    using parity_syndrome [of e] by (simp add: parity8_def bits_set_def)
  then have "error_bits e = Suc (Suc 0)"
    using assms by (cases "error_bits e = 1 \<or> error_bits e = 3") auto
  then obtain u where u: "u \<in> set unit_errors" "error_bits (xor3 e u) = Suc 0"
    using error_peel by blast
  then obtain v where v: "v \<in> set unit_errors" "error_bits (xor3 (xor3 e u) v) = 0"
    using error_peel by blast
  have "syndrome (xor3 (xor3 e u) v) = 0"
    using v(2) by (simp add: error_bits_eq_0 syndrome_0)
  then have "syndrome u = syndrome v"
    using zero by (simp add: syndrome_xor3 xor_word_eq_0)
  then have "u = v"
    using unit_syndromes u(1) v(1) by (auto simp: distinct_map dest: inj_onD)
  then have "error_bits e = 0"
    using v(2) by (simp only: xor3_cancel)
  then show False
    using assms(1) by simp
qed

section \<open>The conversions\<close>

lemma sint_word_of_int_i32: "- 2147483648 \<le> k \<Longrightarrow> k < 2147483648 \<Longrightarrow> sint (word_of_int k :: i32) = k"
  by (simp add: signed_of_int signed_take_bit_int_eq_self)

text \<open>A product that fits is not wrapped, and the arithmetic shift is the flooring division.\<close>

lemma shifted_product:
  assumes "0 \<le> m" and "m * 65535 < 2147483648"
  shows "sint (signed_drop_bit 13 (word_of_int m * ucast (raw :: u16)) :: i32) = m * uint raw div 8192"
proof -
  have r: "uint raw \<le> 65535" "0 \<le> uint raw"
    using unsigned_less [of raw, where ?'a = int] by simp_all
  then have "m * uint raw \<le> m * 65535"
    using assms(1) by (intro mult_left_mono)
  then have "sint (word_of_int (m * uint raw) :: i32) = m * uint raw"
    using assms r by (intro sint_word_of_int_i32) (auto intro: order_trans [of _ 0])
  moreover have "word_of_int m * (ucast raw :: i32) = word_of_int (m * uint raw)"
    by simp
  ultimately have "sint (word_of_int m * ucast raw :: i32) = m * uint raw"
    by (simp only:)
  then show ?thesis
    by (simp only: sint_signed_drop_bit_eq drop_bit_eq_div) simp
qed

lemma convert_temp_eq: "sint (convert_temp raw) = 21965 * uint raw div 8192 - 45000"
proof -
  have r: "uint raw \<le> 65535" "0 \<le> uint raw"
    using unsigned_less [of raw, where ?'a = int] by simp_all
  let ?x = "signed_drop_bit 13 (21965 * ucast raw) :: i32"
  have x: "sint ?x = 21965 * uint raw div 8192"
    using shifted_product [of 21965 raw] by simp
  have "?x - 45000 = word_of_int (sint ?x - 45000)"
    by simp
  then have "sint (convert_temp raw) = sint (word_of_int (21965 * uint raw div 8192 - 45000) :: i32)"
    by (simp only: convert_temp_def x)
  also have "\<dots> = 21965 * uint raw div 8192 - 45000"
    using r by (intro sint_word_of_int_i32) linarith+
  finally show ?thesis .
qed

lemma convert_humidity_eq: "sint (convert_humidity raw) = 12500 * uint raw div 8192"
  using shifted_product [of 12500 raw] by (simp add: convert_humidity_def)

text \<open>A frame of six bytes whose two checksums are right.\<close>

definition frame_ok :: "u8 list \<Rightarrow> bool" where
  "frame_ok f \<longleftrightarrow> length f = 6 \<and> sht30_crc8 f 2 = f ! 2 \<and> sht30_crc8 (drop 3 f) 2 = f ! 5"

lemma length_6: "length xs = 6 \<longleftrightarrow> (\<exists>a b c d e f. xs = [a, b, c, d, e, f])"
  by (auto simp: numeral_eq_Suc length_Suc_conv)

lemma frame_errors:
  assumes "frame_ok f" and "length errs = 6" and "0 < sum_list (map bits_set errs)"
    and "sum_list (map bits_set errs) \<le> 3"
  shows "\<not> frame_ok (map2 (XOR) f errs)"
proof -
  obtain a b c d e g where f: "f = [a, b, c, d, e, g]"
    using assms(1) by (auto simp: frame_ok_def length_6)
  obtain x1 x2 x3 y1 y2 y3 where errs: "errs = [x1, x2, x3, y1, y2, y3]"
    using assms(2) by (auto simp: length_6)
  have crc: "sht30_crc8 [a, b] 2 = c" "sht30_crc8 [d, e] 2 = g"
    using assms(1) by (simp_all add: frame_ok_def f sht30_crc8_def)
  have "error_bits (x1, x2, x3) + error_bits (y1, y2, y3) = sum_list (map bits_set errs)"
    by (simp add: errs error_bits_def)
  then have "0 < error_bits (x1, x2, x3) \<or> 0 < error_bits (y1, y2, y3)"
    "error_bits (x1, x2, x3) \<le> 3" "error_bits (y1, y2, y3) \<le> 3"
    using assms(3,4) by auto
  then have "syndrome (x1, x2, x3) \<noteq> 0 \<or> syndrome (y1, y2, y3) \<noteq> 0"
    using syndrome_detects by blast
  then have "sht30_crc8 [a XOR x1, b XOR x2] 2 \<noteq> c XOR x3 \<or> sht30_crc8 [d XOR y1, e XOR y2] 2 \<noteq> g XOR y3"
    using crc crc_received [of a x1 b x2 c x3] crc_received [of d y1 e y2 g y3] by auto
  then show ?thesis
    by (auto simp: frame_ok_def f errs sht30_crc8_def)
qed

lemma work_handler_eq:
  "length buf = 6 \<Longrightarrow> drv_data (sht30_work_handler send_ret recv_ret buf s) =
    (if send_ret = 2 \<and> recv_ret = 6 \<and> frame_ok buf
     then \<lparr>temp = convert_temp (raw16 (buf ! 0) (buf ! 1)),
           sd_humidity = convert_humidity (raw16 (buf ! 3) (buf ! 4)), valid = True\<rparr>
     else drv_data s)"
  by (cases "drv_data s")
    (auto simp: sht30_work_handler_def sht30_send_cmd_def sht30_read_data_def EIO_def frame_ok_def Let_def)

lemma work_handler_queued: "sht_queued (sht30_work_handler send_ret recv_ret buf s)"
  by (simp add: sht30_work_handler_def Let_def split_beta)

section \<open>Properties\<close>

text \<open>
  C16. A measurement that arrives damaged in one, two or three of its 48 bits is never taken over:
  the handler leaves the values and the validity as they were, and queues the next measurement.
\<close>

theorem sht30_damaged_frame_rejected:
  assumes "frame_ok f" and "length errs = 6" and "0 < sum_list (map bits_set errs)"
    and "sum_list (map bits_set errs) \<le> 3"
  shows "drv_data (sht30_work_handler send_ret recv_ret (map2 (XOR) f errs) s) = drv_data s
    \<and> sht_queued (sht30_work_handler send_ret recv_ret (map2 (XOR) f errs) s)"
proof -
  have "length (map2 (XOR) f errs) = 6"
    using assms(1,2) by (simp add: frame_ok_def)
  then show ?thesis
    using frame_errors [OF assms] by (simp add: work_handler_eq work_handler_queued)
qed

definition sht30_start :: sht30 where
  "sht30_start = \<lparr>drv_data = \<lparr>temp = 0, sd_humidity = 0, valid = False\<rparr>, sht_sent = [],
     sht_queued = True, sht_hwmon = True\<rparr>"

text \<open>The example of the sensor's data sheet: the checksum of BE EF is 92.\<close>

lemma frame_example: "frame_ok [0x66, 0x66, 0x93, 0xBE, 0xEF, 0x92]"
  by (simp add: frame_ok_def sht30_crc8_def) (simp add: crc8_byte_steps crc8_bit_def)

theorem sht30_damaged_frame_rejected_witness:
  "drv_data (sht30_work_handler 2 6 [0x66, 0x64, 0x93, 0xBE, 0xEF, 0x92 XOR 0x81] sht30_start)
    = \<lparr>temp = 0, sd_humidity = 0, valid = False\<rparr>"
  using sht30_damaged_frame_rejected [OF frame_example, of "[0, 2, 0, 0, 0, 0x81]" 2 6 sht30_start]
  by (simp add: bits_set_def upt_8 sht30_start_def)

text \<open>
  C33. An undamaged measurement is decoded without overflow: the temperature in thousandths of a
  degree and the humidity in thousandths of a percent are the flooring quotients the code intends.
  The humidity is within 3 thousandths of a percent of the data sheet's formula; the temperature is
  never more than a thousandth of a degree below it, but up to 0.718 degrees above it, and at least
  0.285 degrees above it from 25 degrees on: the factor 21965 should be 21875.
\<close>

theorem sht30_measurement_decoded:
  fixes f :: "u8 list" and s :: sht30
  assumes "frame_ok f"
  defines "d \<equiv> drv_data (sht30_work_handler 2 6 f s)"
    and "t_raw \<equiv> uint (raw16 (f ! 0) (f ! 1))" and "h_raw \<equiv> uint (raw16 (f ! 3) (f ! 4))"
  shows "valid d \<and> sint (temp d) = 21965 * t_raw div 8192 - 45000 \<and> sint (sd_humidity d) = 12500 * h_raw div 8192
    \<and> - 65535 \<le> 65535 * (sint (temp d) + 45000) - 175000 * t_raw
    \<and> 65535 * (sint (temp d) + 45000) - 175000 * t_raw \<le> 718 * 65535
    \<and> (26215 \<le> t_raw \<longrightarrow> 285 * 65535 \<le> 65535 * (sint (temp d) + 45000) - 175000 * t_raw)
    \<and> \<bar>65535 * sint (sd_humidity d) - 100000 * h_raw\<bar> \<le> 3 * 65535"
proof -
  have d: "valid d" "sint (temp d) = 21965 * t_raw div 8192 - 45000" "sint (sd_humidity d) = 12500 * h_raw div 8192"
    using assms(1) work_handler_eq [of f 2 6 s]
    by (simp_all add: d_def t_raw_def h_raw_def frame_ok_def convert_temp_eq convert_humidity_eq)
  have r: "0 \<le> t_raw" "t_raw \<le> 65535" "0 \<le> h_raw" "h_raw \<le> 65535"
    using unsigned_less [of "raw16 (f ! 0) (f ! 1)", where ?'a = int]
      unsigned_less [of "raw16 (f ! 3) (f ! 4)", where ?'a = int]
    by (simp_all add: t_raw_def h_raw_def)
  define q where "q = 21965 * t_raw div 8192"
  define p where "p = 12500 * h_raw div 8192"
  have q: "8192 * q \<le> 21965 * t_raw" "21965 * t_raw < 8192 * q + 8192"
    and p: "8192 * p \<le> 12500 * h_raw" "12500 * h_raw < 8192 * p + 8192"
    unfolding q_def p_def by linarith+
  have "- 65535 \<le> 65535 * q - 175000 * t_raw" "65535 * q - 175000 * t_raw \<le> 718 * 65535"
    "26215 \<le> t_raw \<Longrightarrow> 285 * 65535 \<le> 65535 * q - 175000 * t_raw"
    "\<bar>65535 * p - 100000 * h_raw\<bar> \<le> 3 * 65535"
    using q p r by linarith+
  then show ?thesis
    using d(1) unfolding d(2,3) by (simp add: q_def p_def)
qed

theorem sht30_measurement_decoded_witness:
  "let d = drv_data (sht30_work_handler 2 6 [0x66, 0x66, 0x93, 0xBE, 0xEF, 0x92] sht30_start) in
   valid d \<and> sint (temp d) = 25286 \<and> sint (sd_humidity d) = 74583"
  using sht30_measurement_decoded [OF frame_example, of sht30_start]
  by (simp add: Let_def raw16_def)

text \<open>
  The delayed work is queued exactly while the device is bound: a failed probe reports the
  error with nothing queued and nothing registered, a successful one leaves both, and after the
  removal neither is left, however many measurements ran in between.
\<close>

theorem sht30_probe_remove:
  "(case sht30_probe alloc_ok send_ret hwmon_err of
      (ret, None) \<Rightarrow> ret = - ENOMEM \<and> \<not> alloc_ok
    | (ret, Some s) \<Rightarrow>
        (ret = 0 \<longleftrightarrow> send_ret = 2 \<and> hwmon_err = 0) \<and> sht_queued s = (ret = 0) \<and> sht_hwmon s = (ret = 0)
        \<and> \<not> valid (drv_data s)
        \<and> (let s' = sht30_remove (fold (\<lambda>(r1, r2, buf). sht30_work_handler r1 r2 buf) ms s) in
           \<not> sht_queued s' \<and> \<not> sht_hwmon s'))"
  by (auto simp: sht30_probe_def sht30_send_cmd_def sht30_remove_def EIO_def Let_def)

end
