(* ===== verification/Mpu6050_Driver.thy ===== *)
theory Mpu6050_Driver
  imports Edge_Prelude
begin

text \<open>
  The kernel driver of the motion sensor (\<open>kernel-drivers/mpu6050/mpu6050.c\<close>): the sample read
  from the registers and reported to the input layer, the recovery of a stuck i2c bus over two
  GPIO lines, probe and remove. The kernel calls are outside the repository: their results are
  arguments, and what the driver asks of them is a list in its state.
\<close>

section \<open>State\<close>

datatype line = SCL | SDA

datatype gpio_op =
    Direction_output line bool
  | Set_value line bool
  | Direction_input line
  | Udelay nat

text \<open>A report of an axis, by its code \<open>ABS_X\<close> = 0, ..., \<open>ABS_RZ\<close> = 5, and the end of a frame.\<close>

datatype input_report = Report_abs nat int | Input_sync

record mpu6050_data =
  has_scl_gpio :: bool
  has_sda_gpio :: bool
  recovery_count :: u32
  gpio_ops :: "gpio_op list"
  reports :: "input_report list"

section \<open>Bus recovery\<close>

definition clock_pulse :: "gpio_op list" where
  "clock_pulse = [Set_value SCL False, Udelay 5, Set_value SCL True, Udelay 5]"

definition recovery_ops :: "gpio_op list" where
  "recovery_ops =
     [Direction_output SCL True, Direction_output SDA True, Set_value SCL True, Set_value SDA True, Udelay 5]
     @ concat (replicate 9 clock_pulse)
     @ [Set_value SDA False, Udelay 5, Set_value SCL True, Udelay 5, Set_value SDA True, Udelay 5,
        Direction_input SCL, Direction_input SDA]"

definition mpu6050_i2c_bus_recovery :: "mpu6050_data \<Rightarrow> mpu6050_data" where
  "mpu6050_i2c_bus_recovery d =
     (let d = d\<lparr>recovery_count := recovery_count d + 1\<rparr> in
      if \<not> has_scl_gpio d \<or> \<not> has_sda_gpio d then d
      else d\<lparr>gpio_ops := gpio_ops d @ recovery_ops\<rparr>)"

definition mpu6050_check_bus_error :: "mpu6050_data \<Rightarrow> int \<Rightarrow> int \<times> mpu6050_data" where
  "mpu6050_check_bus_error d ret =
     (if 0 \<le> ret then (0, d)
      else if ret = - EAGAIN \<or> ret = - ETIMEDOUT \<or> ret = - EIO \<or> ret = - EREMOTEIO \<or> ret = - ENXIO \<or> ret = - EBUSY
      then (ret, mpu6050_i2c_bus_recovery d)
      else (ret, d))"

section \<open>The sample\<close>

text \<open>\<open>(s16)((buf[i] << 8) | buf[i + 1])\<close>.\<close>

definition s16_at :: "u8 list \<Rightarrow> nat \<Rightarrow> int" where
  "s16_at buf i = sint (push_bit 8 (ucast (buf ! i)) OR ucast (buf ! (i + 1)) :: i16)"

text \<open>\<open>ret\<close> and \<open>buf\<close> are the result and the 14 bytes of \<open>regmap_bulk_read\<close>.\<close>

definition mpu6050_work_handler :: "int \<Rightarrow> u8 list \<Rightarrow> mpu6050_data \<Rightarrow> mpu6050_data" where
  "mpu6050_work_handler ret buf d =
     (let (ret, d) = mpu6050_check_bus_error d ret in
      if ret \<noteq> 0 then d
      else
        let accel_x = s16_at buf 0; accel_y = s16_at buf 2; accel_z = s16_at buf 4;
            gyro_x = s16_at buf 8; gyro_y = s16_at buf 10; gyro_z = s16_at buf 12 in
        d\<lparr>reports := reports d @
           [Report_abs 0 accel_x, Report_abs 1 accel_y, Report_abs 2 accel_z,
            Report_abs 3 gyro_x, Report_abs 4 gyro_y, Report_abs 5 gyro_z, Input_sync]\<rparr>)"

section \<open>Registers and axes\<close>

definition MPU6050_REG_PWR_MGMT_1 :: u8 where "MPU6050_REG_PWR_MGMT_1 = 0x6B"
definition MPU6050_REG_ACCEL_CONFIG :: u8 where "MPU6050_REG_ACCEL_CONFIG = 0x1C"
definition MPU6050_REG_ACCEL_XOUT_H :: u8 where "MPU6050_REG_ACCEL_XOUT_H = 0x3B"
definition MPU6050_SAMPLE_PERIOD_MS :: nat where "MPU6050_SAMPLE_PERIOD_MS = 10"

text \<open>The width of register numbers and values, the last register.\<close>

record regmap_config =
  reg_bits :: nat
  val_bits :: nat
  max_register :: u8

definition mpu6050_regmap_config :: regmap_config where
  "mpu6050_regmap_config = \<lparr>reg_bits = 8, val_bits = 8, max_register = 0x7F\<rparr>"

text \<open>What the input device declares of an axis: code, least and greatest value, fuzz, flat.\<close>

definition mpu6050_abs_params :: "(nat \<times> int \<times> int \<times> int \<times> int) list" where
  "mpu6050_abs_params =
     [(0, -32768, 32767, 0, 0), (1, -32768, 32767, 0, 0), (2, -32768, 32767, 0, 0),
      (3, -32768, 32767, 0, 0), (4, -32768, 32767, 0, 0), (5, -32768, 32767, 0, 0)]"

section \<open>Probe\<close>

definition mpu6050_write_reg :: "int \<Rightarrow> int" where
  "mpu6050_write_reg regmap_ret = regmap_ret"

text \<open>What \<open>regmap_read\<close> returns and stores; the byte is only stored on success.\<close>

definition mpu6050_read_reg :: "int \<Rightarrow> u32 \<Rightarrow> u8 \<Rightarrow> int \<times> u8" where
  "mpu6050_read_reg regmap_ret tmp val = (regmap_ret, if regmap_ret \<noteq> 0 then val else ucast tmp)"

text \<open>
  The device after a probe: the driver's block of memory, the registered input device, the timer.
  Registers written are recorded with their values.
\<close>

record mpu6050_dev =
  dev_data :: "mpu6050_data option"
  dev_input :: bool
  dev_timer :: bool
  dev_regs :: "(u8 \<times> u8) list"

record probe_env =
  kzalloc_ok :: bool
  regmap_err :: int
  scl_err :: bool
  sda_err :: bool
  pwr_ret :: int
  cfg_ret :: int
  input_ok :: bool
  register_ret :: int

definition mpu6050_probe :: "probe_env \<Rightarrow> int \<times> mpu6050_dev" where
  "mpu6050_probe e =
     (let dev = \<lparr>dev_data = None, dev_input = False, dev_timer = False, dev_regs = []\<rparr> in
      if \<not> kzalloc_ok e then (- ENOMEM, dev)
      else
        let d = \<lparr>has_scl_gpio = False, has_sda_gpio = False, recovery_count = 0, gpio_ops = [], reports = []\<rparr>;
            fail = (\<lambda>ret dev. (ret, dev\<lparr>dev_data := None\<rparr>)) in
        if regmap_err e \<noteq> 0 then fail (regmap_err e) dev
        else
          let d = d\<lparr>has_scl_gpio := \<not> scl_err e\<rparr>;
              d = d\<lparr>has_sda_gpio := \<not> sda_err e\<rparr>;
              dev = dev\<lparr>dev_data := Some d, dev_regs := [(MPU6050_REG_PWR_MGMT_1, 0x00)]\<rparr>;
              ret = mpu6050_write_reg (pwr_ret e) in
          if ret \<noteq> 0 then fail ret dev
          else
            let dev = dev\<lparr>dev_regs := dev_regs dev @ [(MPU6050_REG_ACCEL_CONFIG, 0x00)]\<rparr>;
                ret = mpu6050_write_reg (cfg_ret e) in
            if ret \<noteq> 0 then fail ret dev
            else if \<not> input_ok e then fail (- ENOMEM) dev
            else if register_ret e \<noteq> 0 then fail (register_ret e) dev
            else (0, dev\<lparr>dev_input := True, dev_timer := True\<rparr>))"

section \<open>The timer and the removal\<close>

text \<open>
  The removal runs while the timer still fires and queues the work: its calls one after another,
  and between any two of them the callback, and the start and the end of the handler. The two
  cancelling calls of the kernel wait: \<open>cancel_work_sync\<close> returns when the handler is neither
  queued nor running. \<open>rm_uaf\<close> becomes true when the callback or the handler touches freed data.
\<close>

record removal =
  rm_pc :: nat
  rm_timer :: bool
  rm_pending :: bool
  rm_handler :: bool
  rm_freed :: bool
  rm_uaf :: bool

definition mpu6050_timer_callback :: "removal \<Rightarrow> removal" where
  "mpu6050_timer_callback r = r\<lparr>rm_pending := True, rm_uaf := rm_uaf r \<or> rm_freed r\<rparr>"

inductive remove_step :: "removal \<Rightarrow> removal \<Rightarrow> bool" where
  debugfs_remove: "rm_pc r = 0 \<Longrightarrow> remove_step r (r\<lparr>rm_pc := 1\<rparr>)"
| hrtimer_cancel: "rm_pc r = 1 \<Longrightarrow> remove_step r (r\<lparr>rm_pc := 2, rm_timer := False\<rparr>)"
| cancel_work_sync: "rm_pc r = 2 \<Longrightarrow> \<not> rm_handler r \<Longrightarrow> remove_step r (r\<lparr>rm_pc := 3, rm_pending := False\<rparr>)"
| kfree: "rm_pc r = 3 \<Longrightarrow> remove_step r (r\<lparr>rm_pc := 4, rm_freed := True\<rparr>)"
| tick: "rm_timer r \<Longrightarrow> remove_step r (mpu6050_timer_callback r)"
| start_work: "rm_pending r \<Longrightarrow> \<not> rm_handler r \<Longrightarrow>
    remove_step r (r\<lparr>rm_pending := False, rm_handler := True, rm_uaf := rm_uaf r \<or> rm_freed r\<rparr>)"
| end_work: "rm_handler r \<Longrightarrow> remove_step r (r\<lparr>rm_handler := False, rm_uaf := rm_uaf r \<or> rm_freed r\<rparr>)"

definition removal_start :: "bool \<Rightarrow> bool \<Rightarrow> removal" where
  "removal_start pending handler =
     \<lparr>rm_pc = 0, rm_timer = True, rm_pending = pending, rm_handler = handler, rm_freed = False, rm_uaf = False\<rparr>"

text \<open>What holds at each point of the removal.\<close>

definition removal_ok :: "removal \<Rightarrow> bool" where
  "removal_ok r \<longleftrightarrow> rm_pc r \<le> 4 \<and> \<not> rm_uaf r \<and> (2 \<le> rm_pc r \<longrightarrow> \<not> rm_timer r)
    \<and> (3 \<le> rm_pc r \<longrightarrow> \<not> rm_pending r \<and> \<not> rm_handler r) \<and> (rm_freed r \<longleftrightarrow> rm_pc r = 4)"

lemma remove_step_ok: "remove_step r r' \<Longrightarrow> removal_ok r \<Longrightarrow> removal_ok r'"
  by (induction rule: remove_step.induct)
    (auto simp: removal_ok_def mpu6050_timer_callback_def)

lemma remove_steps_ok: "remove_step\<^sup>*\<^sup>* r r' \<Longrightarrow> removal_ok r \<Longrightarrow> removal_ok r'"
  by (induction rule: rtranclp_induct) (auto intro: remove_step_ok)

section \<open>The wave of the recovery\<close>

text \<open>
  The levels of the two lines over a list of operations, both high before it, and what an i2c
  device sees: a falling clock, a start condition (data falls while the clock is high), a stop
  condition (data rises while the clock is high), a data change while the clock is low.
\<close>

datatype bus_event = Clock_fall | Clock_rise | Start | Stop | Data_change

definition drives :: "gpio_op \<Rightarrow> (line \<times> bool) option" where
  "drives op = (case op of Direction_output l v \<Rightarrow> Some (l, v) | Set_value l v \<Rightarrow> Some (l, v) | _ \<Rightarrow> None)"

fun bus_events :: "bool \<Rightarrow> bool \<Rightarrow> gpio_op list \<Rightarrow> bus_event list" where
  "bus_events scl sda [] = []"
| "bus_events scl sda (op # ops) =
     (case drives op of
        None \<Rightarrow> bus_events scl sda ops
      | Some (SCL, v) \<Rightarrow>
          (if v = scl then [] else if v then [Clock_rise] else [Clock_fall]) @ bus_events v sda ops
      | Some (SDA, v) \<Rightarrow>
          (if v = sda then [] else if scl then (if v then [Stop] else [Start]) else [Data_change])
          @ bus_events scl v ops)"

section \<open>Two bytes as a signed number\<close>

lemma uint_be16: "uint (push_bit 8 (ucast hi) OR ucast lo :: u16) = uint hi * 256 + uint lo" for hi lo :: u8
proof -
  have h: "uint hi < 256" "uint lo < 256" "0 \<le> uint hi" "0 \<le> uint lo"
    using unsigned_less [of hi, where ?'a = int] unsigned_less [of lo, where ?'a = int] by simp_all
  have "(push_bit 8 (ucast hi) AND ucast lo :: u16) = 0"
  proof (rule bit_eqI)
    fix n
    have "\<not> bit lo n" if "8 \<le> n"
      using that bit_imp_le_length [of lo n] by auto
    then show "bit (push_bit 8 (ucast hi) AND ucast lo :: u16) n \<longleftrightarrow> bit (0 :: u16) n"
      by (auto simp: bit_and_iff bit_push_bit_iff bit_ucast_iff)
  qed
  then have "push_bit 8 (ucast hi) OR ucast lo = (push_bit 8 (ucast hi) + ucast lo :: u16)"
    by (simp add: disjunctive_add_eq_or)
  also have "\<dots> = word_of_int (uint hi * 256 + uint lo)"
    by (simp add: push_bit_eq_mult mult.commute)
  also have "uint \<dots> = uint hi * 256 + uint lo"
    using h by (simp only: unsigned_of_int) (simp add: take_bit_int_eq_self_iff)
  finally show ?thesis .
qed

lemma sint_i16: "sint (w :: u16) = (if uint w < 32768 then uint w else uint w - 65536)"
proof -
  have u: "0 \<le> uint w" "uint w < 65536"
    using unsigned_less [of w, where ?'a = int] by simp_all
  have "sint w = (uint w + 32768) mod 65536 - 32768"
    using int_word_sint [of "uint w", where 'a = 16] by simp
  moreover have "(k + 32768) mod 65536 = (if k < 32768 then k + 32768 else k - 32768)"
    if "0 \<le> k" "k < 65536" for k :: int
    using that mod_pos_pos_trivial [of "k - 32768" 65536] mod_add_self2 [of "k - 32768" 65536]
    by (auto simp: mod_pos_pos_trivial add.commute)
  ultimately show ?thesis
    using u by auto
qed

lemma s16_at_eq:
  "s16_at buf p = (let n = uint (buf ! p) * 256 + uint (buf ! (p + 1)) in if n < 32768 then n else n - 65536)"
  by (simp only: s16_at_def sint_i16 uint_be16 Let_def)

section \<open>What the driver declares\<close>

text \<open>Every register the driver writes, and each of the 14 it reads at once, is one of the device's.\<close>

lemma registers_in_range:
  "fst ` set (dev_regs (snd (mpu6050_probe e))) \<subseteq> {..max_register mpu6050_regmap_config}"
  "i < 14 \<Longrightarrow> MPU6050_REG_ACCEL_XOUT_H + of_nat i \<le> max_register mpu6050_regmap_config"
proof -
  show "fst ` set (dev_regs (snd (mpu6050_probe e))) \<subseteq> {..max_register mpu6050_regmap_config}"
    by (auto simp: mpu6050_probe_def Let_def mpu6050_regmap_config_def MPU6050_REG_PWR_MGMT_1_def
        MPU6050_REG_ACCEL_CONFIG_def split: if_splits)
  assume "i < 14"
  then have "i \<in> set [0..<14]"
    by simp
  then show "MPU6050_REG_ACCEL_XOUT_H + of_nat i \<le> max_register mpu6050_regmap_config"
    by (auto simp: MPU6050_REG_ACCEL_XOUT_H_def mpu6050_regmap_config_def upt_rec)
qed

text \<open>Every report is of a declared axis and in its range, and no axis is declared with a fuzz.\<close>

lemma s16_range: "- 32768 \<le> s16_at buf p \<and> s16_at buf p \<le> 32767"
  unfolding s16_at_def using sint_ge [of "push_bit 8 (ucast (buf ! p)) OR ucast (buf ! (p + 1)) :: i16"]
    sint_lt [of "push_bit 8 (ucast (buf ! p)) OR ucast (buf ! (p + 1)) :: i16"] by simp

lemma reports_declared:
  assumes "Report_abs i v \<in> set (reports (mpu6050_work_handler ret buf d))" and "reports d = []"
  shows "\<exists>lo hi flat. (i, lo, hi, 0, flat) \<in> set mpu6050_abs_params \<and> lo \<le> v \<and> v \<le> hi"
  using assms s16_range [of buf]
  by (auto simp: mpu6050_work_handler_def mpu6050_check_bus_error_def mpu6050_i2c_bus_recovery_def
      mpu6050_abs_params_def Let_def split: if_splits)

section \<open>Properties\<close>

text \<open>
  The recovery clocks the bus as the i2c specification asks: nine full clock pulses with the
  data line released, then a start and a stop condition, no change of the data line while the
  clock is low, and both lines are inputs again at the end. It is counted whether or not the two
  lines are available, and touches no line if one is missing.
\<close>

theorem bus_recovery_wave:
  "recovery_count (mpu6050_i2c_bus_recovery d) = recovery_count d + 1
    \<and> (\<exists>ops. gpio_ops (mpu6050_i2c_bus_recovery d) = gpio_ops d @ ops
        \<and> bus_events True True ops =
            (if has_scl_gpio d \<and> has_sda_gpio d then concat (replicate 9 [Clock_fall, Clock_rise]) @ [Start, Stop] else [])
        \<and> (ops = [] \<or> drop (length ops - 2) ops = [Direction_input SCL, Direction_input SDA]))"
  by (simp add: mpu6050_i2c_bus_recovery_def recovery_ops_def clock_pulse_def drives_def numeral_eq_Suc)

text \<open>
  A sample that was read is reported as one frame: the six axes in the order of their codes,
  each the big-endian 16-bit two's complement number at its place in the register block (the
  temperature between them left out), inside the range the input device declares, then the end of
  the frame. A failed read reports nothing, and recovers the bus exactly for the six error
  numbers of a stuck bus.
\<close>

theorem sample_reported:
  "(0 \<le> ret \<longrightarrow> mpu6050_work_handler ret buf d =
      d\<lparr>reports := reports d @ map (\<lambda>(i, p). Report_abs i (s16_at buf p)) (zip [0..<6] [0, 2, 4, 8, 10, 12]) @ [Input_sync]\<rparr>)
    \<and> (ret < 0 \<longrightarrow> reports (mpu6050_work_handler ret buf d) = reports d
        \<and> mpu6050_work_handler ret buf d =
            (if ret \<in> {-5, -6, -11, -16, -110, -121} then mpu6050_i2c_bus_recovery d else d))
    \<and> s16_at buf p = (let n = uint (buf ! p) * 256 + uint (buf ! (p + 1)) in if n < 32768 then n else n - 65536)"
  using s16_at_eq
  by (auto simp: mpu6050_work_handler_def mpu6050_check_bus_error_def mpu6050_i2c_bus_recovery_def Let_def
      EIO_def ENXIO_def EAGAIN_def EBUSY_def ETIMEDOUT_def EREMOTEIO_def upt_rec)

theorem sample_reported_witness:
  "let d = \<lparr>has_scl_gpio = True, has_sda_gpio = False, recovery_count = 4, gpio_ops = [], reports = []\<rparr> in
   reports (mpu6050_work_handler 0 [0x40, 0, 0xFF, 0xFE, 0x80, 0, 9, 9, 0, 1, 0, 2, 0x7F, 0xFF] d) =
     [Report_abs 0 16384, Report_abs 1 (-2), Report_abs 2 (-32768), Report_abs 3 1, Report_abs 4 2,
      Report_abs 5 32767, Input_sync]
   \<and> reports (mpu6050_work_handler (-121) [] d) = []"
  using sample_reported [of 0 "[0x40, 0, 0xFF, 0xFE, 0x80, 0, 9, 9, 0, 1, 0, 2, 0x7F, 0xFF]"
      "\<lparr>has_scl_gpio = True, has_sda_gpio = False, recovery_count = 4, gpio_ops = [], reports = []\<rparr>"]
    sample_reported [of "-121" "[]"
      "\<lparr>has_scl_gpio = True, has_sda_gpio = False, recovery_count = 4, gpio_ops = [], reports = []\<rparr>"]
  by (simp add: Let_def upt_rec s16_at_eq mpu6050_i2c_bus_recovery_def)

text \<open>
  C32. The removal never frees the data under a running callback: however the timer and the work
  handler are interleaved with it, none of them runs after the memory is freed, and at the end
  neither the timer nor the work is left.
\<close>

theorem remove_no_use_after_free:
  assumes "remove_step\<^sup>*\<^sup>* (removal_start pending handler) r"
  shows "\<not> rm_uaf r \<and> (rm_pc r = 4 \<longrightarrow> \<not> rm_timer r \<and> \<not> rm_pending r \<and> \<not> rm_handler r \<and> rm_freed r)"
proof -
  have "removal_ok (removal_start pending handler)"
    by (simp add: removal_start_def removal_ok_def)
  then show ?thesis
    using remove_steps_ok [OF assms] by (simp add: removal_ok_def)
qed

text \<open>A removal that meets a running handler and a timer that fires once more.\<close>

theorem remove_no_use_after_free_witness:
  "\<exists>r. remove_step\<^sup>*\<^sup>* (removal_start False True) r \<and> rm_pc r = 4 \<and> rm_freed r
    \<and> \<not> rm_uaf r \<and> \<not> rm_timer r \<and> \<not> rm_pending r \<and> \<not> rm_handler r"
proof -
  let ?r = "\<lambda>pc t p h f. \<lparr>rm_pc = pc, rm_timer = t, rm_pending = p, rm_handler = h, rm_freed = f, rm_uaf = False\<rparr>"
  have "remove_step (?r 0 True False True False) (?r 1 True False True False)"
    using debugfs_remove [of "?r 0 True False True False"] by simp
  moreover have "remove_step (?r 1 True False True False) (?r 1 True True True False)"
    using tick [of "?r 1 True False True False"] by (simp add: mpu6050_timer_callback_def)
  moreover have "remove_step (?r 1 True True True False) (?r 2 False True True False)"
    using hrtimer_cancel [of "?r 1 True True True False"] by simp
  moreover have "remove_step (?r 2 False True True False) (?r 2 False True False False)"
    using end_work [of "?r 2 False True True False"] by simp
  moreover have "remove_step (?r 2 False True False False) (?r 3 False False False False)"
    using cancel_work_sync [of "?r 2 False True False False"] by simp
  moreover have "remove_step (?r 3 False False False False) (?r 4 False False False True)"
    using kfree [of "?r 3 False False False False"] by simp
  ultimately have "remove_step\<^sup>*\<^sup>* (removal_start False True) (?r 4 False False False True)"
    unfolding removal_start_def by (meson converse_rtranclp_into_rtranclp rtranclp.rtrancl_refl)
  then show ?thesis
    using remove_no_use_after_free [of False True "?r 4 False False False True"]
    by (intro exI [of _ "?r 4 False False False True"]) simp
qed

end
