(* ===== verification/Thread_Config.thy ===== *)
theory Thread_Config
  imports Edge_Prelude
begin

text \<open>
  Where the threads run (\<open>app/include/thread_config.h\<close>) and the preamble both long-running threads of
  \<open>app/main.c\<close> share: the thread binds itself to its core, then sets its scheduling class and
  priority, and returns at once if either call fails.
\<close>

definition COLLECTOR_CPU_CORE :: nat where "COLLECTOR_CPU_CORE = 0"
definition MAIN_CPU_CORE :: nat where "MAIN_CPU_CORE = 1"

datatype sched_policy = SCHED_OTHER | SCHED_FIFO

definition COLLECTOR_SCHED_POLICY :: sched_policy where "COLLECTOR_SCHED_POLICY = SCHED_FIFO"
definition COLLECTOR_PRIORITY :: int where "COLLECTOR_PRIORITY = 99"
definition MAIN_SCHED_POLICY :: sched_policy where "MAIN_SCHED_POLICY = SCHED_OTHER"
definition MAIN_PRIORITY :: int where "MAIN_PRIORITY = 0"

text \<open>What \<open>pthread_setaffinity_np\<close> and \<open>pthread_setschedparam\<close> answer the calling thread.\<close>

record thread_os =
  pthread_setaffinity_np :: "nat \<Rightarrow> int"
  pthread_setschedparam :: "sched_policy \<Rightarrow> int \<Rightarrow> int"

definition thread_setup :: "thread_os \<Rightarrow> nat \<Rightarrow> sched_policy \<Rightarrow> int \<Rightarrow> bool" where
  "thread_setup os core policy priority =
     (if pthread_setaffinity_np os core \<noteq> 0 then False
      else if pthread_setschedparam os policy priority \<noteq> 0 then False
      else True)"

text \<open>
  What Linux documents of the two calls for a process without privileges: a core the machine has
  may be chosen, and the ordinary class with priority 0, but not a real-time class.
\<close>

definition unprivileged_os :: thread_os where
  "unprivileged_os = \<lparr>pthread_setaffinity_np = (\<lambda>core. if core < 4 then 0 else 22),
     pthread_setschedparam = (\<lambda>policy priority. if policy = SCHED_OTHER \<and> priority = 0 then 0 else 1)\<rparr>"

definition privileged_os :: thread_os where
  "privileged_os = \<lparr>pthread_setaffinity_np = (\<lambda>core. if core < 4 then 0 else 22),
     pthread_setschedparam = (\<lambda>policy priority. if priority \<le> 99 then 0 else 22)\<rparr>"

lemma thread_setup_examples [simp]:
  "\<not> thread_setup unprivileged_os COLLECTOR_CPU_CORE COLLECTOR_SCHED_POLICY COLLECTOR_PRIORITY"
  "thread_setup unprivileged_os MAIN_CPU_CORE MAIN_SCHED_POLICY MAIN_PRIORITY"
  "thread_setup privileged_os COLLECTOR_CPU_CORE COLLECTOR_SCHED_POLICY COLLECTOR_PRIORITY"
  by (simp_all add: thread_setup_def unprivileged_os_def privileged_os_def COLLECTOR_CPU_CORE_def MAIN_CPU_CORE_def
      COLLECTOR_SCHED_POLICY_def MAIN_SCHED_POLICY_def COLLECTOR_PRIORITY_def MAIN_PRIORITY_def)

end
