(* ===== verification/Collector.thy ===== *)
theory Collector
  imports Heartbeat Thread_Config Fsm Metrics Modbus_Server Db_Manager Mpu6050_Hal Sht30_Hal
begin

text \<open>
  The collector thread of \<open>app/main.c\<close>: ten times a second it reads the motion sensor and the
  humidity sensor through the abstraction layer, keeps the streaks of failures that drive the
  state machine, hands the samples to the database and publishes the register values.

  One round takes what the outside answers in it: which device files exist and open, the result and
  the samples of the two reads, the clocks. Undefined behaviour (an axis name outside its table, a
  store outside an array, a corrupted state) is \<open>None\<close>.
\<close>

section \<open>State\<close>

record collector =
  mpu_open :: bool
  sht_open :: bool
  mpu_buf :: "sensor_data list"
  sht_buf :: "sensor_data list"
  mpu_fail_streak :: int
  mpu_no_data_streak :: int
  sht_fail_streak :: int
  latest_ax :: i32
  latest_ay :: i32
  g_sensor_heartbeat :: u64
  g_fsm :: fsm_context
  c_metrics :: metrics
  c_regs :: modbus_reg_data
  inserts :: "int db_op list"

text \<open>
  The answers of one round: for each device file of a probe whether it exists and opens (a round
  probes at most twice), the result of each read with the samples stored from the start of the
  buffer, \<open>time\<close>, and the clock around the read of the humidity sensor.
\<close>

record round_in =
  in_reopen :: "(bool \<times> bool) list"
  in_retry :: "(bool \<times> bool) list"
  in_mpu :: "int \<times> sensor_data list"
  in_mpu_time :: int
  in_sht :: "int \<times> sensor_data list"
  in_sht_time :: int
  in_sht_start :: timespec
  in_sht_end :: timespec

text \<open>The loop over \<open>/dev/input/event0\<close> to \<open>event3\<close>: the first file that exists and opens.\<close>

fun probe_mpu :: "nat \<Rightarrow> (bool \<times> bool) list \<Rightarrow> bool" where
  "probe_mpu i [] = False"
| "probe_mpu i ((exists, opens) # files) =
     (if 3 < i then False else if exists \<and> opens then True else probe_mpu (i + 1) files)"

text \<open>A buffer after a read stored samples from its start.\<close>

definition stored_in :: "sensor_data list \<Rightarrow> sensor_data list \<Rightarrow> sensor_data list" where
  "stored_in out buf = take (length buf) (out @ drop (length out) buf)"

definition raise_event :: "fsm_event \<Rightarrow> collector \<Rightarrow> collector option" where
  "raise_event e c =
     (case fsm_transition (Some (g_fsm c)) e of
        Some (_, Some ctx) \<Rightarrow> Some (c\<lparr>g_fsm := ctx\<rparr>)
      | _ \<Rightarrow> None)"

section \<open>The motion sensor\<close>

definition count_mpu_fail :: "collector \<Rightarrow> collector" where
  "count_mpu_fail c = c\<lparr>g_fsm := (g_fsm c)\<lparr>mpu_fail_count := mpu_fail_count (g_fsm c) + 1\<rparr>\<rparr>"

definition report_mpu_fail :: "collector \<Rightarrow> collector option" where
  "report_mpu_fail c = (if 3 \<le> mpu_fail_streak c then raise_event EVENT_MPU_FAIL c else Some c)"

text \<open>The handle is closed and the device files are probed again.\<close>

definition reopen_mpu :: "(bool \<times> bool) list \<Rightarrow> collector \<Rightarrow> collector" where
  "reopen_mpu files c = c\<lparr>mpu_open := probe_mpu 0 files\<rparr>"

definition mpu_failed :: "round_in \<Rightarrow> collector \<Rightarrow> collector option" where
  "mpu_failed i c =
     (let c = c\<lparr>mpu_fail_streak := mpu_fail_streak c + 1, mpu_no_data_streak := 0\<rparr> in
      report_mpu_fail (reopen_mpu (in_retry i) (count_mpu_fail c)))"

definition axis_name :: "string list" where
  "axis_name = [''AX'', ''AY'', ''AZ'', ''GX'', ''GY'', ''GZ'']"

text \<open>The loops over the samples: names, insertions, the latest two accelerations.\<close>

fun store_mpu :: "int \<Rightarrow> sensor_data list \<Rightarrow> collector \<Rightarrow> collector option" where
  "store_mpu ts [] c = Some c"
| "store_mpu ts (x # xs) c =
     (if length axis_name \<le> unat (channel x) then None
      else
        let c = c\<lparr>inserts := inserts c @ [Insert ts ''mpu6050'' (axis_name ! unat (channel x)) (sint (sd_value x))]\<rparr>;
            c = (if channel x = 0 then c\<lparr>latest_ax := sd_value x\<rparr> else c);
            c = (if channel x = 1 then c\<lparr>latest_ay := sd_value x\<rparr> else c) in
        store_mpu ts xs c)"

definition mpu_data :: "round_in \<Rightarrow> int \<Rightarrow> collector \<Rightarrow> collector option" where
  "mpu_data i n c =
     (let count = nat (n div int sizeof_sensor_data) in
      if length (mpu_buf c) < count then None
      else
        Option.bind
          (if 0 < mpu_fail_streak c \<and> fsm_get_state (g_fsm c) = state_code STATE_DEGRADED
           then raise_event EVENT_MPU_RESTORED c else Some c)
          (\<lambda>c. store_mpu (in_mpu_time i) (take count (mpu_buf c)) (c\<lparr>mpu_fail_streak := 0, mpu_no_data_streak := 0\<rparr>)))"

definition mpu_no_data :: "round_in \<Rightarrow> collector \<Rightarrow> collector option" where
  "mpu_no_data i c =
     (let c = c\<lparr>mpu_no_data_streak := mpu_no_data_streak c + 1\<rparr> in
      if 10 \<le> mpu_no_data_streak c then mpu_failed i c else Some c)"

definition mpu_phase :: "round_in \<Rightarrow> collector \<Rightarrow> collector option" where
  "mpu_phase i c =
     (if hal_get_ops ''mpu6050'' = None then Some c
      else
        let c = (if mpu_open c then c else c\<lparr>mpu_open := probe_mpu 0 (in_reopen i)\<rparr>) in
        if \<not> mpu_open c then
          report_mpu_fail (count_mpu_fail (c\<lparr>mpu_fail_streak := mpu_fail_streak c + 1\<rparr>))
        else
          let n = fst (in_mpu i); c = c\<lparr>mpu_buf := stored_in (snd (in_mpu i)) (mpu_buf c)\<rparr> in
          if n < 0 then mpu_failed i c
          else if 0 < n then mpu_data i n c
          else mpu_no_data i c)"

section \<open>The humidity sensor\<close>

text \<open>The time of the read in microseconds; a read takes far less than the 2147 seconds that overflow.\<close>

definition latency_us :: "timespec \<Rightarrow> timespec \<Rightarrow> int" where
  "latency_us start fin =
     (tv_sec fin - tv_sec start) * 1000000 + (tv_nsec fin - tv_nsec start) sdiv 1000"

definition sht_failed :: "collector \<Rightarrow> collector option" where
  "sht_failed c =
     (let c = c\<lparr>sht_fail_streak := sht_fail_streak c + 1,
                g_fsm := (g_fsm c)\<lparr>i2c_retry_count := i2c_retry_count (g_fsm c) + 1\<rparr>\<rparr> in
      if 3 \<le> mpu_fail_streak c \<and> 3 \<le> sht_fail_streak c then raise_event EVENT_I2C_DEADLOCK c else Some c)"

definition sht_channel_name :: "sensor_data \<Rightarrow> string" where
  "sht_channel_name x = (if channel x = 0 then ''temperature'' else ''humidity'')"

definition mb_data :: "collector \<Rightarrow> modbus_reg_data" where
  "mb_data c =
     \<lparr>temperature = word_of_int (sint (sd_value (sht_buf c ! 0)) sdiv 10),
      humidity = word_of_int (sint (sd_value (sht_buf c ! 1)) sdiv 10),
      accel_x = ucast (latest_ax c), accel_y = ucast (latest_ay c)\<rparr>"

definition publish_regs :: "collector \<Rightarrow> collector" where
  "publish_regs c = c\<lparr>c_regs := modbus_server_update_data (mb_data c) (c_regs c)\<rparr>"

definition sht_data :: "round_in \<Rightarrow> int \<Rightarrow> collector \<Rightarrow> collector option" where
  "sht_data i n c =
     (let count = nat (n div int sizeof_sensor_data) in
      if length (sht_buf c) < count then None
      else
        let c = c\<lparr>sht_fail_streak := 0,
                  g_fsm := (g_fsm c)\<lparr>temp_raw := sd_value (sht_buf c ! 0), hum_raw := sd_value (sht_buf c ! 1)\<rparr>\<rparr>;
            c = c\<lparr>inserts := inserts c @
                  map (\<lambda>x. Insert (in_sht_time i) ''sht30'' (sht_channel_name x) (sint (sd_value x)))
                    (take count (sht_buf c))\<rparr> in
        Some (publish_regs c))"

definition sht_phase :: "round_in \<Rightarrow> collector \<Rightarrow> collector option" where
  "sht_phase i c =
     (if hal_get_ops ''sht30'' = None \<or> \<not> sht_open c then Some c
      else
        let n = fst (in_sht i); c = c\<lparr>sht_buf := stored_in (snd (in_sht i)) (sht_buf c)\<rparr> in
        case record_latency (c_metrics c) (latency_us (in_sht_start i) (in_sht_end i)) of
          None \<Rightarrow> None
        | Some m \<Rightarrow>
            let c = c\<lparr>c_metrics := m\<rparr> in
            if n < 0 then sht_failed c
            else if 0 < n then sht_data i n c
            else Some c)"

section \<open>One round of the loop\<close>

definition beat :: "collector \<Rightarrow> collector" where
  "beat c = c\<lparr>g_sensor_heartbeat := g_sensor_heartbeat c + 1\<rparr>"

definition publish_state :: "collector \<Rightarrow> collector" where
  "publish_state c = c\<lparr>c_metrics := (c_metrics c)\<lparr>g_system_state := fsm_get_state (g_fsm c)\<rparr>\<rparr>"

definition collector_round :: "round_in \<Rightarrow> collector \<Rightarrow> collector option" where
  "collector_round i c =
     (case mpu_phase i (beat c) of
        None \<Rightarrow> None
      | Some c \<Rightarrow>
          (case sht_phase i c of
             None \<Rightarrow> None
           | Some c \<Rightarrow> Some (beat (publish_state c))))"

fun collector_loop :: "round_in list \<Rightarrow> collector \<Rightarrow> collector option" where
  "collector_loop [] c = Some c"
| "collector_loop (i # is) c =
     (case collector_round i c of None \<Rightarrow> None | Some c' \<Rightarrow> collector_loop is c')"

section \<open>Starting\<close>

text \<open>
  The warm-up of a handle: up to fifty reads, each with its result and its latency, until one
  delivers. The result says whether it did.
\<close>

fun warm_up :: "nat \<Rightarrow> (int \<times> int) list \<Rightarrow> metrics \<Rightarrow> (bool \<times> metrics) option" where
  "warm_up w [] m = Some (False, m)"
| "warm_up w ((n, latency) # reads) m =
     (if 50 \<le> w then Some (False, m)
      else case record_latency m latency of
             None \<Rightarrow> None
           | Some m \<Rightarrow> if 0 < n then Some (True, m) else warm_up (w + 1) reads m)"

text \<open>The probe at the start: a file that exists and opens but does not warm up is closed again.\<close>

fun open_mpu :: "nat \<Rightarrow> (bool \<times> bool \<times> (int \<times> int) list) list \<Rightarrow> metrics \<Rightarrow> (bool \<times> metrics) option" where
  "open_mpu i [] m = Some (False, m)"
| "open_mpu i ((exists, opens, reads) # files) m =
     (if 3 < i then Some (False, m)
      else if exists \<and> opens then
        (case warm_up 0 reads m of
           None \<Rightarrow> None
         | Some (True, m) \<Rightarrow> Some (True, m)
         | Some (False, m) \<Rightarrow> open_mpu (i + 1) files m)
      else open_mpu (i + 1) files m)"

text \<open>The thread up to its loop; the buffers on its stack hold anything.\<close>

definition collector_start ::
  "(bool \<times> bool \<times> (int \<times> int) list) list \<Rightarrow> int \<Rightarrow> sensor_data list \<Rightarrow> sensor_data list \<Rightarrow> fsm_context \<Rightarrow> metrics
    \<Rightarrow> modbus_reg_data \<Rightarrow> collector option" where
  "collector_start files sht_open_ret buf6 buf2 ctx m regs =
     (case (if hal_get_ops ''mpu6050'' = None then Some (False, m) else open_mpu 0 files m) of
        None \<Rightarrow> None
      | Some (opened, m) \<Rightarrow>
          Some \<lparr>mpu_open = opened, sht_open = (hal_get_ops ''sht30'' \<noteq> None \<and> 0 \<le> sht_open_ret),
                mpu_buf = buf6, sht_buf = buf2, mpu_fail_streak = 0, mpu_no_data_streak = 0, sht_fail_streak = 0,
                latest_ax = 0, latest_ay = 0, g_sensor_heartbeat = 0, g_fsm = ctx, c_metrics = m, c_regs = regs,
                inserts = []\<rparr>)"

text \<open>
  The whole thread over the rounds of its life: it has returned, or it is at the head of its loop,
  which nothing leaves. \<open>None\<close> is undefined behaviour.
\<close>

datatype collector_thread_state = Returned | In_loop collector

definition collector_thread ::
  "thread_os \<Rightarrow> (bool \<times> bool \<times> (int \<times> int) list) list \<Rightarrow> int \<Rightarrow> sensor_data list \<Rightarrow> sensor_data list \<Rightarrow> fsm_context
    \<Rightarrow> metrics \<Rightarrow> modbus_reg_data \<Rightarrow> round_in list \<Rightarrow> collector_thread_state option" where
  "collector_thread os files sht_open_ret buf6 buf2 ctx m regs rounds =
     (if \<not> thread_setup os COLLECTOR_CPU_CORE COLLECTOR_SCHED_POLICY COLLECTOR_PRIORITY then Some Returned
      else
        case collector_start files sht_open_ret buf6 buf2 ctx m regs of
          None \<Rightarrow> None
        | Some c \<Rightarrow> map_option In_loop (collector_loop rounds c))"

text \<open>The heartbeat the other threads see: it starts at 0 and only the loop moves it.\<close>

fun seen_heartbeat :: "collector_thread_state \<Rightarrow> u64" where
  "seen_heartbeat Returned = 0"
| "seen_heartbeat (In_loop c) = g_sensor_heartbeat c"

section \<open>The state machine follows the streaks\<close>

lemma raise_event_ok:
  assumes "fsm_ok (g_fsm c)"
  obtains ctx where "raise_event e c = Some (c\<lparr>g_fsm := ctx\<rparr>)" "fsm_ok ctx" "fsm_state ctx = fsm_next (fsm_state (g_fsm c)) e"
  using fsm_transition_next [OF assms, of e] by (auto simp: raise_event_def)

text \<open>The state that belongs to a streak of failures, until the bus is given up.\<close>

definition state_of_streak :: "int \<Rightarrow> system_state" where
  "state_of_streak k = (if 3 \<le> k then STATE_DEGRADED else STATE_RUNNING)"

definition control_ok :: "collector \<Rightarrow> bool" where
  "control_ok c \<longleftrightarrow> fsm_ok (g_fsm c) \<and> 0 \<le> mpu_fail_streak c
    \<and> fsm_state (g_fsm c) \<in> {STATE_RECOVERING, state_of_streak (mpu_fail_streak c)}"

definition bufs_ok :: "collector \<Rightarrow> bool" where
  "bufs_ok c \<longleftrightarrow> length (mpu_buf c) = 6 \<and> length (sht_buf c) = 2"

declare control_ok_def [ok_simps] bufs_ok_def [ok_simps]

lemma fsm_ok_counters [simp]:
  "fsm_ok (x\<lparr>mpu_fail_count := k\<rparr>) = fsm_ok x" "fsm_state (x\<lparr>mpu_fail_count := k\<rparr>) = fsm_state x"
  "fsm_ok (x\<lparr>i2c_retry_count := k\<rparr>) = fsm_ok x" "fsm_state (x\<lparr>i2c_retry_count := k\<rparr>) = fsm_state x"
  "fsm_ok (x\<lparr>temp_raw := a, hum_raw := b\<rparr>) = fsm_ok x" "fsm_state (x\<lparr>temp_raw := a, hum_raw := b\<rparr>) = fsm_state x"
  by (simp_all add: fsm_ok_def fsm_state_def)

text \<open>The state after one more failure, and after a failure of both sensors.\<close>

lemma next_streak:
  "s \<in> {STATE_RECOVERING, state_of_streak k} \<Longrightarrow> 0 \<le> k \<Longrightarrow>
    (if 3 \<le> k + 1 then fsm_next s EVENT_MPU_FAIL else s) =
      (if s = STATE_RECOVERING then STATE_RECOVERING else state_of_streak (k + 1))"
  by (auto simp: state_of_streak_def fsm_next_simps)

lemma next_restored:
  "s \<in> {STATE_RECOVERING, state_of_streak k} \<Longrightarrow>
    (if 0 < k \<and> s = STATE_DEGRADED then fsm_next s EVENT_MPU_RESTORED else s) =
      (if s = STATE_RECOVERING then STATE_RECOVERING else STATE_RUNNING)"
  by (auto simp: state_of_streak_def fsm_next_simps)

lemma next_deadlock:
  "s \<in> {STATE_RECOVERING, state_of_streak k} \<Longrightarrow> 3 \<le> k \<Longrightarrow> fsm_next s EVENT_I2C_DEADLOCK = STATE_RECOVERING"
  by (auto simp: state_of_streak_def fsm_next_simps)

text \<open>A failure of the motion sensor: only the streak, the counter, the handle and the state move.\<close>

definition after_mpu_fail :: "collector \<Rightarrow> system_state" where
  "after_mpu_fail c = (if fsm_state (g_fsm c) = STATE_RECOVERING then STATE_RECOVERING
     else state_of_streak (mpu_fail_streak c + 1))"

lemma report_mpu_fail_ok:
  assumes "fsm_ok (g_fsm c)" and "0 \<le> mpu_fail_streak c - 1"
    and "fsm_state (g_fsm c) \<in> {STATE_RECOVERING, state_of_streak (mpu_fail_streak c - 1)}"
  obtains ctx where "report_mpu_fail c = Some (c\<lparr>g_fsm := ctx\<rparr>)" "fsm_ok ctx"
    "fsm_state ctx = (if fsm_state (g_fsm c) = STATE_RECOVERING then STATE_RECOVERING else state_of_streak (mpu_fail_streak c))"
proof (cases "3 \<le> mpu_fail_streak c")
  case True
  obtain ctx where "raise_event EVENT_MPU_FAIL c = Some (c\<lparr>g_fsm := ctx\<rparr>)" "fsm_ok ctx"
    "fsm_state ctx = fsm_next (fsm_state (g_fsm c)) EVENT_MPU_FAIL"
    by (rule raise_event_ok [OF assms(1)])
  then show ?thesis
    using that next_streak [OF assms(3,2)] True by (simp add: report_mpu_fail_def)
next
  case False
  then show ?thesis
    using that [of "g_fsm c"] next_streak [OF assms(3,2), unfolded diff_add_cancel] assms(1)
    by (simp add: report_mpu_fail_def)
qed

text \<open>What a phase leaves alone.\<close>

definition mpu_frame :: "collector \<Rightarrow> collector \<Rightarrow> bool" where
  "mpu_frame c c' \<longleftrightarrow> sht_open c' = sht_open c \<and> sht_buf c' = sht_buf c \<and> sht_fail_streak c' = sht_fail_streak c
    \<and> g_sensor_heartbeat c' = g_sensor_heartbeat c \<and> c_metrics c' = c_metrics c \<and> c_regs c' = c_regs c"

lemma mpu_failed_ok:
  assumes "control_ok c" and "bufs_ok c"
  shows "\<exists>c'. mpu_failed i c = Some c' \<and> control_ok c' \<and> bufs_ok c' \<and> mpu_frame c c' \<and> inserts c' = inserts c
    \<and> mpu_fail_streak c' = mpu_fail_streak c + 1 \<and> fsm_state (g_fsm c') = after_mpu_fail c"
proof -
  let ?c = "reopen_mpu (in_retry i) (count_mpu_fail (c\<lparr>mpu_fail_streak := mpu_fail_streak c + 1, mpu_no_data_streak := 0\<rparr>))"
  have c: "fsm_ok (g_fsm ?c)" "0 \<le> mpu_fail_streak ?c - 1"
    "fsm_state (g_fsm ?c) \<in> {STATE_RECOVERING, state_of_streak (mpu_fail_streak ?c - 1)}"
    using assms(1) by (simp_all add: control_ok_def reopen_mpu_def count_mpu_fail_def)
  obtain ctx where "report_mpu_fail ?c = Some (?c\<lparr>g_fsm := ctx\<rparr>)" "fsm_ok ctx"
    "fsm_state ctx = (if fsm_state (g_fsm ?c) = STATE_RECOVERING then STATE_RECOVERING else state_of_streak (mpu_fail_streak ?c))"
    by (rule report_mpu_fail_ok [OF c])
  then show ?thesis
    using assms
    by (auto simp: mpu_failed_def Let_def ok_simps mpu_frame_def reopen_mpu_def count_mpu_fail_def
        after_mpu_fail_def)
qed

text \<open>The samples of the motion sensor on their way to the database and the registers.\<close>

definition mpu_row :: "int \<Rightarrow> sensor_data \<Rightarrow> int db_op" where
  "mpu_row ts x = Insert ts ''mpu6050'' (axis_name ! unat (channel x)) (sint (sd_value x))"

definition latest_of :: "u8 \<Rightarrow> sensor_data list \<Rightarrow> i32 \<Rightarrow> i32" where
  "latest_of ch xs v = fold (\<lambda>x v. if channel x = ch then sd_value x else v) xs v"

lemma store_mpu_eq:
  "\<forall>x\<in>set xs. unat (channel x) < 6 \<Longrightarrow> store_mpu ts xs c =
    Some (c\<lparr>inserts := inserts c @ map (mpu_row ts) xs, latest_ax := latest_of 0 xs (latest_ax c),
            latest_ay := latest_of 1 xs (latest_ay c)\<rparr>)"
proof (induction xs arbitrary: c)
  case (Cons x xs)
  have "length axis_name = 6"
    by (simp add: axis_name_def)
  then show ?case
    using Cons by (simp add: Let_def mpu_row_def latest_of_def)
qed (simp add: latest_of_def)

lemma stored_in_take:
  "length out \<le> length buf \<Longrightarrow> take (length out) (stored_in out buf) = out \<and> length (stored_in out buf) = length buf"
  by (simp add: stored_in_def)

lemma read_ok_count:
  assumes "read_ok limit kinds (n, out)" and "0 \<le> n"
  shows "nat (n div int sizeof_sensor_data) = length out" "length out \<le> limit"
    "\<forall>x\<in>set out. unat (channel x) < kinds" "0 < n \<longleftrightarrow> out \<noteq> []"
  using assms by (auto simp: read_ok_def)

lemma fsm_get_degraded: "fsm_get_state x = state_code STATE_DEGRADED \<longleftrightarrow> fsm_state x = STATE_DEGRADED"
  by (simp only: fsm_get_state_eq state_code_inj)

lemma mpu_data_ok:
  assumes "control_ok c" and "bufs_ok c" and "in_mpu i = (n, out)" and "read_ok 6 6 (n, out)" and "0 < n"
  shows "\<exists>c'. mpu_data i n (c\<lparr>mpu_buf := stored_in out (mpu_buf c)\<rparr>) = Some c' \<and> control_ok c' \<and> bufs_ok c'
    \<and> mpu_frame c c' \<and> inserts c' = inserts c @ map (mpu_row (in_mpu_time i)) out \<and> mpu_fail_streak c' = 0
    \<and> fsm_state (g_fsm c') = (if fsm_state (g_fsm c) = STATE_RECOVERING then STATE_RECOVERING else STATE_RUNNING)
    \<and> latest_ax c' = latest_of 0 out (latest_ax c) \<and> latest_ay c' = latest_of 1 out (latest_ay c)"
proof -
  let ?c = "c\<lparr>mpu_buf := stored_in out (mpu_buf c)\<rparr>"
  note out = read_ok_count [OF assms(4) less_imp_le [OF assms(5)]]
  have buf: "take (length out) (mpu_buf ?c) = out" "length (mpu_buf ?c) = 6"
    using stored_in_take [of out "mpu_buf c"] out(2) assms(2) by (simp_all add: bufs_ok_def)
  have s: "fsm_ok (g_fsm c)" "fsm_state (g_fsm c) \<in> {STATE_RECOVERING, state_of_streak (mpu_fail_streak c)}"
    using assms(1) by (simp_all add: control_ok_def)
  obtain ctx where restored: "(if 0 < mpu_fail_streak ?c \<and> fsm_get_state (g_fsm ?c) = state_code STATE_DEGRADED
      then raise_event EVENT_MPU_RESTORED ?c else Some ?c) = Some (?c\<lparr>g_fsm := ctx\<rparr>)" "fsm_ok ctx"
    "fsm_state ctx = (if fsm_state (g_fsm c) = STATE_RECOVERING then STATE_RECOVERING else STATE_RUNNING)"
  proof (cases "0 < mpu_fail_streak c \<and> fsm_state (g_fsm c) = STATE_DEGRADED")
    case True
    obtain ctx where "raise_event EVENT_MPU_RESTORED ?c = Some (?c\<lparr>g_fsm := ctx\<rparr>)" "fsm_ok ctx"
      "fsm_state ctx = fsm_next (fsm_state (g_fsm ?c)) EVENT_MPU_RESTORED"
      using raise_event_ok [of ?c EVENT_MPU_RESTORED] s(1) by auto
    then show ?thesis
      using that [of ctx] True by (simp add: fsm_get_degraded fsm_next_simps del: state_code.simps)
  next
    case False
    then show ?thesis
      using that [of "g_fsm c"] next_restored [OF s(2)] s(1) by (auto simp: fsm_get_degraded simp del: state_code.simps)
  qed
  have "mpu_data i n ?c = store_mpu (in_mpu_time i) out (?c\<lparr>g_fsm := ctx, mpu_fail_streak := 0, mpu_no_data_streak := 0\<rparr>)"
    unfolding mpu_data_def Let_def out(1) restored(1) using buf out(2) by simp
  then show ?thesis
    using store_mpu_eq [OF out(3)] restored(2,3) buf(2) assms(2)
    by (auto simp: ok_simps mpu_frame_def state_of_streak_def)
qed

text \<open>The outcome of a round for the motion sensor.\<close>

definition mpu_opened :: "round_in \<Rightarrow> collector \<Rightarrow> bool" where
  "mpu_opened i c \<longleftrightarrow> mpu_open c \<or> probe_mpu 0 (in_reopen i)"

definition mpu_fails :: "round_in \<Rightarrow> collector \<Rightarrow> bool" where
  "mpu_fails i c \<longleftrightarrow> \<not> mpu_opened i c \<or> fst (in_mpu i) < 0 \<or> fst (in_mpu i) = 0 \<and> 9 \<le> mpu_no_data_streak c"

definition mpu_delivers :: "round_in \<Rightarrow> collector \<Rightarrow> bool" where
  "mpu_delivers i c \<longleftrightarrow> mpu_opened i c \<and> 0 < fst (in_mpu i)"

definition mpu_rows :: "round_in \<Rightarrow> collector \<Rightarrow> int db_op list" where
  "mpu_rows i c = (if mpu_delivers i c then map (mpu_row (in_mpu_time i)) (snd (in_mpu i)) else [])"

definition mpu_result :: "round_in \<Rightarrow> collector \<Rightarrow> collector \<Rightarrow> bool" where
  "mpu_result i c c' \<longleftrightarrow> control_ok c' \<and> bufs_ok c' \<and> mpu_frame c c' \<and> inserts c' = inserts c @ mpu_rows i c
    \<and> mpu_fail_streak c' = (if mpu_fails i c then mpu_fail_streak c + 1 else if mpu_delivers i c then 0 else mpu_fail_streak c)
    \<and> (fsm_state (g_fsm c') = STATE_RECOVERING \<longleftrightarrow> fsm_state (g_fsm c) = STATE_RECOVERING)
    \<and> (mpu_delivers i c \<longrightarrow> latest_ax c' = latest_of 0 (snd (in_mpu i)) (latest_ax c)
        \<and> latest_ay c' = latest_of 1 (snd (in_mpu i)) (latest_ay c))"

lemmas mpu_outcome_simps = mpu_result_def mpu_fails_def mpu_rows_def mpu_delivers_def

lemma state_of_streak_not [simp]: "state_of_streak k \<noteq> STATE_RECOVERING"
  by (simp add: state_of_streak_def)

lemma mpu_phase_ok:
  assumes "control_ok c" and "bufs_ok c" and "read_ok 6 6 (in_mpu i)"
  shows "\<exists>c'. mpu_phase i c = Some c' \<and> mpu_result i c c'"
proof -
  obtain n out where n: "in_mpu i = (n, out)"
    by fastforce
  define c0 where "c0 = (if mpu_open c then c else c\<lparr>mpu_open := probe_mpu 0 (in_reopen i)\<rparr>)"
  let ?b = "c0\<lparr>mpu_buf := stored_in out (mpu_buf c0)\<rparr>"
  have c: "control_ok c0" "bufs_ok c0" "mpu_frame c c0" "mpu_open c0 = mpu_opened i c" "inserts c0 = inserts c"
    "mpu_fail_streak c0 = mpu_fail_streak c" "mpu_no_data_streak c0 = mpu_no_data_streak c" "g_fsm c0 = g_fsm c"
    "latest_ax c0 = latest_ax c" "latest_ay c0 = latest_ay c"
    using assms(1,2) by (auto simp: c0_def ok_simps mpu_frame_def mpu_opened_def)
  have b: "control_ok ?b" "bufs_ok ?b" "mpu_frame c ?b"
    using c(1-3) by (auto simp: ok_simps mpu_frame_def stored_in_def)
  consider (closed) "\<not> mpu_opened i c" | (fail) "mpu_opened i c" "n < 0" | (data) "mpu_opened i c" "0 < n"
    | (idle) "mpu_opened i c" "n = 0" by linarith
  then show ?thesis
  proof cases
    case closed
    let ?d = "count_mpu_fail (c0\<lparr>mpu_fail_streak := mpu_fail_streak c0 + 1\<rparr>)"
    have d: "fsm_ok (g_fsm ?d)" "0 \<le> mpu_fail_streak ?d - 1"
      "fsm_state (g_fsm ?d) \<in> {STATE_RECOVERING, state_of_streak (mpu_fail_streak ?d - 1)}"
      using c(1) by (simp_all add: control_ok_def count_mpu_fail_def)
    obtain ctx where ctx: "report_mpu_fail ?d = Some (?d\<lparr>g_fsm := ctx\<rparr>)" "fsm_ok ctx"
      "fsm_state ctx = (if fsm_state (g_fsm ?d) = STATE_RECOVERING then STATE_RECOVERING else state_of_streak (mpu_fail_streak ?d))"
      by (rule report_mpu_fail_ok [OF d])
    have "mpu_phase i c = report_mpu_fail ?d"
      using closed c(4) by (simp add: mpu_phase_def Let_def flip: c0_def)
    then show ?thesis
      using ctx closed c
      by (auto simp: mpu_outcome_simps mpu_frame_def ok_simps count_mpu_fail_def)
  next
    case fail
    then have "mpu_phase i c = mpu_failed i ?b"
      using c(4) n by (simp add: mpu_phase_def Let_def flip: c0_def)
    then show ?thesis
      using mpu_failed_ok [OF b(1,2), of i] c fail n
      by (auto simp: mpu_outcome_simps mpu_frame_def after_mpu_fail_def)
  next
    case data
    then have "mpu_phase i c = mpu_data i n ?b"
      using c(4) n by (simp add: mpu_phase_def Let_def flip: c0_def)
    then show ?thesis
      using mpu_data_ok [OF c(1,2) n] assms(3) c data n
      by (auto simp: mpu_outcome_simps mpu_frame_def)
  next
    case idle
    let ?d = "?b\<lparr>mpu_no_data_streak := mpu_no_data_streak ?b + 1\<rparr>"
    have d: "control_ok ?d" "bufs_ok ?d" "mpu_frame c ?d" "g_fsm ?d = g_fsm c"
      using b c(8) by (simp_all add: ok_simps mpu_frame_def)
    have "mpu_phase i c = (if 9 \<le> mpu_no_data_streak c then mpu_failed i ?d else Some ?d)"
      using idle c(4,7) n by (simp add: mpu_phase_def mpu_no_data_def Let_def flip: c0_def)
    then show ?thesis
      using mpu_failed_ok [OF d(1,2), of i] d c idle n
      by (auto simp: mpu_outcome_simps mpu_frame_def after_mpu_fail_def)
  qed
qed

text \<open>The outcome of a round for the humidity sensor.\<close>

definition sht_fails :: "round_in \<Rightarrow> collector \<Rightarrow> bool" where
  "sht_fails i c \<longleftrightarrow> sht_open c \<and> fst (in_sht i) < 0"

definition sht_delivers :: "round_in \<Rightarrow> collector \<Rightarrow> bool" where
  "sht_delivers i c \<longleftrightarrow> sht_open c \<and> 0 < fst (in_sht i)"

definition sht_row :: "int \<Rightarrow> sensor_data \<Rightarrow> int db_op" where
  "sht_row ts x = Insert ts ''sht30'' (sht_channel_name x) (sint (sd_value x))"

definition sht_rows :: "round_in \<Rightarrow> collector \<Rightarrow> int db_op list" where
  "sht_rows i c = (if sht_delivers i c then map (sht_row (in_sht_time i)) (snd (in_sht i)) else [])"

definition gives_up :: "round_in \<Rightarrow> collector \<Rightarrow> bool" where
  "gives_up i c \<longleftrightarrow> sht_fails i c \<and> 3 \<le> mpu_fail_streak c \<and> 2 \<le> sht_fail_streak c"

lemmas sht_outcome_simps = sht_rows_def sht_fails_def sht_delivers_def gives_up_def

definition sht_result :: "round_in \<Rightarrow> collector \<Rightarrow> collector \<Rightarrow> bool" where
  "sht_result i c c' \<longleftrightarrow> control_ok c' \<and> bufs_ok c' \<and> inserts c' = inserts c @ sht_rows i c
    \<and> mpu_fail_streak c' = mpu_fail_streak c \<and> sht_open c' = sht_open c
    \<and> g_sensor_heartbeat c' = g_sensor_heartbeat c
    \<and> sht_fail_streak c' = (if sht_fails i c then sht_fail_streak c + 1 else if sht_delivers i c then 0 else sht_fail_streak c)
    \<and> (fsm_state (g_fsm c') = STATE_RECOVERING \<longleftrightarrow> fsm_state (g_fsm c) = STATE_RECOVERING \<or> gives_up i c)
    \<and> (\<forall>x y. sht_delivers i c \<longrightarrow> snd (in_sht i) = [x, y] \<longrightarrow>
        temp_raw (g_fsm c') = sd_value x \<and> hum_raw (g_fsm c') = sd_value y
        \<and> c_regs c' = \<lparr>temperature = word_of_int (sint (sd_value x) sdiv 10),
            humidity = word_of_int (sint (sd_value y) sdiv 10),
            accel_x = ucast (latest_ax c), accel_y = ucast (latest_ay c)\<rparr>)"

lemma sht_failed_ok:
  assumes "control_ok c" and "bufs_ok c" and "sht_open c" and "fst (in_sht i) < 0"
  shows "\<exists>c'. sht_failed c = Some c' \<and> sht_result i c c' \<and> c_metrics c' = c_metrics c"
proof -
  let ?c = "c\<lparr>sht_fail_streak := sht_fail_streak c + 1,
              g_fsm := (g_fsm c)\<lparr>i2c_retry_count := i2c_retry_count (g_fsm c) + 1\<rparr>\<rparr>"
  have s: "fsm_ok (g_fsm ?c)" "fsm_state (g_fsm c) \<in> {STATE_RECOVERING, state_of_streak (mpu_fail_streak c)}"
    using assms(1) by (simp_all add: control_ok_def)
  have sets: "sht_fails i c" "\<not> sht_delivers i c" "gives_up i c \<longleftrightarrow> 3 \<le> mpu_fail_streak c \<and> 2 \<le> sht_fail_streak c"
    using assms(3,4) by (auto simp: sht_fails_def sht_delivers_def gives_up_def)
  show ?thesis
  proof (cases "3 \<le> mpu_fail_streak c \<and> 2 \<le> sht_fail_streak c")
    case True
    obtain ctx where "raise_event EVENT_I2C_DEADLOCK ?c = Some (?c\<lparr>g_fsm := ctx\<rparr>)" "fsm_ok ctx"
      "fsm_state ctx = fsm_next (fsm_state (g_fsm ?c)) EVENT_I2C_DEADLOCK"
      by (rule raise_event_ok [OF s(1)])
    then show ?thesis
      using next_deadlock [OF s(2)] True assms(1,2) sets
      by (auto simp: sht_failed_def sht_result_def ok_simps sht_rows_def Let_def)
  next
    case False
    then show ?thesis
      using assms(1,2) sets
      by (auto simp: sht_failed_def sht_result_def ok_simps sht_rows_def Let_def)
  qed
qed

lemma sht_data_ok:
  assumes "control_ok c" and "bufs_ok c" and "sht_open c" and "in_sht i = (n, out)" and "read_ok 2 2 (n, out)"
    and "0 < n"
  shows "\<exists>c'. sht_data i n (c\<lparr>sht_buf := stored_in out (sht_buf c)\<rparr>) = Some c' \<and> sht_result i c c'
    \<and> c_metrics c' = c_metrics c"
proof -
  note out = read_ok_count [OF assms(5) less_imp_le [OF assms(6)]]
  have buf: "take (length out) (stored_in out (sht_buf c)) = out" "length (stored_in out (sht_buf c)) = 2"
    using stored_in_take [of out "sht_buf c"] out(2) assms(2) by (simp_all add: bufs_ok_def)
  have two: "stored_in out (sht_buf c) = [x, y]" if "out = [x, y]" for x y
    using that buf by simp
  show ?thesis
    using assms(1-4,6) buf two
    unfolding sht_data_def Let_def out(1)
    by (auto simp: out(2) sht_result_def ok_simps sht_rows_def sht_row_def sht_fails_def
        sht_delivers_def gives_up_def publish_regs_def mb_data_def update_data_eq)
qed

lemma sht_phase_ok:
  assumes "control_ok c" and "bufs_ok c" and "read_ok 2 2 (in_sht i)"
    and "window_of xs (c_metrics c)" and "length xs \<le> 2147483648"
  shows "\<exists>c' ys. sht_phase i c = Some c' \<and> sht_result i c c' \<and> window_of (xs @ ys) (c_metrics c') \<and> length ys \<le> 1
    \<and> set ys \<subseteq> {latency_us (in_sht_start i) (in_sht_end i)}"
proof (cases "sht_open c")
  case False
  then show ?thesis
    using assms by (auto simp: sht_phase_def sht_result_def sht_outcome_simps
        intro!: exI [of _ "[] :: int list"])
next
  case True
  obtain n out where n: "in_sht i = (n, out)"
    by fastforce
  let ?lat = "latency_us (in_sht_start i) (in_sht_end i)"
  obtain m where m: "record_latency (c_metrics c) ?lat = Some m" "window_of (xs @ [?lat]) m"
    using record_latency_window [OF assms(4,5)] by blast
  define c0 where "c0 = c\<lparr>c_metrics := m\<rparr>"
  let ?b = "c0\<lparr>sht_buf := stored_in out (sht_buf c0)\<rparr>"
  have c0: "control_ok c0" "bufs_ok c0" "sht_open c0" "c_metrics c0 = m"
    and b: "control_ok ?b" "bufs_ok ?b" "sht_open ?b" "c_metrics ?b = m"
    using assms(1,2) True by (simp_all add: c0_def ok_simps stored_in_def)
  have same: "sht_result i c = sht_result i c0" "sht_result i c0 = sht_result i ?b"
    by (simp_all add: fun_eq_iff sht_result_def c0_def sht_outcome_simps)
  have swap_updates: "c\<lparr>sht_buf := s, c_metrics := m\<rparr> = c\<lparr>c_metrics := m, sht_buf := s\<rparr>" for s
    by simp
  have phase: "sht_phase i c = (if n < 0 then sht_failed ?b else if 0 < n then sht_data i n ?b else Some ?b)"
    using True m(1) n by (simp add: sht_phase_def Let_def c0_def) (simp only: swap_updates, simp)
  have "\<exists>c'. sht_phase i c = Some c' \<and> sht_result i c c' \<and> c_metrics c' = m"
  proof -
    consider "n < 0" | "0 < n" | "n = 0" by linarith
    then show ?thesis
    proof cases
      case 1
      then show ?thesis
        using sht_failed_ok [OF b(1-3), of i] n phase b(4) unfolding same by simp
    next
      case 2
      then show ?thesis
        using sht_data_ok [OF c0(1-3) n _ 2] assms(3) n phase c0(4) unfolding same(1) by simp
    next
      case 3
      then show ?thesis
        using n phase b
        by (auto simp: same sht_result_def sht_outcome_simps)
    qed
  qed
  then obtain c' where "sht_phase i c = Some c'" "sht_result i c c'" "c_metrics c' = m"
    by blast
  then show ?thesis
    using m(2) by (intro exI [of _ c'] exI [of _ "[?lat]"]) simp
qed

section \<open>The health of the sensors\<close>

text \<open>
  What the thread keeps of the past, abstractly: the streaks of failures of the two sensors and
  whether the bus has been given up. A round moves it by the outcome of the two sensors alone.
\<close>

datatype outcome = Failed | Delivered | Idle

record health =
  mpu_streak :: int
  sht_streak :: int
  given_up :: bool

fun next_count :: "outcome \<Rightarrow> int \<Rightarrow> int" where
  "next_count Failed k = k + 1"
| "next_count Delivered k = 0"
| "next_count Idle k = k"

definition health_step :: "outcome \<Rightarrow> outcome \<Rightarrow> health \<Rightarrow> health" where
  "health_step m s h =
     (let k = next_count m (mpu_streak h); l = next_count s (sht_streak h) in
      \<lparr>mpu_streak = k, sht_streak = l, given_up = (given_up h \<or> s = Failed \<and> 3 \<le> k \<and> 3 \<le> l)\<rparr>)"

definition health_state :: "health \<Rightarrow> system_state" where
  "health_state h = (if given_up h then STATE_RECOVERING else state_of_streak (mpu_streak h))"

definition mpu_outcome :: "round_in \<Rightarrow> collector \<Rightarrow> outcome" where
  "mpu_outcome i c = (if mpu_fails i c then Failed else if mpu_delivers i c then Delivered else Idle)"

definition sht_outcome :: "round_in \<Rightarrow> collector \<Rightarrow> outcome" where
  "sht_outcome i c = (if sht_fails i c then Failed else if sht_delivers i c then Delivered else Idle)"

definition health_of :: "collector \<Rightarrow> health" where
  "health_of c = \<lparr>mpu_streak = mpu_fail_streak c, sht_streak = sht_fail_streak c,
     given_up = (fsm_state (g_fsm c) = STATE_RECOVERING)\<rparr>"

lemma health_of_state: "control_ok c \<Longrightarrow> fsm_state (g_fsm c) = health_state (health_of c)"
  by (auto simp: control_ok_def health_state_def health_of_def)

lemma mpu_fails_not_delivers: "mpu_fails i c \<Longrightarrow> \<not> mpu_delivers i c"
  by (auto simp: mpu_fails_def mpu_delivers_def)

lemma sht_fails_not_delivers: "sht_fails i c \<Longrightarrow> \<not> sht_delivers i c"
  by (auto simp: sht_fails_def sht_delivers_def)

text \<open>
  The invariant of the loop: the state machine follows the streaks, the buffers keep their size, and
  the latency window has recorded \<open>n\<close> reads so far.
\<close>

definition collector_ok :: "nat \<Rightarrow> collector \<Rightarrow> bool" where
  "collector_ok n c \<longleftrightarrow> control_ok c \<and> bufs_ok c \<and> (\<exists>xs. length xs \<le> n \<and> window_of xs (c_metrics c))"

text \<open>The answers the two drivers can give, in any of their states.\<close>

definition possible :: "round_in \<Rightarrow> bool" where
  "possible i \<longleftrightarrow> read_ok 6 6 (in_mpu i) \<and> read_ok 2 2 (in_sht i)"

lemma beat_simps [simp]:
  "control_ok (beat c) = control_ok c" "bufs_ok (beat c) = bufs_ok c" "c_metrics (beat c) = c_metrics c"
  "health_of (beat c) = health_of c" "mpu_outcome i (beat c) = mpu_outcome i c" "sht_outcome i (beat c) = sht_outcome i c"
  "inserts (beat c) = inserts c" "mpu_rows i (beat c) = mpu_rows i c" "sht_rows i (beat c) = sht_rows i c"
  "g_sensor_heartbeat (beat c) = g_sensor_heartbeat c + 1" "g_fsm (beat c) = g_fsm c" "c_regs (beat c) = c_regs c"
  "latest_ax (beat c) = latest_ax c" "latest_ay (beat c) = latest_ay c" "sht_open (beat c) = sht_open c"
  "mpu_delivers i (beat c) = mpu_delivers i c" "sht_delivers i (beat c) = sht_delivers i c"
  by (simp_all add: beat_def ok_simps health_of_def mpu_outcome_def sht_outcome_def mpu_rows_def
      sht_rows_def mpu_fails_def sht_fails_def mpu_delivers_def sht_delivers_def mpu_opened_def)

lemma publish_state_simps [simp]:
  "control_ok (publish_state c) = control_ok c" "bufs_ok (publish_state c) = bufs_ok c"
  "health_of (publish_state c) = health_of c" "inserts (publish_state c) = inserts c"
  "window_of xs (c_metrics (publish_state c)) = window_of xs (c_metrics c)" "g_fsm (publish_state c) = g_fsm c"
  "g_sensor_heartbeat (publish_state c) = g_sensor_heartbeat c" "c_regs (publish_state c) = c_regs c"
  "g_system_state (c_metrics (publish_state c)) = fsm_get_state (g_fsm c)"
  by (simp_all add: publish_state_def ok_simps health_of_def window_of_def)

lemma mpu_result_health:
  assumes "mpu_result i c c'"
  shows "health_of c' = health_step (mpu_outcome i c) Idle (health_of c)" "sht_outcome i c' = sht_outcome i c"
    "sht_rows i c' = sht_rows i c" "sht_delivers i c' = sht_delivers i c"
  using assms mpu_fails_not_delivers
  by (auto simp: mpu_result_def mpu_frame_def health_of_def health_step_def Let_def mpu_outcome_def sht_outcome_def
      sht_rows_def sht_fails_def sht_delivers_def)

lemma sht_result_health:
  assumes "sht_result i c c'"
  shows "health_of c' = health_step Idle (sht_outcome i c) (health_of c)"
  using assms sht_fails_not_delivers
  by (auto simp: sht_result_def health_of_def health_step_def Let_def sht_outcome_def gives_up_def)

lemma health_step_compose: "health_step Idle s (health_step m Idle h) = health_step m s h"
  by (simp add: health_step_def Let_def)

lemma collector_round_phases:
  assumes "collector_ok n c" and "possible i" and "n \<le> 2147483648"
  obtains c1 c2 where "collector_round i c = Some (beat (publish_state c2))" "mpu_result i (beat c) c1"
    "sht_result i c1 c2" "collector_ok (Suc n) (beat (publish_state c2))"
proof -
  obtain xs where xs: "length xs \<le> n" "window_of xs (c_metrics c)"
    using assms(1) by (auto simp: collector_ok_def)
  obtain c1 where c1: "mpu_phase i (beat c) = Some c1" "mpu_result i (beat c) c1"
    using mpu_phase_ok [of "beat c" i] assms(1,2) by (auto simp: collector_ok_def possible_def)
  have c1_ok: "control_ok c1" "bufs_ok c1" "window_of xs (c_metrics c1)"
    using c1(2) xs(2) by (auto simp: mpu_result_def mpu_frame_def)
  obtain c2 ys where c2: "sht_phase i c1 = Some c2" "sht_result i c1 c2" "window_of (xs @ ys) (c_metrics c2)"
    "length ys \<le> 1"
    using sht_phase_ok [OF c1_ok(1,2) _ c1_ok(3), of i] assms(2,3) xs(1) by (auto simp: possible_def)
  have "collector_ok (Suc n) (beat (publish_state c2))"
    using c2 xs(1) by (auto simp: collector_ok_def sht_result_def intro!: exI [of _ "xs @ ys"])
  moreover have "collector_round i c = Some (beat (publish_state c2))"
    using c1(1) c2(1) by (simp add: collector_round_def publish_state_def)
  ultimately show ?thesis
    using that c1(2) c2(2) by blast
qed

lemma collector_round_health:
  assumes "collector_ok n c" and "possible i" and "n \<le> 2147483648"
  obtains c' where "collector_round i c = Some c'" "collector_ok (Suc n) c'"
    "health_of c' = health_step (mpu_outcome i c) (sht_outcome i c) (health_of c)"
    "inserts c' = inserts c @ mpu_rows i c @ sht_rows i c" "sht_open c' = sht_open c"
    "g_system_state (c_metrics c') = state_code (health_state (health_of c'))"
    "g_sensor_heartbeat c' = g_sensor_heartbeat c + 2"
proof -
  obtain c1 c2 where r: "collector_round i c = Some (beat (publish_state c2))" "mpu_result i (beat c) c1"
    "sht_result i c1 c2" "collector_ok (Suc n) (beat (publish_state c2))"
    by (rule collector_round_phases [OF assms])
  let ?c = "beat (publish_state c2)"
  have h: "health_of ?c = health_step (mpu_outcome i c) (sht_outcome i c) (health_of c)"
    using mpu_result_health(1,2) [OF r(2)] sht_result_health [OF r(3)] by (simp add: health_step_compose)
  have rows: "inserts ?c = inserts c @ mpu_rows i c @ sht_rows i c"
    using r(2,3) mpu_result_health(3) [OF r(2)] by (simp add: mpu_result_def sht_result_def)
  have state: "g_system_state (c_metrics ?c) = state_code (health_state (health_of ?c))"
    using health_of_state [of ?c] r(4) by (simp add: collector_ok_def fsm_get_state_eq)
  have beats: "g_sensor_heartbeat ?c = g_sensor_heartbeat c + 2"
    using r(2,3) by (simp add: mpu_result_def mpu_frame_def sht_result_def)
  have open_: "sht_open ?c = sht_open c"
    using r(2,3) by (simp add: mpu_result_def mpu_frame_def sht_result_def publish_state_def)
  show ?thesis
    by (rule that [OF r(1,4) h rows open_ state beats])
qed

text \<open>A round in which both sensors deliver.\<close>

lemma collector_round_delivers:
  assumes "collector_ok n c" and "possible i" and "n \<le> 2147483648" and "mpu_opened i c" and "in_mpu i = (k, out)"
    and "0 < k" and "sht_open c" and "in_sht i = (32, [x, y])"
  shows "\<exists>c'. collector_round i c = Some c'
    \<and> inserts c' = inserts c
        @ map (\<lambda>s. Insert (in_mpu_time i) ''mpu6050'' (axis_name ! unat (channel s)) (sint (sd_value s))) out
        @ [Insert (in_sht_time i) ''sht30'' (sht_channel_name x) (sint (sd_value x)),
           Insert (in_sht_time i) ''sht30'' (sht_channel_name y) (sint (sd_value y))]
    \<and> temp_raw (g_fsm c') = sd_value x \<and> hum_raw (g_fsm c') = sd_value y
    \<and> c_regs c' = \<lparr>temperature = word_of_int (sint (sd_value x) sdiv 10),
         humidity = word_of_int (sint (sd_value y) sdiv 10),
         accel_x = ucast (latest_of 0 out (latest_ax c)), accel_y = ucast (latest_of 1 out (latest_ay c))\<rparr>"
proof -
  obtain c1 c2 where r: "collector_round i c = Some (beat (publish_state c2))" "mpu_result i (beat c) c1" "sht_result i c1 c2"
    by (rule collector_round_phases [OF assms(1-3)])
  have out: "mpu_delivers i c" "sht_delivers i c1" "sht_delivers i c"
    using assms(4-8) mpu_result_health(4) [OF r(2)] by (auto simp: mpu_delivers_def sht_delivers_def)
  have latest: "latest_ax c1 = latest_of 0 out (latest_ax c)" "latest_ay c1 = latest_of 1 out (latest_ay c)"
    using r(2) out(1) assms(5) by (simp_all add: mpu_result_def)
  have "inserts c2 = inserts c @ mpu_rows i c @ sht_rows i c"
    using r(2,3) mpu_result_health(3) [OF r(2)] by (simp add: mpu_result_def sht_result_def)
  moreover have "mpu_rows i c = map (mpu_row (in_mpu_time i)) out"
    "sht_rows i c = [sht_row (in_sht_time i) x, sht_row (in_sht_time i) y]"
    using out(1,3) assms(5,8) by (simp_all add: mpu_rows_def sht_rows_def)
  moreover have "temp_raw (g_fsm c2) = sd_value x" "hum_raw (g_fsm c2) = sd_value y"
    "c_regs c2 = \<lparr>temperature = word_of_int (sint (sd_value x) sdiv 10),
         humidity = word_of_int (sint (sd_value y) sdiv 10), accel_x = ucast (latest_ax c1), accel_y = ucast (latest_ay c1)\<rparr>"
    using r(3) out(2) assms(8) by (simp_all add: sht_result_def)
  ultimately show ?thesis
    using r(1) latest by (simp add: mpu_row_def [abs_def] sht_row_def)
qed

section \<open>Runs of rounds\<close>

lemma collector_loop_append:
  "collector_loop (is @ js) c = (case collector_loop is c of None \<Rightarrow> None | Some c' \<Rightarrow> collector_loop js c')"
  by (induction "is" arbitrary: c) (simp_all split: option.splits)

lemma collector_loop_ok:
  assumes "collector_ok n c" and "\<forall>i\<in>set is. possible i" and "n + length is \<le> 2147483648"
  shows "\<exists>c'. collector_loop is c = Some c' \<and> collector_ok (n + length is) c'
    \<and> g_sensor_heartbeat c' = g_sensor_heartbeat c + 2 * of_nat (length is)
    \<and> (is \<noteq> [] \<longrightarrow> g_system_state (c_metrics c') = state_code (health_state (health_of c')))"
  using assms
proof (induction "is" arbitrary: n c)
  case (Cons i "is")
  have i: "possible i" "n \<le> 2147483648"
    using Cons.prems(2,3) by simp_all
  obtain c1 where c1: "collector_round i c = Some c1" "collector_ok (Suc n) c1"
    "g_system_state (c_metrics c1) = state_code (health_state (health_of c1))"
    "g_sensor_heartbeat c1 = g_sensor_heartbeat c + 2"
    using collector_round_health [OF Cons.prems(1) i] by metis
  obtain c' where "collector_loop is c1 = Some c'" "collector_ok (Suc n + length is) c'"
    "g_sensor_heartbeat c' = g_sensor_heartbeat c1 + 2 * of_nat (length is)"
    "is \<noteq> [] \<longrightarrow> g_system_state (c_metrics c') = state_code (health_state (health_of c'))"
    using Cons.IH [OF c1(2)] Cons.prems(2,3) by auto
  then show ?case
    using c1 by (cases "is") (simp_all add: algebra_simps)
qed simp

text \<open>The thread meets the contract of the monitor: two beats a round.\<close>

interpretation collector_beats: heartbeat_source collector_loop g_sensor_heartbeat collector_ok possible 2147483648
proof
  fix n c and "is" :: "round_in list"
  assume "collector_ok n c" "is \<noteq> []" "\<forall>i\<in>set is. possible i" "n + length is \<le> 2147483648"
  then show "\<exists>c' k. collector_loop is c = Some c' \<and> collector_ok (n + length is) c'
    \<and> g_sensor_heartbeat c' = g_sensor_heartbeat c + of_nat k \<and> 0 < k \<and> k < 2 ^ 64"
    using collector_loop_ok [of n c "is"] by (auto intro!: exI [of _ "2 * length is"])
qed

text \<open>A predicate on the health that every round of the run keeps holds at its end.\<close>

lemma collector_loop_run:
  assumes "collector_ok n c" and "\<forall>i\<in>set is. possible i" and "n + length is \<le> 2147483648" and "P 0 (health_of c) (sht_open c)"
    and "\<And>k i c. i \<in> set is \<Longrightarrow> P k (health_of c) (sht_open c) \<Longrightarrow>
      P (Suc k) (health_step (mpu_outcome i c) (sht_outcome i c) (health_of c)) (sht_open c)"
  shows "\<exists>c'. collector_loop is c = Some c' \<and> collector_ok (n + length is) c' \<and> P (length is) (health_of c') (sht_open c')
    \<and> (is \<noteq> [] \<longrightarrow> g_system_state (c_metrics c') = state_code (health_state (health_of c')))"
  using assms
proof (induction "is" arbitrary: n c P)
  case (Cons i "is")
  have i: "possible i" "n \<le> 2147483648"
    using Cons.prems(2,3) by simp_all
  obtain c1 where c1: "collector_round i c = Some c1" "collector_ok (Suc n) c1"
    "health_of c1 = health_step (mpu_outcome i c) (sht_outcome i c) (health_of c)" "sht_open c1 = sht_open c"
    "g_system_state (c_metrics c1) = state_code (health_state (health_of c1))"
    using collector_round_health [OF Cons.prems(1) i] by metis
  have "P (Suc 0) (health_of c1) (sht_open c1)"
    using Cons.prems(4,5) c1(3,4) by simp
  then obtain c' where "collector_loop is c1 = Some c'" "collector_ok (Suc n + length is) c'"
    "P (Suc (length is)) (health_of c') (sht_open c')"
    "is \<noteq> [] \<longrightarrow> g_system_state (c_metrics c') = state_code (health_state (health_of c'))"
    using Cons.IH [OF c1(2), of "\<lambda>k. P (Suc k)"] Cons.prems(2,3,5) by auto
  then show ?case
    using c1 by (cases "is") (simp_all add: algebra_simps)
qed simp

text \<open>A read that fails is a failure whether the handle was open or not.\<close>

lemma mpu_read_fails: "fst (in_mpu i) < 0 \<Longrightarrow> mpu_outcome i c = Failed"
  by (simp add: mpu_outcome_def mpu_fails_def)

lemma sht_read_fails: "fst (in_sht i) < 0 \<Longrightarrow> sht_open c \<Longrightarrow> sht_outcome i c = Failed"
  by (simp add: sht_outcome_def sht_fails_def)

lemma sht_read_works: "0 \<le> fst (in_sht i) \<Longrightarrow> sht_outcome i c \<noteq> Failed"
  by (simp add: sht_outcome_def sht_fails_def)

lemma given_up_step: "given_up h \<Longrightarrow> given_up (health_step m s h)"
  by (simp add: health_step_def Let_def)

section \<open>The thread from its start\<close>

lemma warm_up_window:
  "window_of xs m \<Longrightarrow> length xs + (50 - w) \<le> 2147483648 \<Longrightarrow>
    \<exists>b m' ys. warm_up w reads m = Some (b, m') \<and> window_of (xs @ ys) m' \<and> length ys \<le> 50 - w
      \<and> set ys \<subseteq> set (map snd reads)"
proof (induction w reads m arbitrary: xs rule: warm_up.induct)
  case (1 w m)
  then show ?case by (auto intro: exI [of _ "[] :: int list"])
next
  case (2 w n l reads m)
  show ?case
  proof (cases "50 \<le> w")
    case True
    then show ?thesis using 2 by (auto intro: exI [of _ "[] :: int list"])
  next
    case False
    obtain m1 where m1: "record_latency m l = Some m1" "window_of (xs @ [l]) m1"
      using record_latency_window [OF 2(2)] 2(3) by fastforce
    show ?thesis
    proof (cases "0 < n")
      case True
      then show ?thesis using False m1 by (auto intro!: exI [of _ "[l]"])
    next
      case no: False
      have "length (xs @ [l]) + (50 - (w + 1)) \<le> 2147483648"
        using 2(3) False by simp
      then obtain b m' ys where "warm_up (w + 1) reads m1 = Some (b, m')" "window_of ((xs @ [l]) @ ys) m'"
        "length ys \<le> 50 - (w + 1)" "set ys \<subseteq> set (map snd reads)"
        using 2(1) [OF False m1(1) no m1(2)] by blast
      then show ?thesis
        using False no m1 by (auto intro!: exI [of _ "l # ys"])
    qed
  qed
qed

text \<open>The latencies the warm-up may record.\<close>

definition warm_latencies :: "(bool \<times> bool \<times> (int \<times> int) list) list \<Rightarrow> int list" where
  "warm_latencies files = concat (map (\<lambda>f. map snd (snd (snd f))) files)"

lemma warm_latencies_Cons [simp]:
  "set (warm_latencies ((e, opens, reads) # files)) = set (map snd reads) \<union> set (warm_latencies files)"
  by (simp add: warm_latencies_def)

lemma open_mpu_window:
  "window_of xs m \<Longrightarrow> length xs + 50 * (4 - i) \<le> 2147483648 \<Longrightarrow>
    \<exists>b m' ys. open_mpu i files m = Some (b, m') \<and> window_of (xs @ ys) m' \<and> length ys \<le> 50 * (4 - i)
      \<and> set ys \<subseteq> set (warm_latencies files)"
proof (induction i files m arbitrary: xs rule: open_mpu.induct)
  case (1 i m)
  then show ?case by (auto intro: exI [of _ "[] :: int list"])
next
  case (2 i exists opens reads files m)
  show ?case
  proof (cases "3 < i")
    case True
    then show ?thesis using 2 by (auto intro: exI [of _ "[] :: int list"])
  next
    case small: False
    then have room: "50 * (4 - i) = 50 + 50 * (4 - (i + 1))" by simp
    show ?thesis
    proof (cases "exists \<and> opens")
      case False
      then obtain b m' ys where "open_mpu (i + 1) files m = Some (b, m')" "window_of (xs @ ys) m'"
        "length ys \<le> 50 * (4 - (i + 1))" "set ys \<subseteq> set (warm_latencies files)"
        using 2(2) [OF small False 2(3)] 2(4) room by auto
      then show ?thesis
        using small False room by (auto intro!: exI [of _ ys])
    next
      case True
      obtain b m1 ys where w: "warm_up 0 reads m = Some (b, m1)" "window_of (xs @ ys) m1" "length ys \<le> 50"
        "set ys \<subseteq> set (map snd reads)"
        using warm_up_window [OF 2(3), of 0 reads] 2(4) room by auto
      show ?thesis
      proof (cases b)
        case b: True
        then show ?thesis
          using w small True room by (auto intro!: exI [of _ ys])
      next
        case b: False
        then have warm: "warm_up 0 reads m = Some (False, m1)" using w(1) by simp
        obtain b m' zs where "open_mpu (i + 1) files m1 = Some (b, m')" "window_of ((xs @ ys) @ zs) m'"
          "length zs \<le> 50 * (4 - (i + 1))" "set zs \<subseteq> set (warm_latencies files)"
          using 2(1) [OF small True warm refl _ w(2)] w(3) 2(4) room by auto
        then show ?thesis
          using small True warm w(3,4) room by (auto intro!: exI [of _ "ys @ zs"])
      qed
    qed
  qed
qed

definition fresh :: health where
  "fresh = \<lparr>mpu_streak = 0, sht_streak = 0, given_up = False\<rparr>"

lemma collector_start_ok:
  assumes "fsm_ok ctx" and "fsm_state ctx = STATE_RUNNING" and "window_of [] m" and "length buf6 = 6" and "length buf2 = 2"
  shows "\<exists>c. collector_start files r buf6 buf2 ctx m regs = Some c \<and> collector_ok 200 c \<and> health_of c = fresh
    \<and> (sht_open c \<longleftrightarrow> 0 \<le> r) \<and> g_sensor_heartbeat c = 0 \<and> inserts c = [] \<and> g_fsm c = ctx \<and> c_regs c = regs
    \<and> latest_ax c = 0 \<and> latest_ay c = 0
    \<and> (\<exists>xs. length xs \<le> 200 \<and> window_of xs (c_metrics c) \<and> set xs \<subseteq> set (warm_latencies files))"
proof -
  obtain b m' ys where "open_mpu 0 files m = Some (b, m')" "window_of ([] @ ys) m'" "length ys \<le> 200"
    "set ys \<subseteq> set (warm_latencies files)"
    using open_mpu_window [OF assms(3), of 0 files] by auto
  then show ?thesis
    using assms
    by (auto simp: collector_start_def collector_ok_def ok_simps health_of_def fresh_def
        state_of_streak_def)
qed

text \<open>A round whose two reads are answers of the drivers, each in a state its invariant allows.\<close>

definition driver_round :: "round_in \<Rightarrow> bool" where
  "driver_round i \<longleftrightarrow>
     (\<exists>s s'. hal_ok (snd s) \<and> mpu_read (6 * sizeof_sensor_data) s = Some (fst (in_mpu i), snd (in_mpu i), s'))
     \<and> (\<exists>t t'. sht_read (2 * sizeof_sensor_data) t = Some (fst (in_sht i), snd (in_sht i), t'))"

lemma driver_round_possible: "driver_round i \<Longrightarrow> possible i"
  using mpu.read_result_ok sht.read_result_ok unfolding driver_round_def possible_def
  by (metis prod.collapse)

section \<open>Properties\<close>

text \<open>
  C6. The collector thread never leaves its defined behaviour: from its start, whatever device
  files there are and whatever the two drivers answer in a run of rounds (fewer than \<open>2^31\<close>
  recordings of latencies), no axis name, buffer or window is overrun and no transition is
  corrupted, every round beats the heart twice, and the published state is that of the state
  machine, which follows the failures: \<open>DEGRADED\<close> exactly at a streak of three or more.
\<close>

theorem collector_never_stuck:
  assumes "fsm_ok ctx" and "fsm_state ctx = STATE_RUNNING" and "length buf6 = 6" and "length buf2 = 2"
    and "\<forall>i\<in>set rounds. driver_round i" and "200 + length rounds \<le> 2147483648"
  shows "\<exists>c c'. collector_start files r buf6 buf2 ctx metrics_start regs = Some c \<and> collector_loop rounds c = Some c'
    \<and> g_sensor_heartbeat c' = 2 * of_nat (length rounds)
    \<and> (rounds \<noteq> [] \<longrightarrow> g_system_state (c_metrics c') = current (g_fsm c'))
    \<and> fsm_state (g_fsm c') \<in> {STATE_RECOVERING, if 3 \<le> mpu_fail_streak c' then STATE_DEGRADED else STATE_RUNNING}"
proof -
  obtain c where c: "collector_start files r buf6 buf2 ctx metrics_start regs = Some c" "collector_ok 200 c"
    "g_sensor_heartbeat c = 0"
    using collector_start_ok [OF assms(1,2) window_of_start assms(3,4), of files r regs] by auto
  obtain c' where c': "collector_loop rounds c = Some c'" "collector_ok (200 + length rounds) c'"
    "g_sensor_heartbeat c' = g_sensor_heartbeat c + 2 * of_nat (length rounds)"
    "rounds \<noteq> [] \<longrightarrow> g_system_state (c_metrics c') = state_code (health_state (health_of c'))"
    using collector_loop_ok [OF c(2) _ assms(6)] assms(5) driver_round_possible by auto
  have "current (g_fsm c') = state_code (health_state (health_of c'))"
    using c'(2) health_of_state [of c'] fsm_ok_current [of "g_fsm c'"] by (simp add: collector_ok_def control_ok_def)
  then show ?thesis
    using c c' by (simp add: collector_ok_def control_ok_def state_of_streak_def)
qed

text \<open>Concrete rounds: no device file, or the reads answer what is given.\<close>

definition round_of :: "(bool \<times> bool) list \<Rightarrow> int \<times> sensor_data list \<Rightarrow> int \<times> sensor_data list \<Rightarrow> round_in" where
  "round_of files m s = \<lparr>in_reopen = files, in_retry = files, in_mpu = m, in_mpu_time = 1000, in_sht = s,
     in_sht_time = 1001, in_sht_start = \<lparr>tv_sec = 5, tv_nsec = 999999000\<rparr>, in_sht_end = \<lparr>tv_sec = 6, tv_nsec = 1000\<rparr>\<rparr>"

definition running_fsm :: fsm_context where
  "running_fsm = zero_fsm_context\<lparr>current := state_code STATE_RUNNING\<rparr>"

lemma running_fsm_ok: "fsm_ok running_fsm" "fsm_state running_fsm = STATE_RUNNING"
  by (simp_all add: running_fsm_def fsm_ok_def fsm_state_def del: state_code.simps)

definition both_fail :: round_in where
  "both_fail = round_of [] (- ENODEV, []) (- EIO, [])"

lemma both_fail_driver: "driver_round both_fail"
proof -
  have "mpu_read (6 * sizeof_sensor_data) ([(- ENODEV, snd again)], hal_start) = Some (- ENODEV, [], ([], hal_start))"
    by (simp add: mpu_read_def mpu6050_hal_read_def drain.simps errno_defs)
  moreover have "sht_read (2 * sizeof_sensor_data)
      ([\<lparr>tv_sec = 5, tv_nsec = 6\<rparr>], [(0, []), (0, []), (0, [])], [], metrics_start)
      = Some (- EIO, [], ([], [], [], metrics_start\<lparr>g_i2c_retry_total := 3\<rparr>))"
    by (simp add: sht_read_def sht30_hal_read_def read_sysfs_int.simps metrics_start_def errno_defs)
  moreover have "hal_ok (snd ([(- ENODEV, snd again)], hal_start))"
    by simp
  ultimately show ?thesis
    unfolding driver_round_def both_fail_def round_of_def by (metis fst_conv round_in.select_convs(3,5) snd_conv)
qed

theorem collector_never_stuck_witness:
  "\<exists>c c'. collector_start [] (-2) (replicate 6 zero_sensor_data) (replicate 2 zero_sensor_data) running_fsm metrics_start zero_regs
      = Some c \<and> collector_loop [both_fail, both_fail] c = Some c' \<and> g_sensor_heartbeat c' = 4"
  using collector_never_stuck [of running_fsm "replicate 6 zero_sensor_data" "replicate 2 zero_sensor_data"
      "[both_fail, both_fail]" "[]" "-2" zero_regs] running_fsm_ok both_fail_driver
  by auto

definition started :: collector where
  "started = \<lparr>mpu_open = True, sht_open = True, mpu_buf = replicate 6 zero_sensor_data,
     sht_buf = replicate 2 zero_sensor_data, mpu_fail_streak = 0, mpu_no_data_streak = 0, sht_fail_streak = 0,
     latest_ax = 0, latest_ay = 0, g_sensor_heartbeat = 0, g_fsm = running_fsm, c_metrics = metrics_start,
     c_regs = zero_regs, inserts = []\<rparr>"

lemma started_ok: "collector_ok 0 started" "health_of started = fresh" "sht_open started" "mpu_open started"
  using running_fsm_ok window_of_start
  by (auto simp: started_def collector_ok_def ok_simps health_of_def fresh_def state_of_streak_def)

text \<open>A sample of a channel, and the frames of the two sensors.\<close>

definition sample :: "u8 \<Rightarrow> u8 \<Rightarrow> i32 \<Rightarrow> sensor_data" where
  "sample kind ch v = \<lparr>timestamp_ns = 7, sensor_type = kind, channel = ch, sd_value = v\<rparr>"

definition sht_frame :: "int \<times> sensor_data list" where
  "sht_frame = (32, [sample SENSOR_SHT30 0 21500, sample SENSOR_SHT30 1 45000])"

definition mpu_frame2 :: "int \<times> sensor_data list" where
  "mpu_frame2 = (32, [sample SENSOR_MPU6050 0 (-5), sample SENSOR_MPU6050 1 12])"

lemma sample_simps [simp]: "channel (sample k ch v) = ch" "sd_value (sample k ch v) = v"
  by (simp_all add: sample_def)

lemma round_of_simps [simp]:
  "possible (round_of files m s) \<longleftrightarrow> read_ok 6 6 m \<and> read_ok 2 2 s"
  "in_mpu (round_of files m s) = m" "in_sht (round_of files m s) = s"
  "in_mpu_time (round_of files m s) = 1000" "in_sht_time (round_of files m s) = 1001"
  by (simp_all add: round_of_def possible_def)

lemma frames_ok [simp]:
  "read_ok 6 6 mpu_frame2" "read_ok 2 2 sht_frame" "e < 0 \<Longrightarrow> read_ok l k (e, [])" "read_ok l k (0, [])"
  "fst mpu_frame2 = 32" "fst sht_frame = 32"
  by (auto simp: read_ok_def mpu_frame2_def sht_frame_def)

text \<open>
  C7. One round of the thread implements the abstract controller: the streaks and the verdict on
  the bus move by the outcome of the two sensors alone, a delivery resets its streak and takes a
  degraded machine back to \<open>RUNNING\<close>, and the bus is given up for good by the first failure of
  the humidity sensor that makes both streaks three or more.
\<close>

theorem round_refines_health:
  assumes "collector_ok n c" and "possible i" and "n \<le> 2147483648"
  shows "\<exists>c'. collector_round i c = Some c' \<and> collector_ok (Suc n) c'
    \<and> health_of c' = health_step (mpu_outcome i c) (sht_outcome i c) (health_of c)
    \<and> g_system_state (c_metrics c') = state_code (health_state (health_of c'))"
  using collector_round_health [OF assms] by metis

theorem round_refines_health_witness:
  "\<exists>c'. collector_round (round_of [] (- ENODEV, []) sht_frame) started = Some c'
    \<and> health_of c' = \<lparr>mpu_streak = 1, sht_streak = 0, given_up = False\<rparr>"
proof -
  have "mpu_outcome (round_of [] (- ENODEV, []) sht_frame) started = Failed"
    "sht_outcome (round_of [] (- ENODEV, []) sht_frame) started = Delivered"
    using started_ok(3) by (simp_all add: mpu_read_fails errno_defs sht_outcome_def sht_fails_def sht_delivers_def)
  then show ?thesis
    using round_refines_health [of 0 started "round_of [] (- ENODEV, []) sht_frame"] started_ok
    by (auto simp: health_step_def fresh_def errno_defs)
qed

text \<open>
  From a healthy start, rounds in which every read of the motion sensor fails while the
  humidity sensor does not publish \<open>RUNNING\<close> until the third, and \<open>DEGRADED\<close> from the third on.
\<close>

theorem third_failure_degrades:
  assumes "collector_ok n c" and "health_of c = fresh" and "n + length is \<le> 2147483648" and "is \<noteq> []"
    and "\<forall>i\<in>set is. possible i \<and> fst (in_mpu i) < 0 \<and> 0 \<le> fst (in_sht i)"
  shows "\<exists>c'. collector_loop is c = Some c'
    \<and> g_system_state (c_metrics c') = state_code (if length is < 3 then STATE_RUNNING else STATE_DEGRADED)"
proof -
  let ?P = "\<lambda>k h open. mpu_streak h = int k \<and> \<not> given_up h"
  obtain c' where "collector_loop is c = Some c'" "mpu_streak (health_of c') = int (length is)" "\<not> given_up (health_of c')"
    "g_system_state (c_metrics c') = state_code (health_state (health_of c'))"
    using collector_loop_run [of n c "is" ?P] assms
    by (fastforce simp: fresh_def health_step_def Let_def mpu_read_fails sht_read_works)
  then show ?thesis
    by (auto simp: health_state_def state_of_streak_def simp del: state_code.simps)
qed

theorem third_failure_degrades_witness:
  "\<exists>c'. collector_loop (replicate 3 (round_of [] (- ENODEV, []) sht_frame)) started = Some c'
    \<and> g_system_state (c_metrics c') = 2"
  using third_failure_degrades [of 0 started "replicate 3 (round_of [] (- ENODEV, []) sht_frame)"] started_ok
  by (simp add: errno_defs)

text \<open>
  C24. When both sensors keep failing the third round gives the bus up, and it stays given up:
  whatever the sensors do in the rounds after it, the published state is \<open>RECOVERING\<close>.
\<close>

theorem both_failing_gives_up:
  assumes "collector_ok n c" and "health_of c = fresh" and "sht_open c" and "n + length is + length js \<le> 2147483648"
    and "\<forall>i\<in>set is. possible i \<and> fst (in_mpu i) < 0 \<and> fst (in_sht i) < 0" and "\<forall>i\<in>set js. possible i"
    and "3 \<le> length is"
  shows "\<exists>c'. collector_loop (is @ js) c = Some c' \<and> g_system_state (c_metrics c') = state_code STATE_RECOVERING"
proof -
  let ?P = "\<lambda>k h open. open \<and> mpu_streak h = int k \<and> sht_streak h = int k \<and> given_up h = (3 \<le> k)"
  obtain c1 where c1: "collector_loop is c = Some c1" "collector_ok (n + length is) c1" "given_up (health_of c1)"
    "g_system_state (c_metrics c1) = state_code (health_state (health_of c1))"
    using collector_loop_run [of n c "is" ?P] assms
    by (fastforce simp: fresh_def health_step_def Let_def mpu_read_fails sht_read_fails)
  obtain c' where "collector_loop js c1 = Some c'" "given_up (health_of c')"
    "js \<noteq> [] \<longrightarrow> g_system_state (c_metrics c') = state_code (health_state (health_of c'))"
    using collector_loop_run [of "n + length is" c1 js "\<lambda>k h open. given_up h"] c1(2,3) assms(4,6) given_up_step by auto
  then show ?thesis
    using c1 by (cases js) (auto simp: collector_loop_append health_state_def simp del: state_code.simps)
qed

theorem both_failing_gives_up_witness:
  "\<exists>c'. collector_loop (replicate 3 both_fail @ [round_of [] mpu_frame2 sht_frame]) started = Some c'
    \<and> g_system_state (c_metrics c') = 3"
  using both_failing_gives_up [of 0 started "replicate 3 both_fail" "[round_of [] mpu_frame2 sht_frame]"] started_ok
  by (simp add: errno_defs both_fail_def)

text \<open>
  What a round delivers is what the sensors measured: when both reads deliver, the thread hands
  the database exactly the samples of the motion sensor under their axis names and then the
  temperature and the humidity, in the order of the buffers, stores the two raw values in the
  state machine's context, and publishes as registers a tenth of each (rounded towards zero, as a
  16-bit word) with the low 16 bits of the latest accelerations.
\<close>

theorem round_delivers:
  assumes "collector_ok n c" and "possible i" and "n \<le> 2147483648" and "mpu_opened i c" and "in_mpu i = (k, out)"
    and "0 < k" and "sht_open c" and "in_sht i = (32, [x, y])"
  shows "\<exists>c'. collector_round i c = Some c'
    \<and> inserts c' = inserts c
        @ map (\<lambda>s. Insert (in_mpu_time i) ''mpu6050'' (axis_name ! unat (channel s)) (sint (sd_value s))) out
        @ [Insert (in_sht_time i) ''sht30'' (sht_channel_name x) (sint (sd_value x)),
           Insert (in_sht_time i) ''sht30'' (sht_channel_name y) (sint (sd_value y))]
    \<and> temp_raw (g_fsm c') = sd_value x \<and> hum_raw (g_fsm c') = sd_value y
    \<and> c_regs c' = \<lparr>temperature = word_of_int (sint (sd_value x) sdiv 10),
         humidity = word_of_int (sint (sd_value y) sdiv 10),
         accel_x = ucast (latest_of 0 out (latest_ax c)), accel_y = ucast (latest_of 1 out (latest_ay c))\<rparr>"
  by (rule collector_round_delivers [OF assms])

theorem round_delivers_witness:
  "\<exists>c'. collector_round (round_of [] mpu_frame2 sht_frame) started = Some c'
    \<and> inserts c' = [Insert 1000 ''mpu6050'' ''AX'' (-5), Insert 1000 ''mpu6050'' ''AY'' 12,
        Insert 1001 ''sht30'' ''temperature'' 21500, Insert 1001 ''sht30'' ''humidity'' 45000]
    \<and> c_regs c' = \<lparr>temperature = 2150, humidity = 4500, accel_x = 65531, accel_y = 12\<rparr>"
proof -
  have "mpu_opened (round_of [] mpu_frame2 sht_frame) started"
    using started_ok(4) by (simp add: mpu_opened_def)
  moreover have "inserts started = []" "latest_ax started = 0" "latest_ay started = 0"
    by (simp_all add: started_def)
  moreover have "(4294967291 :: u16) = 65531"
    by simp
  moreover note frames_ok(1,2)
  ultimately show ?thesis
    using round_delivers [OF started_ok(1), of "round_of [] mpu_frame2 sht_frame" 32 "snd mpu_frame2"
        "sample SENSOR_SHT30 0 21500" "sample SENSOR_SHT30 1 45000"] started_ok(3)
    by (auto simp: mpu_frame2_def sht_frame_def axis_name_def sht_channel_name_def latest_of_def)
qed

end
