(* ===== verification/Exposition.thy ===== *)
theory Exposition
  imports Metrics
begin

text \<open>
  The texts the program shows: the numbers \<open>printf\<close> writes for \<open>%.1f\<close> of a value in thousandths,
  the exposition of \<open>/metrics\<close> and the page of \<open>/\<close> (\<open>app/main.c\<close>), the older exposition of
  \<open>metrics_generate\<close> (\<open>app/core/metrics.c\<close>), and what the script of the page reads back from
  the first of them. Texts are the UTF-8 bytes of the source, one element per line of it.
\<close>

section \<open>One decimal of a thousandth\<close>

text \<open>
  \<open>temp_raw / 1000.0\<close> in double precision, then \<open>%.1f\<close>. The quotient is rounded to 53 bits, to
  the nearest and ties to even, and printing rounds that binary number the same way to tenths.
  The exponent is the first that gives the significand its 53 bits; values are below \<open>2^31\<close>.
\<close>

definition div_even :: "int \<Rightarrow> int \<Rightarrow> int" where
  "div_even a b =
     (let q = a div b; r = a mod b in
      if 2 * r < b \<or> 2 * r = b \<and> even q then q else q + 1)"

definition double_exponent :: "int \<Rightarrow> nat" where
  "double_exponent n = hd (filter (\<lambda>e. 2 ^ 52 * 1000 \<le> n * 2 ^ e) [0..<64])"

definition double_thousandths :: "int \<Rightarrow> int \<times> nat" where
  "double_thousandths n =
     (if n = 0 then (0, 0) else let e = double_exponent n in (div_even (n * 2 ^ e) 1000, e))"

definition tenths :: "int \<Rightarrow> int" where
  "tenths n = (let (m, e) = double_thousandths n in div_even (m * 10) (2 ^ e))"

definition printf_1f :: "int \<Rightarrow> string" where
  "printf_1f v =
     (let t = nat (tenths \<bar>v\<bar>) in
      (if v < 0 then ''-'' else []) @ string_of_nat (t div 10) @ ''.'' @ string_of_nat (t mod 10))"

section \<open>The texts\<close>

definition nl :: string where "nl = [CHR 0x0A]"
definition quot :: string where "quot = [CHR 0x22]"
definition apos :: string where "apos = [CHR 0x27]"
definition bslash :: string where "bslash = [CHR 0x5C]"

lemmas char_defs = nl_def quot_def apos_def bslash_def

text \<open>Lines, each with its line break.\<close>

definition unlines :: "string list \<Rightarrow> string" where
  "unlines ls = concat (map (\<lambda>l. l @ nl) ls)"

text \<open>The body of \<open>/metrics\<close>; \<open>temp\<close> and \<open>hum\<close> are the raw values in thousandths.\<close>

definition metrics_text :: "int \<Rightarrow> string \<Rightarrow> int \<Rightarrow> int \<Rightarrow> int \<Rightarrow> int \<Rightarrow> int \<Rightarrow> int \<Rightarrow> int \<Rightarrow> int \<Rightarrow> string" where
  "metrics_text state name mpu_fails i2c_retries temp hum p50 p99 dead_thread monitor_alive = unlines
     [''# HELP system_state Current system state (0=INIT,1=RUNNING,2=DEGRADED,3=RECOVERING,4=FAULT)'',
      ''# TYPE system_state gauge'',
      ''system_state '' @ (string_of_int state),
      [],
      ''# HELP system_state_name Human readable state name'',
      ''# TYPE system_state_name gauge'',
      ''system_state_name{state='' @ quot @ name @ quot @ ''} 1'',
      [],
      ''# HELP mpu_fail_total Total MPU6050 read failures'',
      ''# TYPE mpu_fail_total counter'',
      ''mpu_fail_total '' @ (string_of_int mpu_fails),
      [],
      ''# HELP i2c_retry_total Total I2C retry attempts'',
      ''# TYPE i2c_retry_total counter'',
      ''i2c_retry_total '' @ (string_of_int i2c_retries),
      [],
      ''# HELP sensor_temperature_celsius Temperature in celsius'',
      ''# TYPE sensor_temperature_celsius gauge'',
      ''sensor_temperature_celsius{id='' @ quot @ ''sht30'' @ quot @ ''} '' @ (printf_1f temp),
      [],
      ''# HELP sensor_humidity_percent Relative humidity in percent'',
      ''# TYPE sensor_humidity_percent gauge'',
      ''sensor_humidity_percent{id='' @ quot @ ''sht30'' @ quot @ ''} '' @ (printf_1f hum),
      [],
      ''# HELP task_latency_us Task latency in microseconds'',
      ''# TYPE task_latency_us summary'',
      ''task_latency_us{quantile='' @ quot @ ''0.50'' @ quot @ ''} '' @ (string_of_int p50),
      ''task_latency_us{quantile='' @ quot @ ''0.99'' @ quot @ ''} '' @ (string_of_int p99),
      [],
      ''# HELP watchdog_dead_thread_id Which thread is dead (0=none,1=collect,2=http)'',
      ''# TYPE watchdog_dead_thread_id gauge'',
      ''watchdog_dead_thread_id '' @ (string_of_int dead_thread),
      [],
      ''# HELP watchdog_monitor_alive Is watchdog monitor thread running (1=yes,0=no)'',
      ''# TYPE watchdog_monitor_alive gauge'',
      ''watchdog_monitor_alive '' @ (string_of_int monitor_alive)]"

text \<open>The page: its head, the body with the values of the request, the script.\<close>

definition page_head :: string where
  "page_head = unlines
     [''<!DOCTYPE html>'',
      ''<html>'',
      ''<head>'',
      ''  <meta charset='' @ quot @ ''UTF-8'' @ quot @ ''>'',
      ''  <title>Edge-Omni '' @ [CHR 0xE7, CHR 0x9B, CHR 0x91, CHR 0xE6, CHR 0x8E, CHR 0xA7, CHR 0xE7, CHR 0x9C, CHR 0x8B, CHR 0xE6, CHR 0x9D, CHR 0xBF] @ ''</title>'',
      ''  <style>'',
      ''    body {font-family: monospace; margin: 40px; background: #1a1a2e; color: #eee; }'',
      ''    .card { background: #16213e; padding: 20px; border-radius: 10px; margin: 20px 0; }'',
      ''    .state { font-size: 48px; font-weight: bold; transition: color 0.5s; }'',
      ''    .green { color: #00ff88; }'',
      ''    .orange { color: #ffaa00; }'',
      ''    .blue { color: #00aaff; }'',
      ''    .red { color: #ff4444; }'',
      ''    .gray { color: #888888; }'',
      ''    .metric { font-size: 20px; margin: 8px 0; color: #aaa; }'',
      ''    .value { color: #fff; font-weight: bold; }'',
      ''    a { color: #00aaff; }'',
      ''    #timestamp { color: #666; font-size: 14px; margin-top: 10px; }'',
      ''  </style>'',
      ''</head>'',
      ''<body>'']"

definition page_body :: "string \<Rightarrow> string \<Rightarrow> int \<Rightarrow> int \<Rightarrow> int \<Rightarrow> int \<Rightarrow> string" where
  "page_body color name temp hum mpu_fails i2c_retries = unlines
     [''  <h1>Edge-Omni '' @ [CHR 0xE7, CHR 0xB3, CHR 0xBB, CHR 0xE7, CHR 0xBB, CHR 0x9F, CHR 0xE7, CHR 0x8A, CHR 0xB6, CHR 0xE6, CHR 0x80, CHR 0x81, CHR 0xE7, CHR 0x9C, CHR 0x8B, CHR 0xE6, CHR 0x9D, CHR 0xBF] @ ''</h1>'',
      ''  <div class='' @ quot @ ''card'' @ quot @ ''>'',
      ''    <div>'' @ [CHR 0xE5, CHR 0xBD, CHR 0x93, CHR 0xE5, CHR 0x89, CHR 0x8D, CHR 0xE7, CHR 0x8A, CHR 0xB6, CHR 0xE6, CHR 0x80, CHR 0x81] @ ''</div>'',
      ''    <div id='' @ quot @ ''state-display'' @ quot @ '' class='' @ quot @ ''state '' @ color @ quot @ ''>'' @ name @ ''</div>'',
      ''    <div id='' @ quot @ ''timestamp'' @ quot @ ''>'' @ [CHR 0xE6, CHR 0x9C, CHR 0x80, CHR 0xE5, CHR 0x90, CHR 0x8E, CHR 0xE6, CHR 0x9B, CHR 0xB4, CHR 0xE6, CHR 0x96, CHR 0xB0] @ '': '' @ [CHR 0xE5, CHR 0x88, CHR 0x9A, CHR 0xE5, CHR 0x88, CHR 0x9A] @ ''</div>'',
      ''  </div>'',
      ''  <div class='' @ quot @ ''card'' @ quot @ ''>'',
      ''    <div class='' @ quot @ ''sensor'' @ quot @ '' style='' @ quot @ ''font-size:28px;color:#00ff88;margin:5px 0;'' @ quot @ ''>'' @ [CHR 0xE6, CHR 0xB8, CHR 0xA9, CHR 0xE5, CHR 0xBA, CHR 0xA6] @ '': <span id='' @ quot @ ''temp-val'' @ quot @ ''>'' @ (printf_1f temp) @ ''</span> C</div>'',
      ''    <div class='' @ quot @ ''sensor'' @ quot @ '' style='' @ quot @ ''font-size:28px;color:#00aaff;margin:5px 0;'' @ quot @ ''>'' @ [CHR 0xE6, CHR 0xB9, CHR 0xBF, CHR 0xE5, CHR 0xBA, CHR 0xA6] @ '': <span id='' @ quot @ ''hum-val'' @ quot @ ''>'' @ (printf_1f hum) @ ''</span> %</div>'',
      ''    <div class='' @ quot @ ''metric'' @ quot @ ''>MPU6050 '' @ [CHR 0xE5, CHR 0xA4, CHR 0xB1, CHR 0xE8, CHR 0xB4, CHR 0xA5, CHR 0xE6, CHR 0xAC, CHR 0xA1, CHR 0xE6, CHR 0x95, CHR 0xB0] @ '': <span id='' @ quot @ ''mpu-fails'' @ quot @ '' class='' @ quot @ ''value'' @ quot @ ''>'' @ (string_of_int mpu_fails) @ ''</span></div>'',
      ''    <div class='' @ quot @ ''metric'' @ quot @ ''>I2C '' @ [CHR 0xE9, CHR 0x87, CHR 0x8D, CHR 0xE8, CHR 0xAF, CHR 0x95, CHR 0xE6, CHR 0xAC, CHR 0xA1, CHR 0xE6, CHR 0x95, CHR 0xB0] @ '': <span id='' @ quot @ ''i2c-retries'' @ quot @ '' class='' @ quot @ ''value'' @ quot @ ''>'' @ (string_of_int i2c_retries) @ ''</span></div>'',
      ''  </div>'',
      ''  <div class='' @ quot @ ''card'' @ quot @ ''>'',
      ''    <a href='' @ quot @ ''/metrics'' @ quot @ ''>'' @ [CHR 0xE6, CHR 0x9F, CHR 0xA5, CHR 0xE7, CHR 0x9C, CHR 0x8B] @ '' Prometheus '' @ [CHR 0xE5, CHR 0x8E, CHR 0x9F, CHR 0xE5, CHR 0xA7, CHR 0x8B, CHR 0xE6, CHR 0x95, CHR 0xB0, CHR 0xE6, CHR 0x8D, CHR 0xAE] @ '' (/metrics)</a>'',
      ''  </div>'',
      []]"

definition page_script :: string where
  "page_script = unlines
     [''  <script>'',
      ''    '',
      ''    setInterval(async function() {'',
      ''      try {'',
      ''        '',
      ''        const response = await fetch('' @ apos @ ''/metrics'' @ apos @ '');'',
      ''        const text = await response.text();'',
      ''        '',
      ''        '',
      ''        const stateMatch = text.match(/system_state ('' @ bslash @ ''d)/);'',
      ''        const nameMatch = text.match(/system_state_name'' @ bslash @ ''{state='' @ quot @ ''('' @ bslash @ ''w+)'' @ quot @ bslash @ ''} 1/);'',
      ''        const mpuMatch = text.match(/mpu_fail_total ('' @ bslash @ ''d+)/);'',
      ''        const i2cMatch = text.match(/i2c_retry_total ('' @ bslash @ ''d+)/);'',
      ''        const tempMatch = text.match(/sensor_temperature_celsius'' @ bslash @ ''{id='' @ quot @ ''sht30'' @ quot @ bslash @ ''} (['' @ bslash @ ''d.]+)/);'',
      ''        const humMatch  = text.match(/sensor_humidity_percent'' @ bslash @ ''{id='' @ quot @ ''sht30'' @ quot @ bslash @ ''} (['' @ bslash @ ''d.]+)/);'',
      ''        '',
      ''        if (stateMatch && nameMatch) {'',
      ''          const stateNum = parseInt(stateMatch[1]);'',
      ''          const stateName = nameMatch[1];'',
      ''          '',
      ''          '',
      ''          const display = document.getElementById('' @ apos @ ''state-display'' @ apos @ '');'',
      ''          display.textContent = stateName;'',
      ''          '',
      ''          '',
      ''          display.className = '' @ apos @ ''state'' @ apos @ '';'',
      ''          const colors = ['' @ apos @ ''gray'' @ apos @ '', '' @ apos @ ''green'' @ apos @ '', '' @ apos @ ''orange'' @ apos @ '', '' @ apos @ ''blue'' @ apos @ '', '' @ apos @ ''red'' @ apos @ ''];'',
      ''          if (colors[stateNum]) {'',
      ''            display.classList.add(colors[stateNum]);'',
      ''          }'',
      ''          '',
      ''          '',
      ''          const now = new Date().toLocaleTimeString('' @ apos @ ''zh-CN'' @ apos @ '');'',
      ''          document.getElementById('' @ apos @ ''timestamp'' @ apos @ '').textContent = '' @ apos @ [CHR 0xE6, CHR 0x9C, CHR 0x80, CHR 0xE5, CHR 0x90, CHR 0x8E, CHR 0xE6, CHR 0x9B, CHR 0xB4, CHR 0xE6, CHR 0x96, CHR 0xB0] @ '': '' @ apos @ '' + now;'',
      ''        }'',
      ''        '',
      ''        '',
      ''        if (mpuMatch) document.getElementById('' @ apos @ ''mpu-fails'' @ apos @ '').textContent = mpuMatch[1];'',
      ''        if (tempMatch) document.getElementById('' @ apos @ ''temp-val'' @ apos @ '').textContent = tempMatch[1];'',
      ''        if (humMatch)  document.getElementById('' @ apos @ ''hum-val'' @ apos @ '').textContent = humMatch[1];'',
      ''        if (i2cMatch) document.getElementById('' @ apos @ ''i2c-retries'' @ apos @ '').textContent = i2cMatch[1];'',
      ''        '',
      ''      } catch (e) {'',
      ''        console.error('' @ apos @ [CHR 0xE5, CHR 0x88, CHR 0xB7, CHR 0xE6, CHR 0x96, CHR 0xB0, CHR 0xE5, CHR 0xA4, CHR 0xB1, CHR 0xE8, CHR 0xB4, CHR 0xA5] @ '':'' @ apos @ '', e);'',
      ''      }'',
      ''    }, 1000);'',
      ''  </script>'',
      ''</body>'',
      ''</html>'']"

definition page_text :: "string \<Rightarrow> string \<Rightarrow> int \<Rightarrow> int \<Rightarrow> int \<Rightarrow> int \<Rightarrow> string" where
  "page_text color name temp hum mpu_fails i2c_retries =
     page_head @ page_body color name temp hum mpu_fails i2c_retries @ page_script"

text \<open>The older exposition, which no code calls.\<close>

definition metrics_generate_text :: "int \<Rightarrow> int \<Rightarrow> int \<Rightarrow> int \<Rightarrow> int \<Rightarrow> int \<Rightarrow> int \<Rightarrow> int \<Rightarrow> string" where
  "metrics_generate_text retry temp humi p50 p99 running degraded fault = unlines
     [''# HELP i2c_retry_total Total I2C retry count'',
      ''# TYPE i2c_retry_total counter'',
      ''i2c_retry_total{driver='' @ quot @ ''mpu6050'' @ quot @ ''} '' @ (string_of_int retry),
      [],
      ''# HELP sensor_temperature_celsius Current temperature'',
      ''# TYPE sensor_temperature_celsius gauge'',
      ''sensor_temperature_celsius{id='' @ quot @ ''sht30'' @ quot @ ''} '' @ (printf_1f temp),
      [],
      ''# HELP sensor_humidity_percent Current humidity'',
      ''# TYPE sensor_humidity_percent gauge'',
      ''sensor_humidity_percent{id='' @ quot @ ''sht30'' @ quot @ ''} '' @ (printf_1f humi),
      [],
      ''# HELP task_latency_us Task latency in microseconds'',
      ''# TYPE task_latency_us summary'',
      ''task_latency_us{quantile='' @ quot @ ''0.50'' @ quot @ ''} '' @ (string_of_int p50),
      ''task_latency_us{quantile='' @ quot @ ''0.99'' @ quot @ ''} '' @ (string_of_int p99),
      [],
      ''# HELP system_state Current system state (0=INIT,1=RUNNING,2=DEGRADED,3=RECOVERING,4=FAULT)'',
      ''# TYPE system_state gauge'',
      ''system_state{state='' @ quot @ ''running'' @ quot @ ''} '' @ (string_of_int running),
      ''system_state{state='' @ quot @ ''degraded'' @ quot @ ''} '' @ (string_of_int degraded),
      ''system_state{state='' @ quot @ ''fault'' @ quot @ ''} '' @ (string_of_int fault)]"

text \<open>\<open>snprintf\<close>: the length the text would have, and what the buffer holds before its terminator.\<close>

definition snprintf :: "nat \<Rightarrow> string \<Rightarrow> nat \<times> string" where
  "snprintf buf_size text = (length text, take (buf_size - 1) text)"

definition metrics_generate :: "nat \<Rightarrow> metrics \<Rightarrow> (nat \<times> string) option" where
  "metrics_generate buf_size m =
     (let retry = sint (g_i2c_retry_total m); temp = sint (g_temperature_milli m);
          humi = sint (g_humidity_milli m); state = g_system_state m in
      case calc_latency_percentile m of
        None \<Rightarrow> None
      | Some (p50, p99) \<Rightarrow>
          Some (snprintf buf_size (metrics_generate_text retry temp humi p50 p99
            (if state = 1 then 1 else 0) (if state = 2 then 1 else 0) (if state = 4 then 1 else 0))))"

section \<open>The error of a shown value\<close>

lemma div_even_error: "0 < b \<Longrightarrow> 2 * \<bar>b * div_even a b - a\<bar> \<le> b"
proof -
  assume b: "0 < b"
  have a: "a = b * (a div b) + a mod b" "0 \<le> a mod b" "a mod b < b"
    using b by simp_all
  show ?thesis
  proof (cases "2 * (a mod b) < b \<or> 2 * (a mod b) = b \<and> even (a div b)")
    case True
    then have "b * div_even a b - a = - (a mod b)"
      unfolding div_even_def Let_def if_P [OF True] using minus_mult_div_eq_mod [of a b] by linarith
    then show ?thesis using True a(2) by auto
  next
    case False
    then have "b * div_even a b - a = b - a mod b"
      unfolding div_even_def Let_def if_not_P [OF False] distrib_left mult_1_right
      using minus_mult_div_eq_mod [of a b] by linarith
    then show ?thesis using False a(3) by auto
  qed
qed

text \<open>The exponent is large for values below \<open>2^31\<close>: the quotient is exact to much less than a tenth.\<close>

lemma double_exponent_ok:
  assumes "0 < n" and "n \<le> 2147483648"
  shows "9 \<le> double_exponent n"
proof -
  let ?P = "\<lambda>e. 2 ^ 52 * 1000 \<le> n * 2 ^ e"
  have "(1 :: int) * 2 ^ 63 \<le> n * 2 ^ 63"
    using assms(1) by (intro mult_right_mono) auto
  then have "?P 63"
    by simp
  then have "filter ?P [0..<64] \<noteq> []"
    unfolding filter_empty_conv set_upt by (intro notI) (drule bspec [of _ _ 63], simp, blast)
  then have "?P (double_exponent n)"
    unfolding double_exponent_def using hd_in_set [of "filter ?P [0..<64]"] unfolding set_filter by blast
  moreover have "n * 2 ^ e < 2 ^ 52 * 1000" if "e < 9" for e :: nat
  proof -
    have "(2::int) ^ e \<le> 2 ^ 8"
      using that by (intro power_increasing) auto
    then have "n * 2 ^ e \<le> 2147483648 * 2 ^ 8"
      using assms by (intro mult_mono) auto
    then show ?thesis by simp
  qed
  ultimately show ?thesis
    by (meson not_le)
qed

lemma error_sum: "x = 100 * a + b \<Longrightarrow> \<bar>b\<bar> \<le> 500 \<Longrightarrow> 2 * \<bar>a\<bar> \<le> p \<Longrightarrow> \<bar>x\<bar> \<le> 50 * p + 500"
  for a b p x :: int
  by linarith

lemma tenths_error:
  assumes "0 \<le> n" and "n \<le> 2147483648"
  shows "\<bar>100 * tenths n - n\<bar> \<le> 50"
proof (cases "n = 0")
  case True
  then show ?thesis
    by (simp add: tenths_def double_thousandths_def div_even_def)
next
  case False
  define e where "e = double_exponent n"
  define m where "m = div_even (n * 2 ^ e) 1000"
  have t: "tenths n = div_even (m * 10) (2 ^ e)"
    using False by (simp add: tenths_def double_thousandths_def e_def m_def Let_def)
  have e: "9 \<le> e"
    using double_exponent_ok [of n] assms False by (simp add: e_def)
  have two: "(512 :: int) \<le> 2 ^ e"
    using power_increasing [OF e, of "2 :: int"] by simp
  have m: "\<bar>1000 * m - n * 2 ^ e\<bar> \<le> 500"
    using div_even_error [of 1000 "n * 2 ^ e"] by (simp add: m_def)
  have d: "2 * \<bar>2 ^ e * tenths n - m * 10\<bar> \<le> 2 ^ e"
    using div_even_error [of "2 ^ e" "m * 10"] by (simp add: t)
  have "2 ^ e * (100 * tenths n - n) = 100 * (2 ^ e * tenths n - m * 10) + (1000 * m - n * 2 ^ e)"
    by (simp add: algebra_simps)
  then have "\<bar>2 ^ e * (100 * tenths n - n)\<bar> \<le> 50 * 2 ^ e + 500"
    by (rule error_sum [OF _ m d])
  then have "2 ^ e * \<bar>100 * tenths n - n\<bar> \<le> 50 * 2 ^ e + 500"
    by (simp add: abs_mult)
  also have "\<dots> < 2 ^ e * 51"
    using two by simp
  finally have "\<bar>100 * tenths n - n\<bar> < 51"
    by simp
  then show ?thesis
    by simp
qed

section \<open>The lengths of the texts\<close>

lemma tenths_bound:
  assumes "\<bar>v\<bar> \<le> 2147483648"
  shows "0 \<le> tenths \<bar>v\<bar>" "tenths \<bar>v\<bar> < 100000000"
  using tenths_error [of "\<bar>v\<bar>"] assms by linarith+

lemma length_printf_1f:
  assumes "\<bar>v\<bar> \<le> 2147483648"
  shows "length (printf_1f v) \<le> 10"
proof -
  define t where "t = nat (tenths \<bar>v\<bar>)"
  have "t < 100000000"
    using tenths_bound [OF assms] by (simp add: t_def)
  then have "length (string_of_nat (t div 10)) \<le> 7" "length (string_of_nat (t mod 10)) \<le> 1"
    using length_string_of_nat [of "t div 10" 6] length_string_of_nat [of "t mod 10" 0] by simp_all
  then show ?thesis
    by (simp add: printf_1f_def Let_def flip: t_def)
qed

lemma length_page_head: "length page_head = 730"
  by (simp add: page_head_def unlines_def char_defs)

lemma length_page_script: "length page_script = 1793"
  by (simp add: page_script_def unlines_def char_defs)

lemma length_page_body:
  "length (page_body color name temp hum mpu_fails i2c_retries) = 754 + length color + length name
    + length (printf_1f temp) + length (printf_1f hum) + length (string_of_int mpu_fails) + length (string_of_int i2c_retries)"
  by (simp add: page_body_def unlines_def char_defs)

lemma length_metrics_text:
  "length (metrics_text state name mpu_fails i2c_retries temp hum p50 p99 dead_thread monitor_alive) =
    1144 + length (string_of_int state) + length name + length (string_of_int mpu_fails)
    + length (string_of_int i2c_retries) + length (printf_1f temp) + length (printf_1f hum)
    + length (string_of_int p50) + length (string_of_int p99) + length (string_of_int dead_thread)
    + length (string_of_int monitor_alive)"
  by (simp add: metrics_text_def unlines_def char_defs)

lemma int32_lengths:
  assumes "int32 v"
  shows "length (string_of_int v) \<le> 11" "length (printf_1f v) \<le> 10"
  using assms by (auto simp: int32_def intro!: length_string_of_int length_printf_1f)

lemma page_text_length:
  assumes "length name \<le> 10" and "length color \<le> 6"
    and "int32 temp" "int32 hum" "int32 mpu_fails" "int32 i2c_retries"
  shows "length (page_text color name temp hum mpu_fails i2c_retries) < 3400"
  using assms(1,2) int32_lengths [OF assms(3)] int32_lengths [OF assms(4)] int32_lengths [OF assms(5)]
    int32_lengths [OF assms(6)]
  by (simp add: page_text_def length_page_head length_page_body length_page_script)

lemma metrics_text_length:
  assumes "length name \<le> 10" and "int32 state" "int32 mpu_fails" "int32 i2c_retries" "int32 temp" "int32 hum"
    "int32 p50" "int32 p99" "int32 dead" "int32 alive"
  shows "length (metrics_text state name mpu_fails i2c_retries temp hum p50 p99 dead alive) < 1300"
  using assms(1) assms(2-) [THEN int32_lengths(1)] assms(5,6) [THEN int32_lengths(2)]
  by (simp add: length_metrics_text)

section \<open>What the page reads back\<close>

text \<open>
  The script of the page fetches \<open>/metrics\<close> every second and looks for six patterns in it, each a
  fixed text, one or more characters of a class as the captured group, and another fixed text:
  the first place of the text where the pattern matches. (The class never contains the character
  after it, so a greedy group has one choice.)
\<close>

fun strip_prefix :: "string \<Rightarrow> string \<Rightarrow> string option" where
  "strip_prefix [] t = Some t"
| "strip_prefix (p # ps) [] = None"
| "strip_prefix (p # ps) (c # cs) = (if p = c then strip_prefix ps cs else None)"

definition capture :: "string \<Rightarrow> (char \<Rightarrow> bool) \<Rightarrow> string \<Rightarrow> string \<Rightarrow> string option" where
  "capture pre ok post text =
     (case strip_prefix pre text of
        None \<Rightarrow> None
      | Some t \<Rightarrow>
          if takeWhile ok t = [] \<or> strip_prefix post (dropWhile ok t) = None then None else Some (takeWhile ok t))"

fun js_match :: "string \<Rightarrow> (char \<Rightarrow> bool) \<Rightarrow> string \<Rightarrow> string \<Rightarrow> string option" where
  "js_match pre ok post [] = None"
| "js_match pre ok post (c # cs) =
     (case capture pre ok post (c # cs) of Some w \<Rightarrow> Some w | None \<Rightarrow> js_match pre ok post cs)"

definition js_word :: "char \<Rightarrow> bool" where
  "js_word c \<longleftrightarrow> is_digit c \<or> 65 \<le> (of_char c :: nat) \<and> (of_char c :: nat) \<le> 90
     \<or> 97 \<le> (of_char c :: nat) \<and> (of_char c :: nat) \<le> 122 \<or> c = CHR ''_''"

definition js_number :: "char \<Rightarrow> bool" where
  "js_number c \<longleftrightarrow> is_digit c \<or> c = CHR ''.''"

text \<open>The parts of the page the script sets: the state's text and colour, and four numbers.\<close>

record page_view =
  state_display :: string
  state_class :: string
  mpu_display :: string
  temp_display :: string
  hum_display :: string
  i2c_display :: string

definition js_colors :: "string list" where
  "js_colors = [''gray'', ''green'', ''orange'', ''blue'', ''red'']"

text \<open>One refresh with the text that was fetched.\<close>

definition refresh :: "string \<Rightarrow> page_view \<Rightarrow> page_view" where
  "refresh text v =
     (let stateMatch = map_option (take 1) (js_match ''system_state '' is_digit [] text);
          nameMatch = js_match (''system_state_name{state='' @ quot) js_word (quot @ ''} 1'') text;
          mpuMatch = js_match ''mpu_fail_total '' is_digit [] text;
          i2cMatch = js_match ''i2c_retry_total '' is_digit [] text;
          tempMatch = js_match (''sensor_temperature_celsius{id='' @ quot @ ''sht30'' @ quot @ ''} '') js_number [] text;
          humMatch = js_match (''sensor_humidity_percent{id='' @ quot @ ''sht30'' @ quot @ ''} '') js_number [] text;
          v = (case (stateMatch, nameMatch) of
                 (Some n, Some stateName) \<Rightarrow>
                   let stateNum = nat (atoi n); v = v\<lparr>state_display := stateName, state_class := ''state''\<rparr> in
                   if stateNum < length js_colors
                   then v\<lparr>state_class := ''state '' @ js_colors ! stateNum\<rparr> else v
               | _ \<Rightarrow> v);
          v = (case mpuMatch of Some w \<Rightarrow> v\<lparr>mpu_display := w\<rparr> | None \<Rightarrow> v);
          v = (case tempMatch of Some w \<Rightarrow> v\<lparr>temp_display := w\<rparr> | None \<Rightarrow> v);
          v = (case humMatch of Some w \<Rightarrow> v\<lparr>hum_display := w\<rparr> | None \<Rightarrow> v) in
      case i2cMatch of Some w \<Rightarrow> v\<lparr>i2c_display := w\<rparr> | None \<Rightarrow> v)"

text \<open>A pattern without a line break is matched line by line.\<close>

lemma strip_prefix_line:
  "c \<notin> set pre \<Longrightarrow> strip_prefix pre (l @ c # t) = map_option (\<lambda>r. r @ c # t) (strip_prefix pre l)"
proof (induction pre l rule: strip_prefix.induct)
  case (2 p ps)
  then show ?case by auto
qed auto

lemma capture_line:
  assumes "c \<notin> set pre" and "c \<notin> set post" and "\<not> ok c"
  shows "capture pre ok post (l @ c # t) = capture pre ok post l"
proof (cases "strip_prefix pre l")
  case None
  then show ?thesis
    using assms by (simp add: capture_def strip_prefix_line)
next
  case (Some r)
  have "takeWhile ok (r @ c # t) = takeWhile ok r" "dropWhile ok (r @ c # t) = dropWhile ok r @ c # t"
    using assms(3) by (induction r) simp_all
  then show ?thesis
    using Some assms by (simp add: capture_def strip_prefix_line)
qed

lemma js_match_line:
  assumes "c \<notin> set pre" and "c \<notin> set post" and "\<not> ok c" and "pre \<noteq> []"
  shows "js_match pre ok post (l @ c # t) =
    (case js_match pre ok post l of Some w \<Rightarrow> Some w | None \<Rightarrow> js_match pre ok post t)"
proof (induction l)
  case Nil
  then show ?case
    using assms by (cases pre) (auto simp: capture_def)
next
  case (Cons d l)
  then show ?case
    using capture_line [of c pre post ok "d # l" t] assms(1-3) by (simp split: option.split)
qed

lemma js_match_none:
  assumes "p \<notin> set s"
  shows "js_match (p # ps) ok post s = None"
  using assms by (induction s) (auto simp: capture_def)

lemma string_of_nat_digits: "\<forall>c\<in>set (string_of_nat n). is_digit c"
proof (induction n rule: string_of_nat.induct)
  case (1 n)
  then show ?case
    by (cases "n < 10") (simp_all add: string_of_nat.simps [of n])
qed

lemma string_of_nat_takeWhile [simp]:
  "takeWhile is_digit (string_of_nat n) = string_of_nat n" "string_of_nat n \<noteq> []"
  using string_of_nat_digits [of n] string_of_nat_hd [of n] by (auto simp: takeWhile_eq_all_conv)

lemma string_of_int_letters:
  "\<not> is_digit c \<Longrightarrow> c \<noteq> CHR ''-'' \<Longrightarrow> c \<notin> set (string_of_int v)"
  "\<not> is_digit c \<Longrightarrow> c \<noteq> CHR ''-'' \<Longrightarrow> c \<noteq> CHR ''.'' \<Longrightarrow> c \<notin> set (printf_1f v)"
  using string_of_nat_digits by (auto simp: string_of_int_def printf_1f_def Let_def)

lemma js_match_values [simp]:
  "\<not> is_digit p \<Longrightarrow> p \<noteq> CHR ''-'' \<Longrightarrow> js_match (p # ps) ok post (string_of_int v) = None"
  "\<not> is_digit p \<Longrightarrow> p \<noteq> CHR ''-'' \<Longrightarrow> p \<noteq> CHR ''.'' \<Longrightarrow> js_match (p # ps) ok post (printf_1f v) = None"
  by (simp_all add: js_match_none string_of_int_letters)

lemma unlines_Nil [simp]: "unlines [] = []"
  by (simp add: unlines_def)

lemma js_match_lines:
  assumes "CHR 0x0A \<notin> set pre" and "CHR 0x0A \<notin> set post" and "\<not> ok (CHR 0x0A)" and "pre \<noteq> []"
  shows "js_match pre ok post (unlines (l # ls)) =
    (case js_match pre ok post l of Some w \<Rightarrow> Some w | None \<Rightarrow> js_match pre ok post (unlines ls))"
  using js_match_line [of "CHR 0x0A" pre post ok l "unlines ls"] assms by (simp add: unlines_def nl_def)

lemma js_match_skip:
  "p \<notin> set s \<Longrightarrow> js_match (p # ps) ok post (s @ t) = js_match (p # ps) ok post t"
  by (induction s) (simp_all add: capture_def)

text \<open>The names of the states are upper-case words.\<close>

definition upper_name :: "string \<Rightarrow> bool" where
  "upper_name s \<longleftrightarrow> s \<noteq> [] \<and> (\<forall>c\<in>set s. 65 \<le> (of_char c :: nat) \<and> (of_char c :: nat) \<le> 90)"

lemma upper_name_skip [simp]:
  "upper_name n \<Longrightarrow> 90 < (of_char p :: nat) \<Longrightarrow> js_match (p # ps) ok post (n @ t) = js_match (p # ps) ok post t"
  by (intro js_match_skip) (auto simp: upper_name_def)

lemma upper_name_word:
  "upper_name n \<Longrightarrow> \<not> js_word c \<Longrightarrow> takeWhile js_word (n @ c # t) = n \<and> dropWhile js_word (n @ c # t) = c # t \<and> n \<noteq> []"
proof (induction n)
  case (Cons d n)
  then show ?case
    by (cases "n = []") (auto simp: upper_name_def js_word_def)
qed (simp add: upper_name_def)

lemma string_of_int_int: "string_of_int (int n) = string_of_nat n"
  by (simp add: string_of_int_def)

lemmas js_eval = js_match_lines capture_def char_defs string_of_int_int js_number_def

text \<open>Each pattern finds the value of its own line; a number with a sign is not a number for it.\<close>

lemma read_state:
  assumes "upper_name n"
  shows "js_match ''system_state '' is_digit [] (metrics_text (int k) n f r t h a b c d) = Some (string_of_nat k)"
  using assms by (simp add: metrics_text_def js_eval is_digit_def)

lemma read_name:
  assumes "upper_name n"
  shows "js_match (''system_state_name{state='' @ quot) js_word (quot @ ''} 1'') (metrics_text k n f r t h a b c d) = Some n"
  using upper_name_word [OF assms, of "CHR 0x22"] by (simp add: metrics_text_def js_eval js_word_def is_digit_def)

lemma read_fails:
  assumes "upper_name n"
  shows "js_match ''mpu_fail_total '' is_digit [] (metrics_text k n (int f) r t h a b c d) = Some (string_of_nat f)"
  using assms by (simp add: metrics_text_def js_eval is_digit_def)

lemma read_retries:
  assumes "upper_name n"
  shows "js_match ''i2c_retry_total '' is_digit [] (metrics_text k n f (int r) t h a b c d) = Some (string_of_nat r)"
  using assms by (simp add: metrics_text_def js_eval is_digit_def)

lemma printf_1f_number:
  "takeWhile js_number (printf_1f v) = (if v < 0 then [] else printf_1f v) \<and> printf_1f v \<noteq> []"
proof -
  have "takeWhile js_number (string_of_nat m @ CHR ''.'' # string_of_nat k) = string_of_nat m @ CHR ''.'' # string_of_nat k" for m k
    using string_of_nat_digits [of m] string_of_nat_digits [of k]
    by (auto simp: takeWhile_eq_all_conv js_number_def)
  then show ?thesis
    by (simp add: printf_1f_def Let_def js_number_def is_digit_def)
qed

lemma read_temp:
  assumes "upper_name n"
  shows "js_match (''sensor_temperature_celsius{id='' @ quot @ ''sht30'' @ quot @ ''} '') js_number []
    (metrics_text k n f r t h a b c d) = (if t < 0 then None else Some (printf_1f t))"
  using assms printf_1f_number [of t] by (simp add: metrics_text_def js_eval is_digit_def)

lemma read_hum:
  assumes "upper_name n"
  shows "js_match (''sensor_humidity_percent{id='' @ quot @ ''sht30'' @ quot @ ''} '') js_number []
    (metrics_text k n f r t h a b c d) = (if h < 0 then None else Some (printf_1f h))"
  using assms printf_1f_number [of h] by (simp add: metrics_text_def js_eval is_digit_def)

section \<open>Properties\<close>

text \<open>
  A shown value is right to a twentieth: what \<open>%.1f\<close> prints for a raw value in thousandths
  divided by \<open>1000.0\<close> is the sign, the whole part and one digit of a number of tenths that
  differs from the value by at most 50 thousandths, in spite of the two roundings, and the text
  has at most ten characters.
\<close>

theorem printf_1f_error:
  assumes "\<bar>v\<bar> \<le> 2147483648"
  shows "\<exists>t. printf_1f v = (if v < 0 then ''-'' else []) @ string_of_nat (t div 10) @ ''.'' @ [char_of (48 + t mod 10)]
    \<and> \<bar>100 * int t - \<bar>v\<bar>\<bar> \<le> 50 \<and> length (printf_1f v) \<le> 10"
proof -
  define t where "t = nat (tenths \<bar>v\<bar>)"
  have "int t = tenths \<bar>v\<bar>"
    using tenths_bound [OF assms] by (simp add: t_def)
  moreover have "printf_1f v = (if v < 0 then ''-'' else []) @ string_of_nat (t div 10) @ ''.'' @ [char_of (48 + t mod 10)]"
    by (simp add: printf_1f_def Let_def string_of_nat.simps [of "t mod 10"] flip: t_def)
  ultimately show ?thesis
    using tenths_error [of "\<bar>v\<bar>"] length_printf_1f [OF assms] assms by auto
qed

theorem printf_1f_error_witness:
  "\<exists>t. printf_1f (-21450) = ''-'' @ string_of_nat (t div 10) @ ''.'' @ [char_of (48 + t mod 10)]
    \<and> \<bar>100 * int t - 21450\<bar> \<le> 50"
  using printf_1f_error [of "-21450"] by auto

text \<open>
  Both texts fit their buffers: whatever the 32-bit values, the page is shorter than the 4096
  bytes of its buffer, whose length is not checked before it is sent, and the exposition is
  shorter than its 8192 bytes, so the branch that cuts it is never taken.
\<close>

theorem texts_fit:
  assumes "length name \<le> 10" and "length color \<le> 6"
    and "\<forall>v\<in>{state, mpu_fails, i2c_retries, temp, hum, p50, p99, dead, alive}. int32 v"
  shows "length (page_text color name temp hum mpu_fails i2c_retries) < 3400
    \<and> length (metrics_text state name mpu_fails i2c_retries temp hum p50 p99 dead alive) < 1300"
  using assms by (simp add: page_text_length metrics_text_length)

theorem texts_fit_witness:
  "length (page_text ''orange'' ''RECOVERING'' (-2147483648) 2147483647 (-1) 0) < 3400
    \<and> length (metrics_text 3 ''RECOVERING'' (-1) 0 (-2147483648) 2147483647 0 0 2 0) < 1300"
  using texts_fit [of "''RECOVERING''" "''orange''" 3 "-1" 0 "-2147483648" 2147483647 0 0 2 0] by (simp add: int32_def)

text \<open>
  C17. The page shows what the program published: after a refresh with the exposition, the state's
  name, its colour class and the two counters are those of the program, and so are the
  temperature and the humidity, with one decimal, when they are not negative. Below zero the
  pattern of the script does not match the sign and the page keeps the last value it had.
\<close>

theorem dashboard_reads_back:
  assumes "upper_name name" and "k < 5"
  shows "refresh (metrics_text (int k) name (int fails) (int retries) temp hum p50 p99 dead alive) v =
    \<lparr>state_display = name, state_class = ''state '' @ js_colors ! k, mpu_display = string_of_nat fails,
     temp_display = (if temp < 0 then temp_display v else printf_1f temp),
     hum_display = (if hum < 0 then hum_display v else printf_1f hum), i2c_display = string_of_nat retries\<rparr>"
proof -
  have "string_of_nat k = [char_of (48 + k)]"
    using assms(2) by (simp add: string_of_nat.simps [of k])
  then have "atoi (take 1 (string_of_nat k)) = int k"
    using assms(2) by (simp add: atoi_digit)
  moreover have "length js_colors = 5"
    by (simp add: js_colors_def)
  ultimately show ?thesis
    using assms(2)
    unfolding refresh_def read_state [OF assms(1)] read_name [OF assms(1)] read_fails [OF assms(1)]
      read_retries [OF assms(1)] read_temp [OF assms(1)] read_hum [OF assms(1)]
    by (simp add: Let_def)
qed

theorem dashboard_reads_back_witness:
  "refresh (metrics_text 2 ''DEGRADED'' 7 0 (-5200) 45000 12 90 0 0)
      \<lparr>state_display = [], state_class = [], mpu_display = [], temp_display = ''0.3'', hum_display = [], i2c_display = []\<rparr>
    = \<lparr>state_display = ''DEGRADED'', state_class = ''state orange'', mpu_display = string_of_nat 7,
       temp_display = ''0.3'', hum_display = printf_1f 45000, i2c_display = string_of_nat 0\<rparr>"
  using dashboard_reads_back [of "''DEGRADED''" 2 7 0 "-5200" 45000 12 90 0 0]
  by (simp add: upper_name_def js_colors_def)

end
