(* ===== verification/Web.thy ===== *)
theory Web
  imports Heartbeat Thread_Config Fsm Exposition Sensor_Hal
begin

text \<open>
  The web thread of \<open>app/main.c\<close>: the listening socket, one connection at a time, the request
  line, the two pages, and the loops that send an answer. The system calls are given by what they
  answer; each value of another thread is given as the load sees it, so that two loads of one
  request may see different moments. Strings are the bytes on the wire.
\<close>

section \<open>Sending\<close>

text \<open>
  The loop that sends a block of bytes: the list is what the successive \<open>send\<close> calls answer.
  The result is whether everything was sent, the bytes that were, the answers not used; \<open>None\<close>
  when the answers end and bytes are left: the loop is still in \<open>send\<close>.
\<close>

fun send_all :: "string \<Rightarrow> int list \<Rightarrow> (bool \<times> string \<times> int list) option" where
  "send_all [] answers = Some (True, [], answers)"
| "send_all (c # cs) [] = None"
| "send_all (c # cs) (n # answers) =
     (if n < 0 then Some (False, [], answers)
      else map_option (\<lambda>(ok, out, rest). (ok, take (nat n) (c # cs) @ out, rest))
             (send_all (drop (nat n) (c # cs)) answers))"

text \<open>What can go wrong: a read beyond a buffer, or a loop that has not ended.\<close>

datatype web_fault = Overread | Sending

definition crlf :: string where "crlf = [CHR 0x0D, CHR 0x0A]"

definition http_header :: "nat \<Rightarrow> string \<Rightarrow> nat \<Rightarrow> string" where
  "http_header status_code content_type body_len =
     (let status_str = (if status_code = 200 then ''200 OK'' else ''404 Not Found'') in
      ''HTTP/1.1 '' @ status_str @ crlf @
      ''Content-Type: '' @ content_type @ crlf @
      ''Content-Length: '' @ string_of_nat body_len @ crlf @
      ''Connection: close'' @ crlf @
      crlf)"

text \<open>A buffer with its text and terminator; the bytes after it are not part of it.\<close>

definition with_nul :: "string \<Rightarrow> string" where
  "with_nul text = text @ [CHR 0x00]"

definition send_http_response ::
  "nat \<Rightarrow> string \<Rightarrow> string \<Rightarrow> nat \<Rightarrow> int list \<Rightarrow> web_fault + string \<times> int list" where
  "send_http_response status_code content_type body body_len answers =
     (let (header_len, header) = snprintf 512 (http_header status_code content_type body_len) in
      if length (with_nul header) < header_len then Inl Overread
      else case send_all (take header_len (with_nul header)) answers of
        None \<Rightarrow> Inl Sending
      | Some (sent, out, answers) \<Rightarrow>
          if \<not> sent then Inr (out, answers)
          else if length (with_nul body) < body_len then Inl Overread
          else case send_all (take body_len (with_nul body)) answers of
            None \<Rightarrow> Inl Sending
          | Some (sent, out2, answers) \<Rightarrow> Inr (out @ out2, answers))"

section \<open>The request line\<close>

text \<open>\<open>%<n>s\<close> of \<open>sscanf\<close>: spaces are skipped, then at most \<open>n\<close> other characters are read.\<close>

definition scan_word :: "nat \<Rightarrow> string \<Rightarrow> string \<times> string" where
  "scan_word n s =
     (let s = dropWhile is_space s; w = takeWhile (\<lambda>c. \<not> is_space c) (take n s) in (w, drop (length w) s))"

definition parse_request :: "string \<Rightarrow> (string \<times> string) option" where
  "parse_request req =
     (let (method, rest) = scan_word 15 req in
      if method = [] then None
      else let (path, rest) = scan_word 127 rest in if path = [] then None else Some (method, path))"

section \<open>Answering\<close>

text \<open>The loads of one request, in the order of the code.\<close>

record web_view =
  v_state :: fsm_context
  v_name :: fsm_context
  v_mpu_fails :: i32
  v_i2c_retries :: i32
  v_metrics :: metrics
  v_temp_raw :: i32
  v_hum_raw :: i32
  v_dead_thread :: int
  v_monitor_alive :: int

definition state_color :: "int \<Rightarrow> string" where
  "state_color state =
     (if state = state_code STATE_RUNNING then ''green''
      else if state = state_code STATE_DEGRADED then ''orange''
      else if state = state_code STATE_RECOVERING then ''blue''
      else if state = state_code STATE_FAULT then ''red'' else ''gray'')"

definition metrics_answer :: "web_view \<Rightarrow> int list \<Rightarrow> web_fault + string \<times> int list" where
  "metrics_answer v answers =
     (case (fsm_get_state_name (v_name v), calc_latency_percentile (v_metrics v)) of
        (Some state_str, Some (p50, p99)) \<Rightarrow>
          let (body_len, body) = snprintf 8192
                (metrics_text (fsm_get_state (v_state v)) state_str (sint (v_mpu_fails v)) (sint (v_i2c_retries v))
                  (sint (v_temp_raw v)) (sint (v_hum_raw v)) p50 p99 (v_dead_thread v) (v_monitor_alive v));
              body_len = (if 8192 \<le> body_len then 8191 else body_len) in
          send_http_response 200 ''text/plain; charset=utf-8'' body body_len answers
      | _ \<Rightarrow> Inl Overread)"

definition page_answer :: "web_view \<Rightarrow> int list \<Rightarrow> web_fault + string \<times> int list" where
  "page_answer v answers =
     (case fsm_get_state_name (v_state v) of
        None \<Rightarrow> Inl Overread
      | Some state_str \<Rightarrow>
          let (body_len, body) = snprintf 4096
                (page_text (state_color (fsm_get_state (v_state v))) state_str (sint (v_temp_raw v)) (sint (v_hum_raw v))
                  (sint (v_mpu_fails v)) (sint (v_i2c_retries v))) in
          send_http_response 200 ''text/html; charset=utf-8'' body body_len answers)"

definition not_found :: string where "not_found = ''404 Not Found'' @ nl"

definition answer_path :: "string \<Rightarrow> web_view \<Rightarrow> int list \<Rightarrow> web_fault + string \<times> int list" where
  "answer_path path v answers =
     (if path = ''/metrics'' then metrics_answer v answers
      else if path = ''/'' then page_answer v answers
      else send_http_response 404 ''text/plain'' not_found (length not_found) answers)"

section \<open>The thread\<close>

text \<open>
  One round of the loop: what \<open>accept\<close> and \<open>recv\<close> answer, the bytes received, the loads, the
  answers of \<open>send\<close>.
\<close>

record web_request =
  wr_accept :: int
  wr_recv :: int
  wr_bytes :: string
  wr_view :: web_view
  wr_sends :: "int list"

text \<open>The heartbeat, the descriptors the thread holds, and what each connection was sent.\<close>

record web =
  g_http_heartbeat :: u64
  web_held :: "resource list"
  web_sent :: "string list"

definition feed_http :: "web \<Rightarrow> web" where
  "feed_http w = w\<lparr>g_http_heartbeat := g_http_heartbeat w + 1\<rparr>"

definition close_client :: "int \<Rightarrow> web \<Rightarrow> web" where
  "close_client client w = w\<lparr>web_held := remove1 (Fd client) (web_held w)\<rparr>"

text \<open>The request as the C string \<open>req\<close>: the bytes received, up to the first zero byte.\<close>

definition request_string :: "web_request \<Rightarrow> string" where
  "request_string r = takeWhile (\<lambda>c. c \<noteq> CHR 0x00) (take (nat (wr_recv r)) (wr_bytes r))"

definition serve_client :: "web_request \<Rightarrow> web \<Rightarrow> web_fault + web" where
  "serve_client r w =
     (let client = wr_accept r in
      if client < 0 then Inr w
      else
        let w = w\<lparr>web_held := Fd client # web_held w\<rparr> in
        if wr_recv r \<le> 0 then Inr (close_client client w)
        else case parse_request (request_string r) of
          None \<Rightarrow> Inr (close_client client w)
        | Some (method, path) \<Rightarrow>
            (case answer_path path (wr_view r) (wr_sends r) of
               Inl e \<Rightarrow> Inl e
             | Inr (out, rest) \<Rightarrow> Inr (close_client client (feed_http (w\<lparr>web_sent := web_sent w @ [out]\<rparr>)))))"

definition web_round :: "web_request \<Rightarrow> web \<Rightarrow> web_fault + web" where
  "web_round r w = serve_client r (feed_http w)"

fun web_loop :: "web_request list \<Rightarrow> web \<Rightarrow> web_fault + web" where
  "web_loop [] w = Inr w"
| "web_loop (r # rs) w = (case web_round r w of Inl e \<Rightarrow> Inl e | Inr w' \<Rightarrow> web_loop rs w')"

text \<open>The thread up to its loop: whether it gets there, and what it holds.\<close>

record web_env =
  we_os :: thread_os
  we_socket :: int
  we_bind :: int
  we_getfl :: int
  we_setfl :: int
  we_listen :: int

definition web_start :: "web_env \<Rightarrow> resource list \<Rightarrow> bool \<times> resource list" where
  "web_start e held =
     (if \<not> thread_setup (we_os e) MAIN_CPU_CORE MAIN_SCHED_POLICY MAIN_PRIORITY then (False, held)
      else if we_socket e < 0 then (False, held)
      else
        let server = Fd (we_socket e); held = server # held in
        if we_bind e < 0 then (False, remove1 server held)
        else if we_getfl e < 0 then (False, remove1 server held)
        else if we_setfl e < 0 then (False, remove1 server held)
        else if we_listen e < 0 then (False, remove1 server held)
        else (True, held))"

section \<open>The sending loop ends\<close>

lemma send_all_positive:
  "\<forall>n\<in>set answers. 1 \<le> n \<Longrightarrow> length data \<le> length answers \<Longrightarrow>
    \<exists>rest. send_all data answers = Some (True, data, rest) \<and> (\<forall>n\<in>set rest. 1 \<le> n)
      \<and> length answers \<le> length rest + length data"
proof (induction data answers rule: send_all.induct)
  case (3 c cs n answers)
  then obtain rest where rest: "send_all (drop (nat n) (c # cs)) answers = Some (True, drop (nat n) (c # cs), rest)"
    "\<forall>n\<in>set rest. 1 \<le> n" "length answers \<le> length rest + length (drop (nat n) (c # cs))"
    by fastforce
  have "Suc (length (drop (nat n) (c # cs))) \<le> length (c # cs)"
    using 3(2) by (cases "nat n") auto
  then show ?case
    using 3(2) rest by (auto simp del: take_Cons drop_Cons simp: append_take_drop_id)
qed auto

text \<open>A client to which nothing can be sent, without an error, holds the loop for ever.\<close>

lemma send_all_zero: "data \<noteq> [] \<Longrightarrow> send_all data (replicate k 0) = None"
  by (induction k; cases data) simp_all

text \<open>The answers a client that reads gives: every \<open>send\<close> takes at least a byte, \<open>k\<close> of them.\<close>

definition reads_on :: "nat \<Rightarrow> int list \<Rightarrow> bool" where
  "reads_on k answers \<longleftrightarrow> k \<le> length answers \<and> (\<forall>n\<in>set answers. 1 \<le> n)"

lemma send_all_reads_on:
  assumes "reads_on (length data + k) answers"
  obtains rest where "send_all data answers = Some (True, data, rest)" "reads_on k rest"
  using send_all_positive [of answers data] assms by (auto simp: reads_on_def)

lemma http_header_length:
  assumes "length content_type \<le> 40" and "body_len < 10000"
  shows "length (http_header status content_type body_len) < 200"
  using length_string_of_nat [of body_len 3] assms by (simp add: http_header_def Let_def crlf_def)

lemma send_http_response_ok:
  assumes "length content_type \<le> 40" and "length body < 10000" and "reads_on (200 + length body) answers"
  shows "\<exists>rest. send_http_response status content_type body (length body) answers =
    Inr (http_header status content_type (length body) @ body, rest)"
proof -
  let ?h = "http_header status content_type (length body)"
  have h: "length ?h < 200"
    by (rule http_header_length [OF assms(1,2)])
  obtain k where k: "length ?h + (length body + k) = 200 + length body"
    using h by (metis add.assoc add.commute le_Suc_ex less_imp_le)
  obtain rest where rest: "send_all ?h answers = Some (True, ?h, rest)" "reads_on (length body + k) rest"
    using send_all_reads_on [of ?h "length body + k" answers] assms(3) k by metis
  obtain rest' where "send_all body rest = Some (True, body, rest')"
    using send_all_reads_on [OF rest(2)] by blast
  then show ?thesis
    using h rest(1) by (simp add: send_http_response_def snprintf_def with_nul_def)
qed

section \<open>The answers\<close>

lemma state_color_short: "length (state_color k) \<le> 6"
  by (simp add: state_color_def)

lemma state_name_short: "fsm_get_state_name c = Some n \<Longrightarrow> length n \<le> 10 \<and> upper_name n"
proof -
  assume n: "fsm_get_state_name c = Some n"
  have "\<forall>n\<in>set state_name. length n \<le> 10 \<and> upper_name n"
    by (simp add: state_name_def upper_name_def)
  moreover have "n \<in> set state_name"
    using n by (auto simp: fsm_get_state_name_def Let_def nth_mem split: if_splits)
  ultimately show ?thesis by blast
qed

lemma state_name_total: "\<exists>n. fsm_get_state_name c = Some n"
  using state_code_range [of "fsm_state c"]
  by (auto simp: fsm_get_state_name_def fsm_get_state_eq Let_def state_name_def STATE_MAX_def)

text \<open>
  What a view must satisfy: the loads of the latency window see 32-bit values and a count that is
  not negative, at whatever moments of the recording they are made, and the two numbers of the
  watchdog are 32-bit.
\<close>

definition view_ok :: "web_view \<Rightarrow> bool" where
  "view_ok v \<longleftrightarrow> length (g_latency_window (v_metrics v)) = LATENCY_WINDOW_SIZE
    \<and> (\<forall>x\<in>set (g_latency_window (v_metrics v)). int32 x) \<and> 0 \<le> sint (g_latency_count (v_metrics v))
    \<and> int32 (v_dead_thread v) \<and> int32 (v_monitor_alive v)"

lemma percentiles_int32:
  assumes "view_ok v"
  obtains p50 p99 where "calc_latency_percentile (v_metrics v) = Some (p50, p99)" "int32 p50" "int32 p99"
proof -
  obtain p50 p99 where p: "calc_latency_percentile (v_metrics v) = Some (p50, p99)"
    "p50 \<in> insert 0 (set (g_latency_window (v_metrics v)))" "p99 \<in> insert 0 (set (g_latency_window (v_metrics v)))"
    using percentiles_in_window [of "v_metrics v"] assms unfolding view_ok_def by blast
  moreover have "int32 x" if "x \<in> insert 0 (set (g_latency_window (v_metrics v)))" for x
    using that assms by (auto simp: view_ok_def int32_def)
  ultimately show ?thesis
    using that by blast
qed

text \<open>The answer a client should get: the header with the exact length, then the whole body.\<close>

definition http_answer :: "nat \<Rightarrow> string \<Rightarrow> string \<Rightarrow> string" where
  "http_answer status content_type body = http_header status content_type (length body) @ body"

definition expected_answer :: "string \<Rightarrow> web_view \<Rightarrow> string" where
  "expected_answer path v =
     (if path = ''/metrics'' then
        (let p = the (calc_latency_percentile (v_metrics v)) in
         http_answer 200 ''text/plain; charset=utf-8''
           (metrics_text (fsm_get_state (v_state v)) (the (fsm_get_state_name (v_name v)))
             (sint (v_mpu_fails v)) (sint (v_i2c_retries v)) (sint (v_temp_raw v)) (sint (v_hum_raw v))
             (fst p) (snd p) (v_dead_thread v) (v_monitor_alive v)))
      else if path = ''/'' then
        http_answer 200 ''text/html; charset=utf-8''
          (page_text (state_color (fsm_get_state (v_state v))) (the (fsm_get_state_name (v_state v)))
            (sint (v_temp_raw v)) (sint (v_hum_raw v)) (sint (v_mpu_fails v)) (sint (v_i2c_retries v)))
      else http_answer 404 ''text/plain'' not_found)"

lemma reads_on_less: "reads_on k answers \<Longrightarrow> j \<le> k \<Longrightarrow> reads_on j answers"
  by (simp add: reads_on_def)

lemma fsm_get_state_int32: "int32 (fsm_get_state c)"
  using state_code_range [of "fsm_state c"] by (simp add: fsm_get_state_eq int32_def STATE_MAX_def)

lemma metrics_answer_ok:
  assumes "view_ok v" and "reads_on 3600 answers"
  shows "\<exists>rest. metrics_answer v answers = Inr (expected_answer ''/metrics'' v, rest)"
proof -
  obtain p50 p99 where p: "calc_latency_percentile (v_metrics v) = Some (p50, p99)" "int32 p50" "int32 p99"
    by (rule percentiles_int32 [OF assms(1)])
  obtain n where n: "fsm_get_state_name (v_name v) = Some n"
    using state_name_total by blast
  define body where "body = metrics_text (fsm_get_state (v_state v)) n (sint (v_mpu_fails v)) (sint (v_i2c_retries v))
    (sint (v_temp_raw v)) (sint (v_hum_raw v)) p50 p99 (v_dead_thread v) (v_monitor_alive v)"
  have "length body < 1300"
    using state_name_short [OF n] p(2,3) assms(1)
    unfolding body_def by (intro metrics_text_length int32_sint fsm_get_state_int32) (simp_all add: view_ok_def)
  then show ?thesis
    using send_http_response_ok [of "''text/plain; charset=utf-8''" body answers 200] n p(1)
      reads_on_less [OF assms(2), of "200 + length body"]
    by (simp add: metrics_answer_def expected_answer_def http_answer_def snprintf_def Let_def flip: body_def)
qed

lemma page_answer_ok:
  assumes "reads_on 3600 answers"
  shows "\<exists>rest. page_answer v answers = Inr (expected_answer ''/'' v, rest)"
proof -
  obtain n where n: "fsm_get_state_name (v_state v) = Some n"
    using state_name_total by blast
  define body where "body = page_text (state_color (fsm_get_state (v_state v))) n (sint (v_temp_raw v))
    (sint (v_hum_raw v)) (sint (v_mpu_fails v)) (sint (v_i2c_retries v))"
  have "length body < 3400"
    using state_name_short [OF n] state_color_short
    unfolding body_def by (intro page_text_length int32_sint) simp_all
  then show ?thesis
    using send_http_response_ok [of "''text/html; charset=utf-8''" body answers 200] n
      reads_on_less [OF assms, of "200 + length body"]
    by (simp add: page_answer_def expected_answer_def http_answer_def snprintf_def Let_def flip: body_def)
qed

lemma answer_path_ok:
  assumes "view_ok v" and "reads_on 3600 answers"
  shows "\<exists>rest. answer_path path v answers = Inr (expected_answer path v, rest)"
proof -
  have "length not_found = 14"
    by (simp add: not_found_def nl_def)
  moreover have "\<exists>rest. send_http_response 404 ''text/plain'' not_found (length not_found) answers
      = Inr (http_answer 404 ''text/plain'' not_found, rest)"
    using send_http_response_ok [of "''text/plain''" not_found answers 404] calculation
      reads_on_less [OF assms(2), of 214] by (simp add: http_answer_def)
  ultimately show ?thesis
    using metrics_answer_ok [OF assms] page_answer_ok [OF assms(2), of v]
    by (simp add: answer_path_def expected_answer_def)
qed

text \<open>The requests of a run: every client that is answered reads on, every view is proper.\<close>

definition request_ok :: "web_request \<Rightarrow> bool" where
  "request_ok r \<longleftrightarrow> view_ok (wr_view r) \<and> reads_on 3600 (wr_sends r)"

declare request_ok_def [ok_simps] view_ok_def [ok_simps]

text \<open>The path of a round that is answered.\<close>

definition answered_path :: "web_request \<Rightarrow> string option" where
  "answered_path r =
     (if wr_accept r < 0 \<or> wr_recv r \<le> 0 then None else map_option snd (parse_request (request_string r)))"

lemma serve_client_ok:
  assumes "request_ok r"
  shows "serve_client r w = Inr (case answered_path r of
      None \<Rightarrow> w
    | Some path \<Rightarrow> feed_http w\<lparr>web_sent := web_sent w @ [expected_answer path (wr_view r)]\<rparr>)"
proof -
  obtain f where "\<And>path. answer_path path (wr_view r) (wr_sends r) = Inr (expected_answer path (wr_view r), f path)"
    using answer_path_ok [of "wr_view r" "wr_sends r"] assms unfolding request_ok_def by metis
  then show ?thesis
    by (auto simp: serve_client_def Let_def answered_path_def close_client_def feed_http_def
        split: option.split prod.split)
qed

lemma web_round_ok:
  assumes "request_ok r"
  shows "web_round r w = Inr (case answered_path r of
      None \<Rightarrow> feed_http w
    | Some path \<Rightarrow> feed_http (feed_http w)\<lparr>web_sent := web_sent w @ [expected_answer path (wr_view r)]\<rparr>)"
  using serve_client_ok [OF assms, of "feed_http w"]
  by (simp add: web_round_def feed_http_def split: option.split)

lemma web_loop_ok:
  "\<forall>r\<in>set rs. request_ok r \<Longrightarrow> \<exists>w'. web_loop rs w = Inr w' \<and> web_held w' = web_held w
    \<and> g_http_heartbeat w' = g_http_heartbeat w + of_nat (length rs + length (filter (\<lambda>r. answered_path r \<noteq> None) rs))
    \<and> web_sent w' = web_sent w @ concat (map (\<lambda>r. case answered_path r of None \<Rightarrow> [] | Some path \<Rightarrow> [expected_answer path (wr_view r)]) rs)"
proof (induction rs arbitrary: w)
  case (Cons r rs)
  then have r: "request_ok r" "\<forall>r\<in>set rs. request_ok r"
    by simp_all
  show ?case
  proof (cases "answered_path r")
    case None
    then show ?thesis
      using Cons.IH [OF r(2), of "feed_http w"] web_round_ok [OF r(1), of w]
      by (auto simp: feed_http_def algebra_simps)
  next
    case (Some path)
    let ?w = "feed_http (feed_http w)\<lparr>web_sent := web_sent w @ [expected_answer path (wr_view r)]\<rparr>"
    show ?thesis
      using Cons.IH [OF r(2), of ?w] web_round_ok [OF r(1), of w] Some
      by (auto simp: feed_http_def algebra_simps)
  qed
qed simp

text \<open>The thread meets the contract of the monitor: one or two beats a round.\<close>

definition web_run :: "web_request list \<Rightarrow> web \<Rightarrow> web option" where
  "web_run rs w = (case web_loop rs w of Inl _ \<Rightarrow> None | Inr w' \<Rightarrow> Some w')"

interpretation web_beats: heartbeat_source web_run g_http_heartbeat "\<lambda>_ _. True" request_ok "2 ^ 62"
proof
  fix n and w :: web and rs
  let ?k = "length rs + length (filter (\<lambda>r. answered_path r \<noteq> None) rs)"
  assume "rs \<noteq> []" "\<forall>r\<in>set rs. request_ok r" "n + length rs \<le> 2 ^ 62"
  moreover have "2 * 2 ^ 62 < (2 ^ 64 :: nat)"
    by simp
  ultimately have "0 < ?k" "?k < 2 ^ 64"
    using length_filter_le [of "\<lambda>r. answered_path r \<noteq> None" rs] by (simp, linarith)
  moreover obtain w' where "web_loop rs w = Inr w'" "g_http_heartbeat w' = g_http_heartbeat w + of_nat ?k"
    using web_loop_ok [OF \<open>\<forall>r\<in>set rs. request_ok r\<close>] by blast
  ultimately show "\<exists>w' k. web_run rs w = Some w' \<and> True
    \<and> g_http_heartbeat w' = g_http_heartbeat w + of_nat k \<and> 0 < k \<and> k < 2 ^ 64"
    by (intro exI [of _ w'] exI [of _ ?k]) (simp add: web_run_def)
qed

section \<open>Properties\<close>

text \<open>
  C11. The web thread serves every request and never hangs on one that reads: over any run of
  connections, accepted or not, silent or not, with any bytes as request, each connection that
  sends a request line gets exactly one answer, in order: the header with the exact length, then
  the whole exposition, page or 404 text and nothing of the memory after it. Every descriptor is
  closed, and the heartbeat moves in every round.
\<close>

theorem web_serves:
  assumes "\<forall>r\<in>set rs. request_ok r"
  shows "\<exists>w'. web_loop rs w = Inr w' \<and> web_held w' = web_held w
    \<and> g_http_heartbeat w' = g_http_heartbeat w + of_nat (length rs + length (filter (\<lambda>r. answered_path r \<noteq> None) rs))
    \<and> web_sent w' = web_sent w @ concat (map (\<lambda>r. case answered_path r of None \<Rightarrow> [] | Some path \<Rightarrow> [expected_answer path (wr_view r)]) rs)"
  by (rule web_loop_ok [OF assms])

definition idle_view :: web_view where
  "idle_view = \<lparr>v_state = zero_fsm_context, v_name = zero_fsm_context, v_mpu_fails = 0, v_i2c_retries = 0,
     v_metrics = metrics_start, v_temp_raw = 21450, v_hum_raw = 45000, v_dead_thread = 0, v_monitor_alive = 0\<rparr>"

definition web_request_of :: "int \<Rightarrow> string \<Rightarrow> web_request" where
  "web_request_of client bytes =
     \<lparr>wr_accept = client, wr_recv = int (length bytes), wr_bytes = bytes, wr_view = idle_view,
      wr_sends = replicate 3600 1\<rparr>"

definition idle_web :: web where
  "idle_web = \<lparr>g_http_heartbeat = 0, web_held = [Fd 4], web_sent = []\<rparr>"

lemma web_request_of_ok: "request_ok (web_request_of client bytes)"
  by (auto simp: ok_simps web_request_of_def idle_view_def metrics_start_def LATENCY_WINDOW_SIZE_def reads_on_def int32_def)

lemma answered_examples:
  "answered_path (web_request_of 5 ''GET /none HTTP/1.1'') = Some ''/none''"
  "answered_path (web_request_of 6 ''GET'') = None" "answered_path (web_request_of (-1) []) = None"
  by (simp_all add: answered_path_def web_request_of_def request_string_def parse_request_def scan_word_def
      is_space_def Let_def)

theorem web_serves_witness:
  "\<exists>w'. web_loop [web_request_of (-1) [], web_request_of 5 ''GET /none HTTP/1.1'', web_request_of 6 ''GET''] idle_web = Inr w'
    \<and> web_held w' = [Fd 4] \<and> g_http_heartbeat w' = 4 \<and> web_sent w' = [http_answer 404 ''text/plain'' not_found]"
  using web_serves [of "[web_request_of (-1) [], web_request_of 5 ''GET /none HTTP/1.1'', web_request_of 6 ''GET'']" idle_web]
    web_request_of_ok answered_examples
  by (simp add: idle_web_def expected_answer_def)

text \<open>
  C25. The sending loop ends for a client that takes bytes: if every \<open>send\<close> takes at least one, it
  sends all of them in at most as many calls as there are bytes; the first error ends it at once;
  and answers of zero alone never end it, however many there are.
\<close>

theorem send_loop_ends:
  assumes "data \<noteq> []" and "reads_on (length data) answers" and "n < 0"
  shows "(\<exists>rest. send_all data answers = Some (True, data, rest) \<and> length answers \<le> length rest + length data)
    \<and> send_all data (n # answers) = Some (False, [], answers) \<and> send_all data (replicate k 0) = None"
proof -
  have "send_all data (n # answers) = Some (False, [], answers)"
    using assms(1,3) by (cases data) simp_all
  then show ?thesis
    using send_all_positive [of answers data] send_all_zero [OF assms(1)] assms(2) by (auto simp: reads_on_def)
qed

theorem send_loop_ends_witness:
  "(\<exists>rest. send_all ''abc'' [2, 1, 5] = Some (True, ''abc'', rest))
    \<and> send_all ''abc'' [-1, 2, 1, 5] = Some (False, [], [2, 1, 5]) \<and> send_all ''abc'' (replicate 50 0) = None"
  using send_loop_ends [of "''abc''" "[2, 1, 5]" "-1" 50] by (auto simp: reads_on_def)

text \<open>
  The start of the thread leaks nothing: it holds the listening socket exactly when it goes on
  to its loop, and whatever fails before that, every descriptor it opened is closed again.
\<close>

theorem web_start_exact:
  "web_start e held =
    (let ok = thread_setup (we_os e) MAIN_CPU_CORE MAIN_SCHED_POLICY MAIN_PRIORITY \<and> 0 \<le> we_socket e \<and> 0 \<le> we_bind e \<and> 0 \<le> we_getfl e
        \<and> 0 \<le> we_setfl e \<and> 0 \<le> we_listen e in
     (ok, if ok then Fd (we_socket e) # held else held))"
  by (auto simp: web_start_def Let_def)

end
