(* ===== verification/Main_App.thy ===== *)
theory Main_App
  imports Fsm Db_Manager Modbus_Server Web Watchdog
begin

text \<open>
  \<open>main\<close> of \<open>app/main.c\<close>: the order in which the components are started, the exits on failure,
  and what happens when the two threads it waits for are done. The threads themselves are in the
  theories of their components; here a thread is the fact that it was created.
\<close>

section \<open>State\<close>

datatype app_thread = Collector_thread | Web_thread | Watchdog_thread

text \<open>The state every thread shares, as \<open>main\<close> leaves it, and the file of the update service.\<close>

record ('v, 'w) app =
  a_test_mode :: bool
  a_fsm :: fsm_context
  a_db :: "('v, 'w) db_state"
  a_modbus :: modbus_module
  a_threads :: "app_thread list"
  a_ota_flag :: bool

text \<open>The arguments of the program and what the calls of \<open>main\<close> answer.\<close>

record main_env =
  argv :: "string list"
  e_mutex_ok :: bool
  e_cond_ok :: bool
  e_collector_rc :: int
  e_web_rc :: int
  e_watchdog_rc :: int
  e_new_ctx :: "nat option"
  e_new_mapping :: "nat option"
  e_modbus_rc :: int
  e_flag_opens :: bool

text \<open>\<open>main\<close> either exits with a code or goes on to wait for its threads.\<close>

datatype outcome_of_main = Exits int | Waits

definition EXIT_FAILURE :: int where "EXIT_FAILURE = 1"

section \<open>Starting\<close>

definition set_test_mode :: "string list \<Rightarrow> ('v, 'w) app \<Rightarrow> ('v, 'w) app" where
  "set_test_mode args a =
     (if 1 < length args \<and> args ! 1 = ''--test-watchdog'' then a\<lparr>a_test_mode := True\<rparr> else a)"

definition create :: "app_thread \<Rightarrow> int \<Rightarrow> ('v, 'w) app \<Rightarrow> outcome_of_main \<times> ('v, 'w) app" where
  "create t rc a = (if rc \<noteq> 0 then (Exits EXIT_FAILURE, a) else (Waits, a\<lparr>a_threads := a_threads a @ [t]\<rparr>))"

text \<open>The part from the creation of the threads on.\<close>

definition start_threads :: "main_env \<Rightarrow> ('v, 'w) app \<Rightarrow> outcome_of_main \<times> ('v, 'w) app" where
  "start_threads e a =
     (case create Collector_thread (e_collector_rc e) a of
        (Exits n, a) \<Rightarrow> (Exits n, a)
      | (Waits, a) \<Rightarrow>
     (case create Web_thread (e_web_rc e) a of
        (Exits n, a) \<Rightarrow> (Exits n, a)
      | (Waits, a) \<Rightarrow>
     (case create Watchdog_thread (e_watchdog_rc e) a of
        (Exits n, a) \<Rightarrow> (Exits n, a)
      | (Waits, a) \<Rightarrow>
          let (rc, m) = modbus_server_start (e_new_ctx e) (e_new_mapping e) (e_modbus_rc e) (a_modbus a);
              a = a\<lparr>a_modbus := m\<rparr> in
          if rc \<noteq> 0 then (Exits EXIT_FAILURE, a)
          else (Waits, if e_flag_opens e then a\<lparr>a_ota_flag := True\<rparr> else a))))"

text \<open>\<open>None\<close> is undefined behaviour: a NULL column of SQLite, a corrupted state.\<close>

definition main_start ::
  "('v, 'w) sqlite \<Rightarrow> main_env \<Rightarrow> ('v, 'w) app \<Rightarrow> (outcome_of_main \<times> ('v, 'w) app) option" where
  "main_start api e a =
     (let a = set_test_mode (argv e) a in
      case fsm_init (e_mutex_ok e) (e_cond_ok e) (Some (a_fsm a)) of
        (_, None) \<Rightarrow> None
      | (rc, Some ctx) \<Rightarrow>
          let a = a\<lparr>a_fsm := ctx\<rparr> in
          if rc \<noteq> 0 then Some (Exits EXIT_FAILURE, a)
          else
            let (rc, d) = run_state (db_init api) (a_db a); a = a\<lparr>a_db := d\<rparr> in
            if rc \<noteq> 0 then Some (Exits EXIT_FAILURE, a)
            else
              let (rc, d) = run_state (db_check_and_repair api) (a_db a); a = a\<lparr>a_db := d\<rparr> in
              (case rc of
                 None \<Rightarrow> None
               | Some rc \<Rightarrow>
                   if rc \<noteq> 0 then Some (Exits EXIT_FAILURE, a)
                   else
                     (case fsm_transition (Some (a_fsm a)) EVENT_INIT_OK of
                        Some (_, Some ctx) \<Rightarrow> Some (start_threads e (a\<lparr>a_fsm := ctx\<rparr>))
                      | _ \<Rightarrow> None)))"

section \<open>The end\<close>

text \<open>After the collector and the web thread: the Modbus server is stopped, the database closed.\<close>

definition main_finish ::
  "('v, 'w) sqlite \<Rightarrow> (string \<Rightarrow> 'x \<Rightarrow> int \<times> 'x) \<Rightarrow> nat \<Rightarrow> ('v, 'w) app \<times> 'x \<Rightarrow> (('v, 'w) app \<times> 'x) option" where
  "main_finish api system fuel ax =
     (case modbus_server_stop system fuel (a_modbus (fst ax), snd ax) of
        None \<Rightarrow> None
      | Some (m, x) \<Rightarrow>
          Some ((fst ax)\<lparr>a_modbus := m, a_db := snd (run_state (db_close api) (a_db (fst ax)))\<rparr>, x))"

section \<open>What the start establishes\<close>

lemma start_threads_outcome:
  "start_threads e a = (out, a') \<Longrightarrow> a_threads a = [] \<Longrightarrow>
    a_fsm a' = a_fsm a \<and> a_db a' = a_db a
    \<and> (\<exists>k \<le> 3. a_threads a' = take k [Collector_thread, Web_thread, Watchdog_thread])
    \<and> (out = Waits \<or> out = Exits EXIT_FAILURE)
    \<and> (out = Waits \<longrightarrow> a_threads a' = [Collector_thread, Web_thread, Watchdog_thread]
        \<and> modbus_server_start (e_new_ctx e) (e_new_mapping e) (e_modbus_rc e) (a_modbus a) = (0, a_modbus a'))"
  unfolding start_threads_def create_def Let_def
  by (auto split: if_splits prod.splits intro: exI [of _ 0] exI [of _ 1] exI [of _ 2] exI [of _ 3])

text \<open>What SQLite documents of \<open>sqlite3_open\<close>: a successful call answers a connection.\<close>

definition opens_ok :: "('v, 'w) sqlite \<Rightarrow> bool" where
  "opens_ok api \<longleftrightarrow> (\<forall>path w. fst (fst (run_state (sqlite3_open api path) w)) = SQLITE_OK
     \<longrightarrow> snd (fst (run_state (sqlite3_open api path) w)) \<noteq> None)"

text \<open>What the operations of the start leave alone: the batch, but for the count that \<open>db_init\<close> clears.\<close>

lemma exec_each_keeps:
  "batch_buffer (snd (run_state (exec_each api sqls) st)) = batch_buffer st"
  "batch_count (snd (run_state (exec_each api sqls) st)) = batch_count st"
  "db (snd (run_state (exec_each api sqls) st)) = db st"
  by (induction sqls arbitrary: st) (simp_all add: Let_def split_beta)

lemma db_init_keeps:
  "batch_buffer (snd (run_state (db_init api) st)) = batch_buffer st"
  "fst (run_state (db_init api) st) = 0 \<Longrightarrow> batch_count (snd (run_state (db_init api) st)) = 0"
  "opens_ok api \<Longrightarrow> fst (run_state (db_init api) st) = 0 \<Longrightarrow> db (snd (run_state (db_init api) st)) \<noteq> None"
  unfolding opens_ok_def
  by (auto simp: db_init_def exec_each_keeps split_beta split: if_splits)

lemma restore_backup_keeps:
  "batch_buffer (snd (run_state (restore_backup api) st)) = batch_buffer st"
  "batch_count (snd (run_state (restore_backup api) st)) = batch_count st"
  "opens_ok api \<Longrightarrow> fst (run_state (restore_backup api) st) = 0 \<Longrightarrow> db (snd (run_state (restore_backup api) st)) \<noteq> None"
  unfolding opens_ok_def
  by (auto simp: restore_backup_def split_beta split: if_splits)

lemma db_check_and_repair_keeps:
  "batch_buffer (snd (run_state (db_check_and_repair api) st)) = batch_buffer st"
  "batch_count (snd (run_state (db_check_and_repair api) st)) = batch_count st"
  by (auto simp: db_check_and_repair_def restore_backup_keeps split_beta split: if_splits option.splits)

lemma db_check_and_repair_open:
  assumes "opens_ok api" and "fst (run_state (db_check_and_repair api) st) = Some 0" and "db st \<noteq> None"
  shows "db (snd (run_state (db_check_and_repair api) st)) \<noteq> None"
  using assms(2,3) restore_backup_keeps(3) [OF assms(1)]
  unfolding db_check_and_repair_def
  by (simp add: split_beta split: if_splits option.splits del: not_None_eq)

lemma set_test_mode_simps [simp]:
  "a_fsm (set_test_mode args a) = a_fsm a" "a_db (set_test_mode args a) = a_db a"
  "a_modbus (set_test_mode args a) = a_modbus a" "a_threads (set_test_mode args a) = a_threads a"
  by (simp_all add: set_test_mode_def)

text \<open>What a thread may rely on: the machine is running with clean counters, the database is open.\<close>

definition booted :: "('v, 'w) app \<Rightarrow> bool" where
  "booted a \<longleftrightarrow> fsm_ok (a_fsm a) \<and> fsm_state (a_fsm a) = STATE_RUNNING
    \<and> mpu_fail_count (a_fsm a) = 0 \<and> i2c_retry_count (a_fsm a) = 0
    \<and> db_ok (a_db a) \<and> db (a_db a) \<noteq> None \<and> batch_count (a_db a) = 0"

lemma init_ok_running:
  "\<exists>ctx. fsm_transition (Some (zero_fsm_context\<lparr>current := state_code STATE_INIT\<rparr>)) EVENT_INIT_OK = Some (0, Some ctx)
    \<and> fsm_ok ctx \<and> fsm_state ctx = STATE_RUNNING \<and> mpu_fail_count ctx = 0 \<and> i2c_retry_count ctx = 0"
  by (simp add: fsm_transition_def zero_fsm_context_def fsm_ok_def fsm_state_def STATE_MAX_def code_state_def)

lemma main_start_cases:
  assumes "main_start api e a = Some (out, a')" and "opens_ok api" and "length (batch_buffer (a_db a)) = BATCH_SIZE"
    and "a_threads a = []"
  shows "out = Exits EXIT_FAILURE \<and> a_threads a' = []
    \<or> (\<exists>b. booted b \<and> a_threads b = [] \<and> a_modbus b = a_modbus a \<and> start_threads e b = (out, a'))"
proof (cases "e_mutex_ok e \<and> e_cond_ok e \<and> fst (run_state (db_init api) (a_db a)) = 0
    \<and> fst (run_state (db_check_and_repair api) (snd (run_state (db_init api) (a_db a)))) = Some 0")
  case False
  then show ?thesis
    using assms(1,4)
    by (auto simp: main_start_def fsm_init_def Let_def split_beta split: if_splits option.splits prod.splits)
next
  case True
  define d where "d = snd (run_state (db_check_and_repair api) (snd (run_state (db_init api) (a_db a))))"
  obtain ctx where ctx: "fsm_transition (Some (zero_fsm_context\<lparr>current := state_code STATE_INIT\<rparr>)) EVENT_INIT_OK = Some (0, Some ctx)"
    "fsm_ok ctx" "fsm_state ctx = STATE_RUNNING" "mpu_fail_count ctx = 0" "i2c_retry_count ctx = 0"
    using init_ok_running by blast
  have clean: "zero_fsm_context\<lparr>current := state_code STATE_INIT, mpu_fail_count := 0, i2c_retry_count := 0,
      temp_raw := 0, hum_raw := 0\<rparr> = zero_fsm_context\<lparr>current := state_code STATE_INIT\<rparr>"
    by (simp add: zero_fsm_context_def)
  let ?b = "(set_test_mode (argv e) a)\<lparr>a_db := d, a_fsm := ctx\<rparr>"
  have "start_threads e ?b = (out, a')"
    using assms(1) True ctx(1) clean
    by (simp add: main_start_def fsm_init_def Let_def split_beta d_def)
  moreover have "length (batch_buffer d) = BATCH_SIZE" "batch_count d = 0" "db d \<noteq> None"
    using assms(2,3) True db_init_keeps [of api "a_db a"] db_check_and_repair_keeps [of api "snd (run_state (db_init api) (a_db a))"]
      db_check_and_repair_open [OF assms(2)] by (simp_all add: d_def)
  then have "booted ?b"
    using ctx by (simp add: booted_def db_ok_def)
  moreover have "a_threads ?b = []" "a_modbus ?b = a_modbus a"
    using assms(4) by simp_all
  ultimately show ?thesis
    by blast
qed

section \<open>Properties\<close>

text \<open>
  C19. No thread starts on an unready system: when \<open>main\<close> has created any of its threads, or goes
  on to wait, the state machine is \<open>RUNNING\<close> with clean counters and the database is open with
  an empty batch. The threads are created in one order, all of them and the Modbus server if it
  waits, and every failure ends the program with \<open>EXIT_FAILURE\<close>.
\<close>

theorem main_boots:
  assumes "opens_ok api" and "length (batch_buffer (a_db a)) = BATCH_SIZE" and "a_threads a = []"
    and "main_start api e a = Some (out, a')"
  shows "(a_threads a' \<noteq> [] \<or> out = Waits \<longrightarrow> booted a')
    \<and> (\<exists>k \<le> 3. a_threads a' = take k [Collector_thread, Web_thread, Watchdog_thread])
    \<and> (out = Waits \<longrightarrow> length (a_threads a') = 3
        \<and> modbus_server_start (e_new_ctx e) (e_new_mapping e) (e_modbus_rc e) (a_modbus a) = (0, a_modbus a'))
    \<and> (out \<noteq> Waits \<longrightarrow> out = Exits EXIT_FAILURE)"
  using main_start_cases [OF assms(4,1-3)]
proof (elim disjE exE conjE)
  assume "out = Exits EXIT_FAILURE" "a_threads a' = []"
  then show ?thesis by auto
next
  fix b
  assume b: "booted b" "a_threads b = []" "a_modbus b = a_modbus a" "start_threads e b = (out, a')"
  note started = start_threads_outcome [OF b(4,2)]
  have "booted a'"
    using b(1) started by (simp add: booted_def)
  then show ?thesis
    using started b(3) by auto
qed

text \<open>
  A system for the example: SQLite opens and answers \<open>ok\<close> to the integrity check, every call
  succeeds.
\<close>

definition healthy_sqlite :: "(int, int mem_db) sqlite" where
  "healthy_sqlite = mem_sqlite
    \<lparr>sqlite3_open := \<lambda>_. State_Monad.return (0, Some 1),
     sqlite3_prepare := \<lambda>_ sql. State_Monad.return (0, Some (if sql = insert_sensor_sql then 1 else 2)),
     sqlite3_step := \<lambda>s. if s = Some 2 then State_Monad.return SQLITE_ROW else sqlite3_step mem_sqlite s,
     sqlite3_column_text := \<lambda>_ _. State_Monad.return (Some ''ok'')\<rparr>"

definition healthy_env :: main_env where
  "healthy_env = \<lparr>argv = [''edge-omni''], e_mutex_ok = True, e_cond_ok = True, e_collector_rc = 0, e_web_rc = 0,
     e_watchdog_rc = 0, e_new_ctx = Some 1, e_new_mapping = Some 2, e_modbus_rc = 0, e_flag_opens = True\<rparr>"

definition cold_app :: "(int, int mem_db) app" where
  "cold_app = \<lparr>a_test_mode = False, a_fsm = zero_fsm_context, a_db = db_start None 0 mem_empty, a_modbus = module_start,
     a_threads = [], a_ota_flag = False\<rparr>"

lemma healthy_sqlite_works: "sqlite_works healthy_sqlite h mem_view"
  by (simp add: sqlite_works_def healthy_sqlite_def mem_sqlite_def mem_view_def mem_exec_def dead_sqlite_def
      same_rows_def par_row_def)

lemma integrity_sql [simp]: "''PRAGMA integrity_check;'' \<noteq> insert_sensor_sql"
  by (simp add: insert_sensor_sql_def)

lemma healthy_start_db:
  "\<exists>a'. main_start healthy_sqlite healthy_env cold_app = Some (Waits, a')
    \<and> db (a_db a') = Some 1 \<and> db_world (a_db a') = mem_empty"
  by (simp add: main_start_def set_test_mode_def fsm_init_def fsm_transition_def code_state_def STATE_MAX_def
      healthy_env_def cold_app_def healthy_sqlite_def mem_sqlite_def dead_sqlite_def db_init_def db_check_and_repair_def
      init_statements_def SQLITE_OK_def start_threads_def create_def modbus_server_start_def zero_fsm_context_def
      Let_def module_start_def db_start_def mem_exec_def mem_empty_def)

lemma healthy_start: "\<exists>a'. main_start healthy_sqlite healthy_env cold_app = Some (Waits, a')"
  using healthy_start_db by blast

theorem main_boots_witness:
  "\<exists>a'. main_start healthy_sqlite healthy_env cold_app = Some (Waits, a') \<and> booted a' \<and> length (a_threads a') = 3"
proof -
  obtain a' where a': "main_start healthy_sqlite healthy_env cold_app = Some (Waits, a')"
    using healthy_start by blast
  have "opens_ok healthy_sqlite"
    by (simp add: opens_ok_def healthy_sqlite_def)
  then show ?thesis
    using main_boots [OF _ _ _ a'] a' by (auto simp: cold_app_def db_start_def)
qed

text \<open>
  The end releases everything: after the program has gone on to wait, when the threads it waits
  for are done and the removal of the firewall rules ends, the Modbus objects are freed, the server
  is told to stop, the batch is written and the database is closed.
\<close>

theorem main_finish_releases:
  assumes "opens_ok api" and "length (batch_buffer (a_db a)) = BATCH_SIZE" and "a_threads a = []"
    and "main_start api e a = Some (Waits, a')" and "g_ctx (a_modbus a) = None" and "g_mb_mapping (a_modbus a) = None"
    and "iptables_ok system rules" and "count_list (rules x) clear_rule < fuel"
  shows "\<exists>b y. main_finish api system fuel (a', x) = Some (b, y) \<and> db (a_db b) = None
    \<and> g_ctx (a_modbus b) = None \<and> g_mb_mapping (a_modbus b) = None \<and> \<not> g_running (a_modbus b)
    \<and> mset (allocated (a_modbus b)) = mset (allocated (a_modbus a))"
proof -
  obtain b where b: "booted b" "a_threads b = []" "a_modbus b = a_modbus a" "start_threads e b = (Waits, a')"
    using main_start_cases [OF assms(4,1-3)] by auto
  have start: "modbus_server_start (e_new_ctx e) (e_new_mapping e) (e_modbus_rc e) (a_modbus a) = (0, a_modbus a')"
    using start_threads_outcome [OF b(4,2)] b(3) by simp
  obtain m y where stop: "modbus_server_stop system fuel (a_modbus a', x) = Some (m, y)" "g_ctx m = None"
    "g_mb_mapping m = None" "\<not> g_running m" "mset (allocated m) = mset (allocated (a_modbus a))"
    using modbus_start_stop [OF assms(5,6,7,8) start] by blast
  have "db (snd (run_state (db_close api) (a_db a'))) = None"
    by (simp add: db_close_def split_beta)
  then show ?thesis
    using stop by (simp add: main_finish_def)
qed

theorem main_finish_releases_witness:
  "\<exists>a' b y. main_start healthy_sqlite healthy_env cold_app = Some (Waits, a')
    \<and> main_finish healthy_sqlite list_system 1 (a', [ban_rule 7]) = Some (b, y) \<and> db (a_db b) = None
    \<and> allocated (a_modbus b) = []"
proof -
  obtain a' where a': "main_start healthy_sqlite healthy_env cold_app = Some (Waits, a')"
    using healthy_start by blast
  have "opens_ok healthy_sqlite" "count_list [ban_rule 7] clear_rule < 1"
    using ban_rule_not_clear_rule [of 7] by (simp_all add: opens_ok_def healthy_sqlite_def)
  then show ?thesis
    using main_finish_releases [OF _ _ _ a' _ _ list_system_ok, of "[ban_rule 7]" 1] a'
    by (fastforce simp: cold_app_def db_start_def module_start_def)
qed

end
