(* ===== verification/Readings.thy ===== *)
theory Readings
  imports Collector
begin

text \<open>
  Where the numbers the collector publishes come from: the values it keeps for the web thread and
  for the Modbus server are the ones a round of its past delivered, all of one frame of the
  humidity sensor, or the ones it was started with.
\<close>

section \<open>What the phases do to the published values\<close>

text \<open>What the collector publishes of its sensors: the context, the registers.\<close>

definition readings :: "collector \<Rightarrow> i32 \<times> i32 \<times> modbus_reg_data" where
  "readings c = (temp_raw (g_fsm c), hum_raw (g_fsm c), c_regs c)"

definition latest :: "collector \<Rightarrow> i32 \<times> i32" where
  "latest c = (latest_ax c, latest_ay c)"

lemma raise_event_frame:
  assumes "raise_event e c = Some c'"
  shows "readings c' = readings c" "latest c' = latest c"
  using assms
  by (auto simp: raise_event_def fsm_transition_def readings_def latest_def Let_def split: option.splits if_splits prod.splits)

lemma report_mpu_fail_frame:
  assumes "report_mpu_fail c = Some c'"
  shows "readings c' = readings c" "latest c' = latest c"
  using assms raise_event_frame by (auto simp: report_mpu_fail_def split: if_splits)

lemma readings_frame [simp]:
  "readings (count_mpu_fail c) = readings c" "latest (count_mpu_fail c) = latest c"
  "readings (reopen_mpu files c) = readings c" "latest (reopen_mpu files c) = latest c"
  "readings (c\<lparr>mpu_fail_streak := k, mpu_no_data_streak := l\<rparr>) = readings c"
  "latest (c\<lparr>mpu_fail_streak := k, mpu_no_data_streak := l\<rparr>) = latest c"
  "readings (c\<lparr>mpu_fail_streak := k\<rparr>) = readings c" "latest (c\<lparr>mpu_fail_streak := k\<rparr>) = latest c"
  "readings (c\<lparr>mpu_no_data_streak := l\<rparr>) = readings c" "latest (c\<lparr>mpu_no_data_streak := l\<rparr>) = latest c"
  "readings (c\<lparr>mpu_open := b\<rparr>) = readings c" "latest (c\<lparr>mpu_open := b\<rparr>) = latest c"
  "readings (c\<lparr>mpu_buf := mb\<rparr>) = readings c" "latest (c\<lparr>mpu_buf := mb\<rparr>) = latest c"
  "readings (c\<lparr>sht_buf := sb\<rparr>) = readings c" "latest (c\<lparr>sht_buf := sb\<rparr>) = latest c"
  "readings (c\<lparr>c_metrics := m\<rparr>) = readings c" "latest (c\<lparr>c_metrics := m\<rparr>) = latest c"
  "readings (beat c) = readings c" "latest (beat c) = latest c"
  "readings (publish_state c) = readings c" "latest (publish_state c) = latest c"
  by (simp_all add: readings_def latest_def count_mpu_fail_def reopen_mpu_def beat_def publish_state_def)

lemma mpu_failed_frame:
  assumes "mpu_failed i c = Some c'"
  shows "readings c' = readings c" "latest c' = latest c"
  using assms by (simp_all add: mpu_failed_def Let_def report_mpu_fail_frame)

lemma mpu_no_data_frame:
  assumes "mpu_no_data i c = Some c'"
  shows "readings c' = readings c" "latest c' = latest c"
  using assms mpu_failed_frame by (auto simp: mpu_no_data_def Let_def split: if_splits)

lemma store_mpu_readings: "store_mpu ts xs c = Some c' \<Longrightarrow> readings c' = readings c"
proof (induction ts xs c rule: store_mpu.induct)
  case (2 ts x xs c)
  then show ?case
    by (fastforce simp: readings_def Let_def split: if_splits)
qed simp

lemma mpu_data_readings:
  assumes "mpu_data i n c = Some c'"
  shows "readings c' = readings c"
  using assms raise_event_frame(1) store_mpu_readings
  by (fastforce simp: mpu_data_def Let_def split: if_splits Option.bind_splits)

text \<open>The motion sensor leaves the values of the humidity sensor alone.\<close>

lemma mpu_phase_readings:
  assumes "mpu_phase i c = Some c'"
  shows "readings c' = readings c"
  using assms
  by (auto simp: mpu_phase_def Let_def report_mpu_fail_frame mpu_failed_frame mpu_data_readings mpu_no_data_frame
      split: if_splits)

lemma mpu_phase_no_delivery:
  assumes "mpu_phase i c = Some c'" and "\<not> mpu_delivers i c"
  shows "latest c' = latest c"
  using assms
  by (auto simp: mpu_phase_def mpu_delivers_def mpu_opened_def Let_def report_mpu_fail_frame mpu_failed_frame mpu_no_data_frame
      split: if_splits)

lemma sht_failed_frame:
  assumes "sht_failed c = Some c'"
  shows "readings c' = readings c" "latest c' = latest c"
proof -
  let ?c = "c\<lparr>sht_fail_streak := sht_fail_streak c + 1, g_fsm := (g_fsm c)\<lparr>i2c_retry_count := i2c_retry_count (g_fsm c) + 1\<rparr>\<rparr>"
  have "readings c' = readings ?c" "latest c' = latest ?c"
    using assms raise_event_frame by (auto simp: sht_failed_def Let_def split: if_splits)
  then show "readings c' = readings c" "latest c' = latest c"
    by (simp_all add: readings_def latest_def)
qed

lemma sht_data_latest: "sht_data i n c = Some c' \<Longrightarrow> latest c' = latest c"
  by (auto simp: sht_data_def Let_def latest_def publish_regs_def split: if_splits)

lemma sht_phase_latest: "sht_phase i c = Some c' \<Longrightarrow> latest c' = latest c"
  by (auto simp: sht_phase_def Let_def sht_failed_frame dest!: sht_data_latest split: if_splits option.splits)

lemma sht_phase_no_delivery:
  assumes "sht_phase i c = Some c'" and "\<not> sht_delivers i c"
  shows "readings c' = readings c"
  using assms
  by (auto simp: sht_phase_def sht_delivers_def Let_def sht_failed_frame split: if_splits option.splits)

section \<open>Values that were measured\<close>

text \<open>A frame of the humidity sensor that some round delivered.\<close>

definition sht_measured :: "round_in list \<Rightarrow> i32 \<Rightarrow> i32 \<Rightarrow> bool" where
  "sht_measured is t h \<longleftrightarrow> (\<exists>i\<in>set is. 0 < fst (in_sht i)
     \<and> map channel (snd (in_sht i)) = [0, 1] \<and> map sd_value (snd (in_sht i)) = [t, h])"

text \<open>A value that some round delivered for an axis, or the 0 from before the first.\<close>

definition axis_measured :: "round_in list \<Rightarrow> u8 \<Rightarrow> i32 \<Rightarrow> bool" where
  "axis_measured is ch v \<longleftrightarrow> v = 0 \<or> (\<exists>i\<in>set is. 0 < fst (in_mpu i) \<and> (\<exists>x\<in>set (snd (in_mpu i)). channel x = ch \<and> sd_value x = v))"

definition frame_values :: "i32 \<Rightarrow> i32 \<Rightarrow> i32 \<Rightarrow> i32 \<Rightarrow> i32 \<times> i32 \<times> modbus_reg_data" where
  "frame_values t h ax ay = (t, h, \<lparr>temperature = word_of_int (sint t sdiv 10),
     humidity = word_of_int (sint h sdiv 10), accel_x = ucast ax, accel_y = ucast ay\<rparr>)"

text \<open>The published values: those of the start, or of one frame with the accelerations measured by then.\<close>

definition published_by :: "round_in list \<Rightarrow> i32 \<times> i32 \<times> modbus_reg_data \<Rightarrow> i32 \<times> i32 \<times> modbus_reg_data \<Rightarrow> bool" where
  "published_by is r0 r \<longleftrightarrow> r = r0 \<or>
     (\<exists>t h ax ay. sht_measured is t h \<and> axis_measured is 0 ax \<and> axis_measured is 1 ay
        \<and> r = frame_values t h ax ay)"

definition measured :: "round_in list \<Rightarrow> i32 \<times> i32 \<times> modbus_reg_data \<Rightarrow> collector \<Rightarrow> bool" where
  "measured is r0 c \<longleftrightarrow> axis_measured is 0 (latest_ax c) \<and> axis_measured is 1 (latest_ay c) \<and> published_by is r0 (readings c)"

lemma sht_measured_mono: "sht_measured is t h \<Longrightarrow> set is \<subseteq> set js \<Longrightarrow> sht_measured js t h"
  unfolding sht_measured_def by (meson subsetD)

lemma axis_measured_mono: "axis_measured is ch v \<Longrightarrow> set is \<subseteq> set js \<Longrightarrow> axis_measured js ch v"
  unfolding axis_measured_def by (meson subsetD)

lemma published_by_mono: "published_by is r0 r \<Longrightarrow> set is \<subseteq> set js \<Longrightarrow> published_by js r0 r"
  unfolding published_by_def using sht_measured_mono axis_measured_mono by blast

lemma measured_mono: "measured is r0 c \<Longrightarrow> set is \<subseteq> set js \<Longrightarrow> measured js r0 c"
  unfolding measured_def using axis_measured_mono published_by_mono by meson

lemma measured_frame:
  assumes "readings c' = readings c" and "latest c' = latest c"
  shows "measured is r0 c' = measured is r0 c"
  using assms by (simp add: measured_def latest_def)

text \<open>The latest sample of an axis in a frame is one of the frame, or the one before.\<close>

lemma latest_of_cases: "latest_of ch xs v = v \<or> (\<exists>x\<in>set xs. channel x = ch \<and> sd_value x = latest_of ch xs v)"
proof (induction xs arbitrary: v)
  case (Cons x xs)
  show ?case
    using Cons.IH [of "if channel x = ch then sd_value x else v"] by (auto simp: latest_of_def split: if_splits)
qed (simp add: latest_of_def)

lemma axis_measured_latest:
  assumes "axis_measured is ch v" and "i \<in> set is" and "0 < fst (in_mpu i)"
  shows "axis_measured is ch (latest_of ch (snd (in_mpu i)) v)"
  using latest_of_cases [of ch "snd (in_mpu i)" v]
proof
  assume "latest_of ch (snd (in_mpu i)) v = v"
  then show ?thesis using assms(1) by simp
next
  assume "\<exists>x\<in>set (snd (in_mpu i)). channel x = ch \<and> sd_value x = latest_of ch (snd (in_mpu i)) v"
  then show ?thesis using assms(2,3) unfolding axis_measured_def by blast
qed

lemma driver_frame:
  assumes "driver_round i" and "0 < fst (in_sht i)"
  obtains x y where "snd (in_sht i) = [x, y]" "channel x = 0" "channel y = 1"
proof -
  obtain t t' where t: "sht_read (2 * sizeof_sensor_data) t = Some (fst (in_sht i), snd (in_sht i), t')"
    using assms(1) by (auto simp: driver_round_def)
  obtain ts temps hums m where "t = (ts, temps, hums, m)"
    by (cases t) auto
  with t have "map channel (snd (in_sht i)) = [0, 1]"
    using assms(2) by (auto simp: sht_read_def dest: sht30_hal_read_result split: list.splits)
  then show ?thesis
    using that by (auto simp: map_eq_Cons_conv)
qed

section \<open>The phases keep it\<close>

lemma mpu_phase_measured:
  assumes "measured is r0 c" and "i \<in> set is" and "mpu_phase i c = Some c'" and "mpu_result i c c'"
  shows "measured is r0 c'"
proof (cases "mpu_delivers i c")
  case True
  then have "latest_ax c' = latest_of 0 (snd (in_mpu i)) (latest_ax c)" "latest_ay c' = latest_of 1 (snd (in_mpu i)) (latest_ay c)"
    "0 < fst (in_mpu i)"
    using assms(4) by (simp_all add: mpu_result_def mpu_delivers_def)
  then show ?thesis
    using assms(1,2) axis_measured_latest mpu_phase_readings [OF assms(3)] by (simp add: measured_def)
next
  case False
  then show ?thesis
    using measured_frame [OF mpu_phase_readings [OF assms(3)] mpu_phase_no_delivery [OF assms(3) False]] assms(1) by simp
qed

lemma sht_phase_measured:
  assumes "measured is r0 c" and "i \<in> set is" and "driver_round i" and "sht_phase i c = Some c'" and "sht_result i c c'"
  shows "measured is r0 c'"
proof (cases "sht_delivers i c")
  case True
  then have pos: "0 < fst (in_sht i)"
    by (simp add: sht_delivers_def)
  obtain x y where xy: "snd (in_sht i) = [x, y]" "channel x = 0" "channel y = 1"
    by (rule driver_frame [OF assms(3) pos])
  have "sht_measured is (sd_value x) (sd_value y)"
    unfolding sht_measured_def using assms(2) pos xy by (intro bexI [of _ i]) simp_all
  moreover have "readings c' = frame_values (sd_value x) (sd_value y) (latest_ax c) (latest_ay c)"
    using assms(5) True xy(1) by (simp add: sht_result_def readings_def frame_values_def)
  moreover have "latest_ax c' = latest_ax c" "latest_ay c' = latest_ay c"
    using sht_phase_latest [OF assms(4)] by (simp_all add: latest_def)
  ultimately show ?thesis
    using assms(1) unfolding measured_def published_by_def by auto
next
  case False
  then show ?thesis
    using measured_frame [OF sht_phase_no_delivery [OF assms(4) False] sht_phase_latest [OF assms(4)]] assms(1) by simp
qed

lemma measured_start: "latest_ax c = 0 \<Longrightarrow> latest_ay c = 0 \<Longrightarrow> measured is (readings c) c"
  by (simp add: measured_def axis_measured_def published_by_def)

end
