(* ===== verification/System.thy ===== *)
theory System
  imports Readings Web Watchdog Main_App
begin

text \<open>
  The four threads of the program together, in any interleaving. What the collector and the
  monitor write for the others is a sequence of states, one for each of their steps; every single
  load of the web thread and of the Modbus server sees some state of the past, each its own, as
  relaxed loads may. A round of
  the collector is the sequence of its phases, because the others see the states between them;
  within a phase no variable that another thread loads is written twice, but for the count of
  latencies, which is one too high until the next store, and within a step of the monitor only the
  name of the dead thread, which is 1 before it becomes 2.
\<close>

section \<open>The state\<close>

record shared =
  sh_col :: collector
  sh_http :: u64
  sh_wd :: watchdog

text \<open>
  The states so far, oldest first; what is left of the collector's round, and the inputs of its
  rounds; the web thread, and whether it is between its heartbeat and the end of its round; the
  server, the address and the buffer of its client; and for every sample of the monitor the
  indices of the two states its loads saw.
\<close>

record 'w system =
  sy_states :: "shared list"
  sy_todo :: "(collector \<Rightarrow> collector option) list"
  sy_rounds :: "round_in list"
  sy_web :: web
  sy_web_busy :: bool
  sy_server :: "'w server"
  sy_client :: "(u32 \<times> u8 list) option"
  sy_samples :: "(nat \<times> nat) list"

abbreviation now :: "'w system \<Rightarrow> shared" where
  "now s \<equiv> last (sy_states s)"

abbreviation now_index :: "'w system \<Rightarrow> nat" where
  "now_index s \<equiv> length (sy_states s) - 1"

definition push :: "shared \<Rightarrow> 'w system \<Rightarrow> 'w system" where
  "push x s = s\<lparr>sy_states := sy_states s @ [x]\<rparr>"

section \<open>The phases of a round\<close>

definition round_ops :: "round_in \<Rightarrow> (collector \<Rightarrow> collector option) list" where
  "round_ops i = [\<lambda>c. Some (beat c), mpu_phase i, sht_phase i, \<lambda>c. Some (publish_state c), \<lambda>c. Some (beat c)]"

fun run_ops :: "(collector \<Rightarrow> collector option) list \<Rightarrow> collector \<Rightarrow> collector option" where
  "run_ops [] c = Some c"
| "run_ops (f # fs) c = (case f c of None \<Rightarrow> None | Some c' \<Rightarrow> run_ops fs c')"

lemma run_round_ops: "run_ops (round_ops i) c = collector_round i c"
  by (simp add: round_ops_def collector_round_def split: option.split)

text \<open>The inputs a round can have: what the two drivers answer, and a latency that fits an \<open>int\<close>.\<close>

definition real_round :: "round_in \<Rightarrow> bool" where
  "real_round i \<longleftrightarrow> driver_round i \<and> int32 (latency_us (in_sht_start i) (in_sht_end i))"

section \<open>What a load may see\<close>

text \<open>The loads of the copy of the latency window, each of some state of \<open>xs\<close>.\<close>

definition window_drawn :: "shared list \<Rightarrow> metrics \<Rightarrow> bool" where
  "window_drawn xs m \<longleftrightarrow> length (g_latency_window m) = LATENCY_WINDOW_SIZE
     \<and> (\<forall>k<LATENCY_WINDOW_SIZE. g_latency_window m ! k \<in> (\<lambda>x. g_latency_window (c_metrics (sh_col x)) ! k) ` set xs)
     \<and> (g_latency_count m \<in> (\<lambda>x. g_latency_count (c_metrics (sh_col x))) ` set xs
          \<or> g_latency_count m \<in> (\<lambda>x. g_latency_count (c_metrics (sh_col x)) + 1) ` set xs)"

text \<open>The loads of one request of the web thread, each of some state of \<open>xs\<close>.\<close>

definition view_drawn :: "shared list \<Rightarrow> web_view \<Rightarrow> bool" where
  "view_drawn xs v \<longleftrightarrow>
     v_state v \<in> (\<lambda>x. g_fsm (sh_col x)) ` set xs \<and> v_name v \<in> (\<lambda>x. g_fsm (sh_col x)) ` set xs
     \<and> v_mpu_fails v \<in> (\<lambda>x. mpu_fail_count (g_fsm (sh_col x))) ` set xs
     \<and> v_i2c_retries v \<in> (\<lambda>x. i2c_retry_count (g_fsm (sh_col x))) ` set xs
     \<and> v_temp_raw v \<in> (\<lambda>x. temp_raw (g_fsm (sh_col x))) ` set xs
     \<and> v_hum_raw v \<in> (\<lambda>x. hum_raw (g_fsm (sh_col x))) ` set xs
     \<and> window_drawn xs (v_metrics v)
     \<and> (v_dead_thread v \<in> (\<lambda>x. g_watchdog_dead_thread (sh_wd x)) ` set xs
          \<or> v_dead_thread v = 1 \<and> 2 \<in> (\<lambda>x. g_watchdog_dead_thread (sh_wd x)) ` set xs)
     \<and> v_monitor_alive v \<in> (\<lambda>x. g_watchdog_monitor_alive (sh_wd x)) ` set xs"

text \<open>The four relaxed loads of the server.\<close>

definition regs_drawn :: "shared list \<Rightarrow> modbus_reg_data \<Rightarrow> bool" where
  "regs_drawn xs d \<longleftrightarrow>
     temperature d \<in> (\<lambda>x. temperature (c_regs (sh_col x))) ` set xs
     \<and> humidity d \<in> (\<lambda>x. humidity (c_regs (sh_col x))) ` set xs
     \<and> accel_x d \<in> (\<lambda>x. accel_x (c_regs (sh_col x))) ` set xs
     \<and> accel_y d \<in> (\<lambda>x. accel_y (c_regs (sh_col x))) ` set xs"

lemma drawn_mono: "v \<in> f ` set xs \<Longrightarrow> v \<in> f ` set (xs @ ys)"
  by auto

lemma window_drawn_append:
  assumes "window_drawn xs m"
  shows "window_drawn (xs @ ys) m"
proof -
  have "g_latency_window m ! k \<in> (\<lambda>x. g_latency_window (c_metrics (sh_col x)) ! k) ` set (xs @ ys)"
    if "k < LATENCY_WINDOW_SIZE" for k
    using assms that by (intro drawn_mono) (simp add: window_drawn_def)
  then show ?thesis
    using assms unfolding window_drawn_def set_append image_Un by blast
qed

lemma view_drawn_append:
  assumes "view_drawn xs v"
  shows "view_drawn (xs @ ys) v"
proof -
  have "v_dead_thread v \<in> (\<lambda>x. g_watchdog_dead_thread (sh_wd x)) ` set (xs @ ys)
      \<or> v_dead_thread v = 1 \<and> 2 \<in> (\<lambda>x. g_watchdog_dead_thread (sh_wd x)) ` set (xs @ ys)"
    using assms drawn_mono unfolding view_drawn_def by metis
  then show ?thesis
    using assms unfolding view_drawn_def
    by (elim conjE, intro conjI) (assumption | rule window_drawn_append drawn_mono)+
qed

lemma regs_drawn_append: "regs_drawn xs d \<Longrightarrow> regs_drawn (xs @ ys) d"
  unfolding regs_drawn_def by (elim conjE, intro conjI) (assumption | rule drawn_mono)+

text \<open>The two heartbeats of a sample.\<close>

definition beats_at :: "shared list \<Rightarrow> nat \<times> nat \<Rightarrow> u64 \<times> u64" where
  "beats_at xs k = (g_sensor_heartbeat (sh_col (xs ! fst k)), sh_http (xs ! snd k))"

section \<open>The steps\<close>

text \<open>
  The bounds on the life of a run: the number of latencies that may be recorded before the index
  wraps, 200 of them by the start, and of the beats of the web thread.
\<close>

definition max_rounds :: nat where "max_rounds = 2147483648 - 200"
definition max_beats :: nat where "max_beats = 2 ^ 63"

definition set_web :: "web \<Rightarrow> 'w system \<Rightarrow> 'w system" where
  "set_web w s = push ((now s)\<lparr>sh_http := g_http_heartbeat w\<rparr>) (s\<lparr>sy_web := w\<rparr>)"

text \<open>
  A round of the collector begins with the answers of its drivers and goes through its phases. The
  web thread beats, then accepts and serves with what its loads drew. The server checks an address
  and then serves one request after the other. The monitor samples the two heartbeats; a later
  load of a variable does not see an older value than an earlier one.
\<close>

inductive sys_step :: "(string \<Rightarrow> 'w \<Rightarrow> int \<times> 'w) \<Rightarrow> bool \<Rightarrow> 'w system \<Rightarrow> 'w system \<Rightarrow> bool"
  for system_call test_mode where
  begin_round: "sy_todo s = [] \<Longrightarrow> real_round i \<Longrightarrow> length (sy_rounds s) < max_rounds \<Longrightarrow>
    sys_step system_call test_mode s (s\<lparr>sy_todo := round_ops i, sy_rounds := sy_rounds s @ [i]\<rparr>)"
| collect: "sy_todo s = f # fs \<Longrightarrow> f (sh_col (now s)) = Some c \<Longrightarrow>
    sys_step system_call test_mode s (push ((now s)\<lparr>sh_col := c\<rparr>) (s\<lparr>sy_todo := fs\<rparr>))"
| web_feed: "\<not> sy_web_busy s \<Longrightarrow> unat (g_http_heartbeat (sy_web s)) < max_beats \<Longrightarrow>
    sys_step system_call test_mode s (set_web (feed_http (sy_web s)) (s\<lparr>sy_web_busy := True\<rparr>))"
| web_serve: "sy_web_busy s \<Longrightarrow> reads_on 3600 (wr_sends r) \<Longrightarrow>
    view_drawn (sy_states s) (wr_view r) \<Longrightarrow> serve_client r (sy_web s) = Inr w \<Longrightarrow>
    sys_step system_call test_mode s (set_web w (s\<lparr>sy_web_busy := False\<rparr>))"
| accept: "sy_client s = None \<Longrightarrow> c_ip (c :: connection) \<noteq> 0 \<Longrightarrow>
    is_ip_banned (c_ip c) (c_now c) (g_blacklist (sy_server s)) = (banned, bl) \<Longrightarrow>
    sys_step system_call test_mode s
      (if banned then s\<lparr>sy_server := (sy_server s)\<lparr>g_blacklist := bl, clients_closed := clients_closed (sy_server s) + 1\<rparr>\<rparr>
       else s\<lparr>sy_server := (sy_server s)\<lparr>g_blacklist := bl\<rparr>, sy_client := Some (c_ip c, c_query c)\<rparr>)"
| request: "sy_client s = Some (ip, query) \<Longrightarrow> regs_drawn (sy_states s) (rq_regs r) \<Longrightarrow>
    client_request system_call ip query r (sy_server s) = (goes_on, query', sv) \<Longrightarrow>
    sys_step system_call test_mode s
      (s\<lparr>sy_server := sv, sy_client := (if goes_on then Some (ip, query') else None)\<rparr>)"
| sample: "\<not> wd_exited (sh_wd (now s)) \<Longrightarrow> fst (last ((0, 0) # sy_samples s)) \<le> k1 \<Longrightarrow> k1 \<le> now_index s \<Longrightarrow>
    snd (last ((0, 0) # sy_samples s)) \<le> k2 \<Longrightarrow> k2 \<le> now_index s \<Longrightarrow>
    sys_step system_call test_mode s
      (push ((now s)\<lparr>sh_wd := watchdog_step test_mode (beats_at (sy_states s) (k1, k2)) (sh_wd (now s))\<rparr>)
        (s\<lparr>sy_samples := sy_samples s @ [(k1, k2)]\<rparr>))"

inductive_cases sys_step_cases: "sys_step system_call test_mode s t"

abbreviation sys_run :: "(string \<Rightarrow> 'w \<Rightarrow> int \<times> 'w) \<Rightarrow> bool \<Rightarrow> 'w system \<Rightarrow> 'w system \<Rightarrow> bool" where
  "sys_run system_call test_mode \<equiv> (sys_step system_call test_mode)\<^sup>*\<^sup>*"

text \<open>The start, from the state the collector begins its loop with.\<close>

definition sys_start :: "collector \<Rightarrow> resource list \<Rightarrow> 'w \<Rightarrow> 'w system" where
  "sys_start c held w =
     \<lparr>sy_states = [\<lparr>sh_col = c, sh_http = 0, sh_wd = watchdog_start\<rparr>], sy_todo = [], sy_rounds = [],
      sy_web = \<lparr>g_http_heartbeat = 0, web_held = held, web_sent = []\<rparr>, sy_web_busy = False,
      sy_server = server_start w, sy_client = None, sy_samples = []\<rparr>"

end
