(* ===== verification/System_Safety.thy ===== *)
theory System_Safety
  imports System
begin

text \<open>
  The invariants of the four threads together, one for each aspect, each kept by every step; the
  properties of all reachable states follow by rule induction.
\<close>

section \<open>The collector between its phases\<close>

text \<open>
  Before phase \<open>k\<close> of the round that \<open>is\<close> ends with: the invariant of the thread, where its
  values come from, 32-bit latencies and room for the one of phase 2, and two beats for each round
  but for those to come.
\<close>

definition beats_left :: "nat \<Rightarrow> nat" where
  "beats_left k = (if k = 0 then 2 else if k \<le> 4 then 1 else 0)"

definition col_ok :: "round_in list \<Rightarrow> i32 \<times> i32 \<times> modbus_reg_data \<Rightarrow> nat \<Rightarrow> collector \<Rightarrow> bool" where
  "col_ok is r0 k c \<longleftrightarrow> control_ok c \<and> bufs_ok c \<and> measured is r0 c
     \<and> (\<exists>xs. window_of xs (c_metrics c) \<and> (\<forall>x\<in>set xs. int32 x)
          \<and> length xs + (if k \<le> 2 then 1 else 0) \<le> 200 + length is)
     \<and> unat (g_sensor_heartbeat c) + beats_left k = 2 * length is"

lemma measured_beat: "measured is r0 (beat c) = measured is r0 c"
  by (rule measured_frame) simp_all

lemma measured_publish: "measured is r0 (publish_state c) = measured is r0 c"
  by (rule measured_frame) simp_all

lemma unat_beat: "unat (h :: u64) < 2 ^ 63 \<Longrightarrow> unat (h + 1) = unat h + 1"
  by (simp add: unat_plus_simple [THEN iffD1] no_olen_add_nat)

lemma beat_ok:
  assumes "col_ok is r0 k c" and "k = 0 \<or> k = 4" and "length is \<le> max_rounds"
  shows "col_ok is r0 (Suc k) (beat c)"
proof -
  obtain xs where xs: "window_of xs (c_metrics c)" "\<forall>x\<in>set xs. int32 x"
    "length xs + (if k \<le> 2 then 1 else 0) \<le> 200 + length is"
    using assms(1) by (auto simp: col_ok_def)
  have "unat (g_sensor_heartbeat c) + beats_left k = 2 * length is"
    using assms(1) by (simp add: col_ok_def)
  then have "unat (g_sensor_heartbeat (beat c)) + beats_left (Suc k) = 2 * length is"
    using unat_beat [of "g_sensor_heartbeat c"] assms(2,3) by (auto simp: beats_left_def max_rounds_def)
  moreover have "length xs + (if Suc k \<le> 2 then 1 else 0) \<le> 200 + length is"
    using xs(3) assms(2) by auto
  ultimately show ?thesis
    using assms(1) xs(1,2) unfolding col_ok_def measured_beat beat_simps by blast
qed

lemma mpu_ok:
  assumes "col_ok is r0 1 c" and "i \<in> set is" and "real_round i"
  obtains c' where "mpu_phase i c = Some c'" "col_ok is r0 2 c'" "g_sensor_heartbeat c' = g_sensor_heartbeat c"
proof -
  have "read_ok 6 6 (in_mpu i)"
    using driver_round_possible assms(3) by (simp add: real_round_def possible_def)
  then obtain c' where c': "mpu_phase i c = Some c'" "mpu_result i c c'"
    using mpu_phase_ok assms(1) unfolding col_ok_def by blast
  have "measured is r0 c'"
    using mpu_phase_measured [OF _ assms(2) c'] assms(1) by (simp add: col_ok_def)
  then have "col_ok is r0 2 c'"
    using assms(1) c'(2) by (simp add: col_ok_def mpu_result_def mpu_frame_def beats_left_def)
  then show ?thesis
    using that c' by (simp add: mpu_result_def mpu_frame_def)
qed

lemma sht_ok:
  assumes "col_ok is r0 2 c" and "i \<in> set is" and "real_round i" and "length is \<le> max_rounds"
  obtains c' where "sht_phase i c = Some c'" "col_ok is r0 3 c'" "g_sensor_heartbeat c' = g_sensor_heartbeat c"
proof -
  obtain xs where xs: "window_of xs (c_metrics c)" "\<forall>x\<in>set xs. int32 x" "length xs + 1 \<le> 200 + length is"
    using assms(1) by (auto simp: col_ok_def)
  have "read_ok 2 2 (in_sht i)" "control_ok c" "bufs_ok c" "length xs \<le> 2147483648"
    using driver_round_possible assms(1,3,4) xs(3) by (simp_all add: real_round_def possible_def col_ok_def max_rounds_def)
  then obtain c' ys where c': "sht_phase i c = Some c'" "sht_result i c c'" "window_of (xs @ ys) (c_metrics c')"
    "length ys \<le> 1" "set ys \<subseteq> {latency_us (in_sht_start i) (in_sht_end i)}"
    using sht_phase_ok [OF _ _ _ xs(1)] by blast
  have "\<forall>x\<in>set (xs @ ys). int32 x" "length (xs @ ys) \<le> 200 + length is"
    using c'(4,5) xs(2,3) assms(3) by (auto simp: real_round_def)
  moreover have "measured is r0 c'"
    using sht_phase_measured [OF _ assms(2) _ c'(1,2)] assms(1,3) by (simp add: col_ok_def real_round_def)
  ultimately have "col_ok is r0 3 c'"
    using assms(1) c'(2,3) unfolding col_ok_def sht_result_def by (auto simp: beats_left_def)
  then show ?thesis
    using that c'(1,2) by (simp add: sht_result_def)
qed

lemma publish_ok: "col_ok is r0 3 c \<Longrightarrow> col_ok is r0 4 (publish_state c)"
  by (simp add: col_ok_def measured_publish beats_left_def)

text \<open>Every phase of a round is defined, keeps the invariant and does not turn the heartbeat back.\<close>

lemma phase_ok:
  assumes "col_ok is r0 k c" and "k < 5" and "i \<in> set is" and "real_round i" and "length is \<le> max_rounds"
  obtains c' where "(round_ops i ! k) c = Some c'" "col_ok is r0 (Suc k) c'"
    "unat (g_sensor_heartbeat c) \<le> unat (g_sensor_heartbeat c')"
proof -
  have mono: "unat (g_sensor_heartbeat c) \<le> unat (g_sensor_heartbeat c')" if "col_ok is r0 (Suc k) c'" for c'
    using that assms(1) by (simp add: col_ok_def beats_left_def split: if_splits)
  consider "k = 0" | "k = 1" | "k = 2" | "k = 3" | "k = 4"
    using assms(2) by linarith
  then have "\<exists>c'. (round_ops i ! k) c = Some c' \<and> col_ok is r0 (Suc k) c'"
  proof cases
    case 2
    then obtain c' where "mpu_phase i c = Some c'" "col_ok is r0 2 c'"
      using mpu_ok [OF _ assms(3,4)] assms(1) by blast
    then show ?thesis using 2 by (auto simp: round_ops_def numeral_2_eq_2)
  next
    case 3
    then obtain c' where "sht_phase i c = Some c'" "col_ok is r0 3 c'"
      using sht_ok [OF _ assms(3-5)] assms(1) by blast
    then show ?thesis using 3 by (auto simp: round_ops_def numeral_3_eq_3)
  qed (use assms beat_ok publish_ok in \<open>auto simp: round_ops_def eval_nat_numeral\<close>)
  then show ?thesis
    using that mono by blast
qed

lemma col_ok_next_round:
  assumes "col_ok is r0 5 c"
  shows "col_ok (is @ [i]) r0 0 c"
proof -
  have "measured (is @ [i]) r0 c"
    using measured_mono [of "is" r0 c "is @ [i]"] assms by (auto simp: col_ok_def)
  then show ?thesis
    using assms by (auto simp: col_ok_def beats_left_def)
qed

text \<open>The collector within the system: what is left of its round are the last phases of one.\<close>

definition collecting :: "i32 \<times> i32 \<times> modbus_reg_data \<Rightarrow> 'w system \<Rightarrow> bool" where
  "collecting r0 s \<longleftrightarrow> sy_states s \<noteq> [] \<and> length (sy_rounds s) \<le> max_rounds \<and>
     (\<exists>i k. k \<le> 5 \<and> sy_todo s = drop k (round_ops i) \<and> (k < 5 \<longrightarrow> i \<in> set (sy_rounds s) \<and> real_round i)
        \<and> col_ok (sy_rounds s) r0 k (sh_col (now s)))"

lemma round_ops_length [simp]: "length (round_ops i) = 5"
  by (simp add: round_ops_def)

lemma now_push [simp]: "now (push x s) = x"
  by (simp add: push_def)

lemma push_simps [simp]:
  "sy_states (push x s) = sy_states s @ [x]" "sy_todo (push x s) = sy_todo s" "sy_rounds (push x s) = sy_rounds s"
  "sy_web (push x s) = sy_web s" "sy_web_busy (push x s) = sy_web_busy s" "sy_server (push x s) = sy_server s"
  "sy_client (push x s) = sy_client s" "sy_samples (push x s) = sy_samples s"
  by (simp_all add: push_def)

lemma collecting_begin:
  assumes "collecting r0 s" and "sy_todo s = []" and "real_round i" and "length (sy_rounds s) < max_rounds"
  shows "collecting r0 (s\<lparr>sy_todo := round_ops i, sy_rounds := sy_rounds s @ [i]\<rparr>)"
proof -
  obtain i0 k where k: "k \<le> 5" "sy_todo s = drop k (round_ops i0)" "col_ok (sy_rounds s) r0 k (sh_col (now s))"
    using assms(1) by (auto simp: collecting_def)
  have "k = 5"
    using k(1,2) assms(2) by simp
  then have "col_ok (sy_rounds s @ [i]) r0 0 (sh_col (now s))"
    using k(3) col_ok_next_round by simp
  then show ?thesis
    using assms(1,3,4) unfolding collecting_def by (auto intro!: exI [of _ i] exI [of _ "0 :: nat"])
qed

lemma collecting_phase:
  assumes "collecting r0 s" and "sy_todo s = f # fs"
  obtains c where "f (sh_col (now s)) = Some c" "unat (g_sensor_heartbeat (sh_col (now s))) \<le> unat (g_sensor_heartbeat c)"
    "collecting r0 (push ((now s)\<lparr>sh_col := c\<rparr>) (s\<lparr>sy_todo := fs\<rparr>))"
proof -
  obtain i k where k: "k \<le> 5" "sy_todo s = drop k (round_ops i)" "k < 5 \<Longrightarrow> i \<in> set (sy_rounds s) \<and> real_round i"
    "col_ok (sy_rounds s) r0 k (sh_col (now s))"
    using assms(1) by (auto simp: collecting_def)
  have "k < 5"
    using k(1,2) assms(2) by (cases "k = 5") auto
  moreover from this have "f = round_ops i ! k" "fs = drop (Suc k) (round_ops i)"
    using k(2) assms(2) Cons_nth_drop_Suc [of k "round_ops i"] by (simp_all flip: k(2))
  moreover have "length (sy_rounds s) \<le> max_rounds"
    using assms(1) by (simp add: collecting_def)
  ultimately obtain c where c: "f (sh_col (now s)) = Some c" "col_ok (sy_rounds s) r0 (Suc k) c"
    "unat (g_sensor_heartbeat (sh_col (now s))) \<le> unat (g_sensor_heartbeat c)"
    using phase_ok [OF k(4)] k(3) by metis
  have "collecting r0 (push ((now s)\<lparr>sh_col := c\<rparr>) (s\<lparr>sy_todo := fs\<rparr>))"
    using assms(1) c(2) k(3) \<open>k < 5\<close> \<open>fs = _\<close> unfolding collecting_def
    by (auto intro!: exI [of _ i] exI [of _ "Suc k"])
  then show ?thesis
    using that c by blast
qed

lemma collecting_other:
  assumes "collecting r0 s" and "sy_todo t = sy_todo s" and "sy_rounds t = sy_rounds s"
    and "sy_states t \<noteq> []" and "sh_col (now t) = sh_col (now s)"
  shows "collecting r0 t"
  using assms unfolding collecting_def by simp

lemma collecting_step:
  assumes "sys_step sc tm s t" and "collecting r0 s"
  shows "collecting r0 t"
  using assms(1)
proof cases
  case (begin_round i)
  then show ?thesis using collecting_begin [OF assms(2)] by simp
next
  case (collect f fs c)
  then show ?thesis using collecting_phase [OF assms(2)] by (metis option.inject)
qed (use assms(2) in \<open>auto simp: set_web_def collecting_def elim!: collecting_other\<close>)

section \<open>Every state of the past\<close>

text \<open>What a load of the collector's variables and of the monitor's may meet.\<close>

definition col_fine :: "round_in list \<Rightarrow> i32 \<times> i32 \<times> modbus_reg_data \<Rightarrow> collector \<Rightarrow> bool" where
  "col_fine is r0 c \<longleftrightarrow> fsm_state (g_fsm c) \<in> {STATE_RUNNING, STATE_DEGRADED, STATE_RECOVERING}
     \<and> published_by is r0 (readings c)
     \<and> length (g_latency_window (c_metrics c)) = LATENCY_WINDOW_SIZE \<and> (\<forall>l\<in>set (g_latency_window (c_metrics c)). int32 l)
     \<and> (\<exists>n\<le>LATENCY_WINDOW_SIZE. g_latency_count (c_metrics c) = of_nat n)"

definition wd_fine :: "watchdog \<Rightarrow> bool" where
  "wd_fine w \<longleftrightarrow> g_watchdog_dead_thread w \<in> {0, 1, 2} \<and> g_watchdog_monitor_alive w = 0"

lemma col_ok_fine:
  assumes "col_ok is r0 k c"
  shows "col_fine is r0 c"
proof -
  obtain xs where xs: "window_of xs (c_metrics c)" "\<forall>x\<in>set xs. int32 x"
    using assms by (auto simp: col_ok_def)
  have "\<forall>l\<in>set (g_latency_window (c_metrics c)). int32 l"
    using window_elements [OF xs(1)] xs(2) by (auto simp: int32_def)
  moreover have "fsm_state (g_fsm c) \<in> {STATE_RUNNING, STATE_DEGRADED, STATE_RECOVERING}"
    using assms by (auto simp: col_ok_def control_ok_def state_of_streak_def split: if_splits)
  ultimately show ?thesis
    using assms xs(1) by (auto simp: col_fine_def col_ok_def measured_def window_of_def intro: exI [of _ "min (length xs) LATENCY_WINDOW_SIZE"])
qed

lemma wd_fine_step: "wd_fine w \<Longrightarrow> wd_fine (watchdog_step tm hb w)"
  by (auto simp: wd_fine_def watchdog_step_def Let_def)

lemma col_fine_mono: "col_fine is r0 c \<Longrightarrow> set is \<subseteq> set js \<Longrightarrow> col_fine js r0 c"
  unfolding col_fine_def using published_by_mono by meson

definition past_fine :: "i32 \<times> i32 \<times> modbus_reg_data \<Rightarrow> 'w system \<Rightarrow> bool" where
  "past_fine r0 s \<longleftrightarrow> sy_states s \<noteq> [] \<and> (\<forall>x\<in>set (sy_states s). col_fine (sy_rounds s) r0 (sh_col x) \<and> wd_fine (sh_wd x))"

lemma past_fine_push:
  assumes "past_fine r0 s" and "sy_states t = sy_states s" and "sy_rounds t = sy_rounds s"
    and "col_fine (sy_rounds s) r0 (sh_col x)" and "wd_fine (sh_wd x)"
  shows "past_fine r0 (push x t)"
  using assms by (auto simp: past_fine_def)

lemma past_fine_now: "past_fine r0 s \<Longrightarrow> col_fine (sy_rounds s) r0 (sh_col (now s)) \<and> wd_fine (sh_wd (now s))"
  by (simp add: past_fine_def)

lemma past_fine_step:
  assumes "sys_step sc tm s t" and "collecting r0 t" and "past_fine r0 s"
  shows "past_fine r0 t"
  using assms(1)
proof cases
  case (begin_round i)
  then show ?thesis
    using assms(3) col_fine_mono [of "sy_rounds s" r0 _ "sy_rounds s @ [i]"] by (auto simp: past_fine_def)
next
  case (collect f fs c)
  then obtain k where "col_ok (sy_rounds s) r0 k c"
    using assms(2) by (auto simp: collecting_def)
  then have "col_fine (sy_rounds s) r0 c"
    by (rule col_ok_fine)
  then show ?thesis
    using collect past_fine_now [OF assms(3)] by (simp add: past_fine_push [OF assms(3)])
qed (use assms(3) past_fine_now [OF assms(3)] in
  \<open>auto simp: set_web_def wd_fine_step past_fine_def\<close>)

section \<open>The web thread\<close>

text \<open>A view that is drawn from the past is one the web thread serves.\<close>

lemma window_drawn_ok:
  assumes "window_drawn xs m" and "\<forall>x\<in>set xs. col_fine is r0 (sh_col x)"
  shows "length (g_latency_window m) = LATENCY_WINDOW_SIZE" "\<forall>l\<in>set (g_latency_window m). int32 l"
    "0 \<le> sint (g_latency_count m)"
proof -
  show len: "length (g_latency_window m) = LATENCY_WINDOW_SIZE"
    using assms(1) by (simp add: window_drawn_def)
  have "int32 (g_latency_window m ! k)" if k: "k < LATENCY_WINDOW_SIZE" for k
  proof -
    obtain x where "x \<in> set xs" "g_latency_window m ! k = g_latency_window (c_metrics (sh_col x)) ! k"
      using assms(1) k unfolding window_drawn_def by blast
    then show ?thesis
      using assms(2) k by (simp add: col_fine_def)
  qed
  then show "\<forall>l\<in>set (g_latency_window m). int32 l"
    using len by (auto simp: in_set_conv_nth)
  have "\<exists>n\<le>1025. g_latency_count m = of_nat n"
  proof -
    obtain x where x: "x \<in> set xs" "g_latency_count m = g_latency_count (c_metrics (sh_col x))
        \<or> g_latency_count m = g_latency_count (c_metrics (sh_col x)) + 1"
      using assms(1) by (auto simp: window_drawn_def)
    obtain n where "n \<le> 1024" "g_latency_count (c_metrics (sh_col x)) = of_nat n"
      using assms(2) x(1) by (auto simp: col_fine_def LATENCY_WINDOW_SIZE_def)
    then show ?thesis
      using x(2) by (auto intro: exI [of _ n] exI [of _ "Suc n"])
  qed
  then show "0 \<le> sint (g_latency_count m)"
    using sint_of_nat_small by auto
qed

lemma view_drawn_ok:
  assumes "past_fine r0 s" and "view_drawn (sy_states s) v"
  shows "view_ok v"
proof -
  have "\<forall>x\<in>set (sy_states s). col_fine (sy_rounds s) r0 (sh_col x)" "\<forall>x\<in>set (sy_states s). wd_fine (sh_wd x)"
    using assms(1) by (auto simp: past_fine_def)
  moreover have "window_drawn (sy_states s) (v_metrics v)"
    using assms(2) by (simp add: view_drawn_def)
  moreover have "v_dead_thread v \<in> {0, 1, 2}" "v_monitor_alive v = 0"
    using assms(2) calculation(2) unfolding view_drawn_def wd_fine_def by fastforce+
  ultimately show ?thesis
    using window_drawn_ok unfolding view_ok_def by (auto simp: int32_def)
qed

text \<open>What it sent are answers for views drawn from the past; it holds what it held.\<close>

definition web_answers :: "resource list \<Rightarrow> 'w system \<Rightarrow> bool" where
  "web_answers held s \<longleftrightarrow> web_held (sy_web s) = held
     \<and> (\<forall>out\<in>set (web_sent (sy_web s)). \<exists>path v. view_drawn (sy_states s) v \<and> out = expected_answer path v)"

lemma web_answers_other:
  assumes "web_answers held s" and "web_held (sy_web t) = web_held (sy_web s)" "web_sent (sy_web t) = web_sent (sy_web s)"
    and "sy_states t = sy_states s @ xs"
  shows "web_answers held t"
  using assms view_drawn_append unfolding web_answers_def by metis

lemma web_serves_drawn:
  assumes "past_fine r0 s" and "reads_on 3600 (wr_sends r)" and "view_drawn (sy_states s) (wr_view r)"
  shows "serve_client r (sy_web s) = Inr (case answered_path r of
      None \<Rightarrow> sy_web s
    | Some path \<Rightarrow> feed_http (sy_web s)\<lparr>web_sent := web_sent (sy_web s) @ [expected_answer path (wr_view r)]\<rparr>)"
  using view_drawn_ok [OF assms(1,3)] assms(2) by (intro serve_client_ok) (simp add: request_ok_def)

lemma web_answers_step:
  assumes "sys_step sc tm s t" and "past_fine r0 s" and "web_answers held s"
  shows "web_answers held t"
  using assms(1)
proof cases
  case web_feed
  then show ?thesis
    by (auto simp: set_web_def feed_http_def intro!: web_answers_other [OF assms(3)])
next
  case (web_serve r w)
  have w: "w = (case answered_path r of
      None \<Rightarrow> sy_web s
    | Some path \<Rightarrow> feed_http (sy_web s)\<lparr>web_sent := web_sent (sy_web s) @ [expected_answer path (wr_view r)]\<rparr>)"
    using web_serves_drawn [OF assms(2) web_serve(3,4)] web_serve(5) by simp
  have old: "\<exists>path v. view_drawn (sy_states s @ ys) v \<and> out = expected_answer path v"
    if "out \<in> set (web_sent (sy_web s))" for out ys
    using assms(3) that view_drawn_append unfolding web_answers_def by metis
  show ?thesis
  proof (cases "answered_path r")
    case None
    then show ?thesis
      using w web_serve(1) by (auto simp: set_web_def intro!: web_answers_other [OF assms(3)])
  next
    case (Some path)
    then show ?thesis
      using old w web_serve(1) view_drawn_append [OF web_serve(4)] assms(3)
      by (auto simp: web_answers_def set_web_def feed_http_def intro!: exI [of _ path] exI [of _ "wr_view r"])
  qed
qed (auto intro!: web_answers_other [OF assms(3)])

section \<open>The Modbus server\<close>

text \<open>Its answers are proper, the tables it sent are drawn from the past, its client has an address.\<close>

definition serving :: "'w system \<Rightarrow> bool" where
  "serving s \<longleftrightarrow> server_ok (sy_server s)
     \<and> (\<forall>ip query. sy_client s = Some (ip, query) \<longrightarrow> ip \<noteq> 0)
     \<and> (\<forall>q rc tab. Reply q rc tab \<in> set (sent (sy_server s)) \<longrightarrow> (\<exists>d. regs_drawn (sy_states s) d \<and> tab = load_regs d))"

lemma serving_other:
  assumes "serving s" and "sent (sy_server t) = sent (sy_server s)" and "bl_ok (g_blacklist (sy_server t))"
    and "\<forall>ip query. sy_client t = Some (ip, query) \<longrightarrow> ip \<noteq> 0" and "sy_states t = sy_states s @ xs"
  shows "serving t"
  using assms regs_drawn_append unfolding serving_def server_ok_def by metis

lemma serving_quiet:
  assumes "serving s" and "sy_server t = sy_server s" and "sy_client t = sy_client s" and "sy_states t = sy_states s @ xs"
  shows "serving t"
  using assms by (intro serving_other [OF assms(1)]) (auto simp: serving_def server_ok_def)

lemma serving_request:
  assumes "serving s" and "sy_client s = Some (ip, query)" and "regs_drawn (sy_states s) (rq_regs r)"
    and "client_request sc ip query r (sy_server s) = (goes_on, query', sv)"
  shows "serving (s\<lparr>sy_server := sv, sy_client := (if goes_on then Some (ip, query') else None)\<rparr>)"
proof (cases "rq_running r \<and> 0 < rq_rc r")
  case False
  then have "sv = (sy_server s)\<lparr>clients_closed := clients_closed (sy_server s) + 1\<rparr>" "\<not> goes_on"
    using client_request_closed [of r sc ip query "sy_server s"] assms(4) by (auto simp: not_less)
  then show ?thesis
    using assms(1) by (intro serving_other [OF assms(1)]) (auto simp: serving_def server_ok_def)
next
  case True
  let ?q = "received (rq_frame r) query"
  note one = client_request_served [OF conjunct1 [OF True] conjunct2 [OF True] refl assms(4)]
  have ip: "ip \<noteq> 0" "bl_ok (g_blacklist (sy_server s))"
    using assms(1,2) by (auto simp: serving_def server_ok_def)
  have "server_ok sv"
    using assms(1) one(3,4) record_illegal_request_ok [OF ip(2,1)] ip(2) answer_of_safe
    by (auto simp: serving_def server_ok_def)
  moreover have "\<exists>d. regs_drawn (sy_states s) d \<and> tab = load_regs d" if "Reply q rc tab = answer_of (?q, r)" for q rc tab
    using that assms(3) by (auto simp: answer_of_def split: if_splits)
  ultimately show ?thesis
    using assms(1) one(3) ip(1) by (auto simp: serving_def)
qed

lemma serving_step:
  assumes "sys_step sc tm s t" and "serving s"
  shows "serving t"
  using assms(1)
proof cases
  case (accept c banned bl)
  have "bl_ok bl"
    using is_ip_banned_ok [of "g_blacklist (sy_server s)" "c_ip c" "c_now c"] accept(4) assms(2) by (simp add: serving_def server_ok_def)
  then show ?thesis
    unfolding accept(1) using accept(2,3) assms(2)
    by (intro serving_other [OF assms(2), where xs = "[]"]) (auto simp: serving_def)
next
  case (request ip query r goes_on query' sv)
  then show ?thesis
    using serving_request [OF assms(2)] by simp
qed (auto simp: set_web_def intro!: serving_quiet [OF assms(2)])

section \<open>The heartbeats\<close>

lemma sorted_snoc_last: "sorted xs \<Longrightarrow> xs \<noteq> [] \<Longrightarrow> last xs \<le> x \<Longrightarrow> sorted (xs @ [x])" for x :: nat
  by (cases xs rule: rev_cases) (auto simp: sorted_append)

abbreviation sensor_beats :: "shared \<Rightarrow> nat" where
  "sensor_beats x \<equiv> unat (g_sensor_heartbeat (sh_col x))"

abbreviation http_beats :: "shared \<Rightarrow> nat" where
  "http_beats x \<equiv> unat (sh_http x)"

definition beating :: "'w system \<Rightarrow> bool" where
  "beating s \<longleftrightarrow> sy_states s \<noteq> [] \<and> sensor_beats (hd (sy_states s)) = 0 \<and> http_beats (hd (sy_states s)) = 0
     \<and> sorted (map sensor_beats (sy_states s)) \<and> sorted (map http_beats (sy_states s))
     \<and> sh_http (now s) = g_http_heartbeat (sy_web s)
     \<and> http_beats (now s) \<le> max_beats + (if sy_web_busy s then 0 else 1)"

lemma beating_push:
  assumes "beating s" and "sy_states t = sy_states s" and "sensor_beats (now s) \<le> sensor_beats x"
    and "http_beats (now s) \<le> http_beats x" and "sh_http x = g_http_heartbeat (sy_web t)"
    and "http_beats x \<le> max_beats + (if sy_web_busy t then 0 else 1)"
  shows "beating (push x t)"
  using assms by (auto simp: beating_def last_map intro!: sorted_snoc_last)

lemma max_beats_room: "unat h \<le> max_beats \<Longrightarrow> unat (h + 1 :: u64) = unat h + 1"
  by (simp add: max_beats_def unat_plus_simple [THEN iffD1] no_olen_add_nat)

lemma beating_step:
  assumes "sys_step sc tm s t" and "past_fine r0 s" and "collecting r0 s" and "beating s"
  shows "beating t"
  using assms(1)
proof cases
  case (collect f fs c)
  then have "sensor_beats (now s) \<le> unat (g_sensor_heartbeat c)"
    using collecting_phase [OF assms(3)] by (metis option.inject)
  then show ?thesis
    using assms(4) unfolding collect(1) by (intro beating_push [OF assms(4)]) (auto simp: beating_def)
next
  case web_feed
  then show ?thesis
    using assms(4) max_beats_room [of "g_http_heartbeat (sy_web s)"] unfolding web_feed(1) set_web_def
    by (intro beating_push [OF assms(4)]) (auto simp: beating_def feed_http_def)
next
  case (web_serve r w)
  have "w = (case answered_path r of
      None \<Rightarrow> sy_web s
    | Some path \<Rightarrow> feed_http (sy_web s)\<lparr>web_sent := web_sent (sy_web s) @ [expected_answer path (wr_view r)]\<rparr>)"
    using web_serves_drawn [OF assms(2) web_serve(3,4)] web_serve(5) by simp
  then have "unat (g_http_heartbeat w) \<in> {http_beats (now s), http_beats (now s) + 1}"
    using assms(4) web_serve(2) max_beats_room [of "sh_http (now s)"]
    by (auto simp: beating_def feed_http_def split: option.splits)
  then show ?thesis
    using assms(4) web_serve(2) unfolding web_serve(1) set_web_def
    by (intro beating_push [OF assms(4)]) (auto simp: beating_def)
next
  case (sample k1 k2)
  then show ?thesis
    using assms(4) unfolding sample(1) by (intro beating_push [OF assms(4)]) (auto simp: beating_def)
qed (use assms(4) in \<open>auto simp: beating_def\<close>)

section \<open>The monitor\<close>

text \<open>
  The monitor has seen the heartbeats of the states its samples name, never an older one than
  before; a thread it reports was stalled for five samples; it left its loop only with a report.
\<close>

definition sampled :: "'w system \<Rightarrow> (u64 \<times> u64) list" where
  "sampled s = map (beats_at (sy_states s)) (sy_samples s)"

definition reported :: "(u64 \<times> u64) list \<Rightarrow> watchdog \<Rightarrow> bool" where
  "reported hbs w \<longleftrightarrow> (wd_exited w \<longrightarrow> g_watchdog_dead_thread w \<noteq> 0)
     \<and> (g_watchdog_dead_thread w = 1 \<longrightarrow> (\<exists>n\<le>length hbs. stalled (0 # map fst (take n hbs)) 5))
     \<and> (g_watchdog_dead_thread w = 2 \<longrightarrow> (\<exists>n\<le>length hbs. stalled (0 # map snd (take n hbs)) 5))"

definition watching :: "'w system \<Rightarrow> bool" where
  "watching s \<longleftrightarrow> wd_tracks (sampled s) (sh_wd (now s)) \<and> reported (sampled s) (sh_wd (now s))
     \<and> sorted (map fst (sy_samples s)) \<and> sorted (map snd (sy_samples s))
     \<and> (\<forall>k\<in>set (sy_samples s). fst k < length (sy_states s) \<and> snd k < length (sy_states s))"

lemma ex_take_append: "\<exists>n\<le>length hbs. P (take n hbs) \<Longrightarrow> \<exists>n\<le>length (hbs @ hbs'). P (take n (hbs @ hbs'))"
proof -
  assume "\<exists>n\<le>length hbs. P (take n hbs)"
  then obtain n where "n \<le> length hbs" "P (take n hbs)"
    by blast
  then show ?thesis
    by (intro exI [of _ n]) simp
qed

lemma reported_step:
  assumes "wd_tracks hbs w" and "reported hbs w" and "\<not> wd_exited w"
  shows "reported (hbs @ [hb]) (watchdog_step tm hb w)"
proof (cases "someone_dead (hbs @ [hb])")
  case False
  then have "g_watchdog_dead_thread (watchdog_step tm hb w) = g_watchdog_dead_thread w"
    "\<not> wd_exited (watchdog_step tm hb w)"
    using watchdog_step_alive [OF assms(1) False, of tm] assms(3) by simp_all
  moreover have "\<exists>n\<le>length (hbs @ [hb]). stalled (0 # map fst (take n (hbs @ [hb]))) 5" if "g_watchdog_dead_thread w = 1"
    using that assms(2) ex_take_append [where P = "\<lambda>l. stalled (0 # map fst l) 5"] unfolding reported_def by blast
  moreover have "\<exists>n\<le>length (hbs @ [hb]). stalled (0 # map snd (take n (hbs @ [hb]))) 5" if "g_watchdog_dead_thread w = 2"
    using that assms(2) ex_take_append [where P = "\<lambda>l. stalled (0 # map snd l) 5"] unfolding reported_def by blast
  ultimately show ?thesis
    unfolding reported_def by simp
next
  case True
  then have "g_watchdog_dead_thread (watchdog_step tm hb w) = (if stalled (0 # map snd (hbs @ [hb])) 5 then 2 else 1)"
    "stalled (0 # map fst (hbs @ [hb])) 5 \<or> stalled (0 # map snd (hbs @ [hb])) 5"
    using watchdog_step_dead(3) [OF assms(1) True, of tm] by (simp_all only: someone_dead_def)
  then show ?thesis
    unfolding reported_def by (intro conjI impI exI [of _ "length (hbs @ [hb])"]) (simp_all only: take_all order_refl split: if_splits, simp_all)
qed

lemma beats_at_append: "fst k < length xs \<Longrightarrow> snd k < length xs \<Longrightarrow> beats_at (xs @ ys) k = beats_at xs k"
  by (simp add: beats_at_def nth_append)

lemma watching_other:
  assumes "watching s" and "sy_states t = sy_states s @ xs" and "sy_samples t = sy_samples s" and "sh_wd (now t) = sh_wd (now s)"
  shows "watching t"
proof -
  have "sampled t = sampled s"
    using assms(1-3) by (auto simp: sampled_def watching_def beats_at_append)
  then show ?thesis
    using assms by (auto simp: watching_def)
qed

lemma watching_step:
  assumes "sys_step sc tm s t" and "sy_states s \<noteq> []" and "watching s"
  shows "watching t"
  using assms(1)
proof cases
  case (sample k1 k2)
  let ?hb = "beats_at (sy_states s) (k1, k2)"
  have k: "k1 < length (sy_states s)" "k2 < length (sy_states s)"
    using sample(4,6) assms(2) by (auto simp: less_eq_Suc_le Suc_leI neq_Nil_conv)
  have old: "\<forall>k\<in>set (sy_samples s). fst k < length (sy_states s) \<and> snd k < length (sy_states s)"
    using assms(3) by (simp add: watching_def)
  have new: "sampled t = sampled s @ [?hb]" "sh_wd (now t) = watchdog_step tm ?hb (sh_wd (now s))"
    using k old unfolding sample(1) by (auto simp: sampled_def beats_at_append)
  have "sorted (map fst (sy_samples t))" "sorted (map snd (sy_samples t))"
    using assms(3) sample(3,5) unfolding sample(1)
    by (cases "sy_samples s = []"; auto simp: watching_def last_map intro!: sorted_snoc_last)+
  moreover have "\<forall>k\<in>set (sy_samples t). fst k < length (sy_states t) \<and> snd k < length (sy_states t)"
    using k old unfolding sample(1) by auto
  ultimately show ?thesis
    using assms(3) sample(2) reported_step watchdog_step_tracks unfolding watching_def new by blast
qed (auto simp: set_web_def intro!: watching_other [OF assms(3)])

text \<open>
  Over the last five samples of \<open>ks\<close> every state had the same value of \<open>f\<close>. The first sample of
  all is compared with the state at the start.
\<close>

definition quiet :: "(shared \<Rightarrow> u64) \<Rightarrow> shared list \<Rightarrow> nat list \<Rightarrow> bool" where
  "quiet f xs ks \<longleftrightarrow> (let ks = 0 # ks in 5 < length ks
     \<and> (\<forall>j\<in>{ks ! (length ks - 6)..last ks}. f (xs ! j) = f (xs ! last ks)))"

lemma stalled_last:
  assumes "stalled hs j"
  shows "hs ! (length hs - Suc j) = last hs"
  using assms
proof (induction j)
  case 0
  then show ?case by (simp add: stalled_def last_conv_nth)
next
  case (Suc j)
  have less: "Suc j < length hs" and same: "hs ! (length hs - Suc j) = hs ! (length hs - Suc j - 1)"
    using Suc.prems by (auto simp: stalled_def)
  have "stalled hs j"
    using Suc.prems by (auto simp: stalled_def)
  then show ?case
    using Suc.IH same by simp
qed

lemma sorted_between:
  fixes f :: "'a \<Rightarrow> u64"
  assumes "sorted (map (\<lambda>x. unat (f x)) xs)" and "f (xs ! a) = f (xs ! b)" and "a \<le> j" and "j \<le> b" and "b < length xs"
  shows "f (xs ! j) = f (xs ! b)"
proof -
  have "unat (f (xs ! a)) \<le> unat (f (xs ! j))"
    using sorted_nth_mono [OF assms(1,3)] assms(3-5) by simp
  moreover have "unat (f (xs ! j)) \<le> unat (f (xs ! b))"
    using sorted_nth_mono [OF assms(1,4)] assms(4,5) by simp
  ultimately show ?thesis
    using assms(2) by (simp add: word_unat_eq_iff)
qed

lemma stalled_quiet:
  assumes "stalled (0 # map (\<lambda>k. f (xs ! k)) ks) 5" and "f (hd xs) = 0" and "xs \<noteq> []"
    and "sorted (map (\<lambda>x. unat (f x)) xs)" and "\<forall>k\<in>set ks. k < length xs" and "sorted ks"
  shows "quiet f xs ks"
proof -
  define kk where "kk = 0 # ks"
  let ?a = "kk ! (length kk - 6)"
  have beats: "0 # map (\<lambda>k. f (xs ! k)) ks = map (\<lambda>k. f (xs ! k)) kk"
    using assms(2,3) by (simp add: kk_def hd_conv_nth)
  have len: "5 < length kk"
    using assms(1) by (simp add: stalled_def kk_def)
  let ?g = "\<lambda>k. f (xs ! k)"
  have "map ?g kk ! (length kk - 6) = last (map ?g kk)"
    using stalled_last [OF assms(1) [unfolded beats]] by simp
  moreover have "map ?g kk ! (length kk - 6) = ?g (kk ! (length kk - 6))"
    by (rule nth_map) (use len in simp)
  moreover have "last (map ?g kk) = ?g (last kk)"
    by (rule last_map) (simp add: kk_def)
  ultimately have "f (xs ! ?a) = f (xs ! last kk)"
    by simp
  moreover have "last kk < length xs"
    using assms(3,5) by (auto simp: kk_def)
  ultimately have "f (xs ! j) = f (xs ! last kk)" if "?a \<le> j" "j \<le> last kk" for j
    using that by (blast intro: sorted_between [OF assms(4)])
  then show ?thesis
    using len unfolding quiet_def Let_def kk_def [symmetric] by (intro conjI ballI) (simp_all only: atLeastAtMost_iff)
qed

section \<open>Reachable states\<close>

definition system_ok :: "i32 \<times> i32 \<times> modbus_reg_data \<Rightarrow> resource list \<Rightarrow> 'w system \<Rightarrow> bool" where
  "system_ok r0 held s \<longleftrightarrow> collecting r0 s \<and> past_fine r0 s \<and> web_answers held s \<and> serving s \<and> beating s \<and> watching s"

lemma system_ok_step:
  assumes "sys_step sc tm s t" and "system_ok r0 held s"
  shows "system_ok r0 held t"
proof -
  have s: "collecting r0 s" "past_fine r0 s" "web_answers held s" "serving s" "beating s" "watching s" "sy_states s \<noteq> []"
    using assms(2) by (simp_all add: system_ok_def past_fine_def)
  have "collecting r0 t"
    by (rule collecting_step [OF assms(1) s(1)])
  then show ?thesis
    using past_fine_step [OF assms(1) _ s(2)] web_answers_step [OF assms(1) s(2,3)] serving_step [OF assms(1) s(4)]
      beating_step [OF assms(1) s(2,1,5)] watching_step [OF assms(1) s(7,6)] by (simp add: system_ok_def)
qed

lemma system_ok_run: "sys_run sc tm s t \<Longrightarrow> system_ok r0 held s \<Longrightarrow> system_ok r0 held t"
  by (induction rule: rtranclp_induct) (auto intro: system_ok_step)

text \<open>A collector at the head of its loop: started on a running state machine, with 32-bit warm-up latencies.\<close>

definition begun :: "fsm_context \<Rightarrow> modbus_reg_data \<Rightarrow> collector \<Rightarrow> bool" where
  "begun ctx regs c \<longleftrightarrow> (\<exists>files r buf6 buf2. collector_start files r buf6 buf2 ctx metrics_start regs = Some c
     \<and> length buf6 = 6 \<and> length buf2 = 2 \<and> (\<forall>l\<in>set (warm_latencies files). int32 l))
     \<and> fsm_ok ctx \<and> fsm_state ctx = STATE_RUNNING"

lemma system_ok_start:
  assumes "begun ctx regs c"
  shows "system_ok (readings c) held (sys_start c held w)" "readings c = (temp_raw ctx, hum_raw ctx, regs)"
proof -
  obtain files r buf6 buf2 where start: "collector_start files r buf6 buf2 ctx metrics_start regs = Some c"
    "length buf6 = 6" "length buf2 = 2" "\<forall>l\<in>set (warm_latencies files). int32 l" "fsm_ok ctx" "fsm_state ctx = STATE_RUNNING"
    using assms by (auto simp: begun_def)
  obtain xs where c: "collector_ok 200 c" "g_sensor_heartbeat c = 0" "g_fsm c = ctx" "c_regs c = regs" "latest_ax c = 0" "latest_ay c = 0"
    "length xs \<le> 200" "window_of xs (c_metrics c)" "set xs \<subseteq> set (warm_latencies files)"
    using collector_start_ok [OF start(5,6) window_of_start start(2,3), of files r regs] start(1) by auto
  then have "\<forall>x\<in>set xs. int32 x"
    using start(4) by blast
  then have ok: "col_ok [] (readings c) 5 c"
    using c measured_start by (auto simp: col_ok_def collector_ok_def beats_left_def)
  then have "collecting (readings c) (sys_start c held w)"
    by (auto simp: collecting_def sys_start_def max_rounds_def intro!: exI [of _ "5 :: nat"])
  moreover have "past_fine (readings c) (sys_start c held w)"
    using col_ok_fine [OF ok] by (simp add: past_fine_def sys_start_def wd_fine_def watchdog_start_def)
  moreover have "web_answers held (sys_start c held w)" "serving (sys_start c held w)"
    by (simp_all add: web_answers_def serving_def sys_start_def server_start_def server_ok_def bl_ok_empty)
  moreover have "beating (sys_start c held w)"
    using c(2) by (simp add: beating_def sys_start_def)
  moreover have "watching (sys_start c held w)"
    using wd_tracks_start by (simp add: watching_def sys_start_def sampled_def reported_def watchdog_start_def)
  ultimately show "system_ok (readings c) held (sys_start c held w)"
    by (simp add: system_ok_def)
  show "readings c = (temp_raw ctx, hum_raw ctx, regs)"
    using c(3,4) by (simp add: readings_def)
qed

lemma reachable_ok:
  assumes "begun ctx regs c" and "sys_run sc tm (sys_start c held w) s"
  shows "system_ok (temp_raw ctx, hum_raw ctx, regs) held s"
  using system_ok_run [OF assms(2) system_ok_start(1) [OF assms(1)]] system_ok_start(2) [OF assms(1)] by simp

section \<open>Runs of the collector alone\<close>

lemma run_phases:
  assumes "run_ops fs (sh_col (now s)) = Some c" and "sy_todo s = fs" and "sy_states s \<noteq> []"
  shows "\<exists>xs. sys_run sc tm s (s\<lparr>sy_todo := [], sy_states := sy_states s @ xs\<rparr>)
    \<and> last (sy_states s @ xs) = (now s)\<lparr>sh_col := c\<rparr>"
  using assms
proof (induction fs arbitrary: s)
  case Nil
  have "s\<lparr>sy_todo := [], sy_states := sy_states s @ []\<rparr> = s"
    using Nil.prems(2) by (cases s) simp
  then show ?case
    using Nil.prems(1) by (intro exI [of _ "[]"]) auto
next
  case (Cons f fs)
  obtain c1 where c1: "f (sh_col (now s)) = Some c1" "run_ops fs c1 = Some c"
    using Cons.prems(1) by (auto split: option.splits)
  let ?s = "push ((now s)\<lparr>sh_col := c1\<rparr>) (s\<lparr>sy_todo := fs\<rparr>)"
  obtain xs where xs: "sys_run sc tm ?s (?s\<lparr>sy_todo := [], sy_states := sy_states ?s @ xs\<rparr>)"
    "last (sy_states ?s @ xs) = (now ?s)\<lparr>sh_col := c\<rparr>"
    using Cons.IH [of ?s] c1(2) by auto
  have "sys_step sc tm s ?s"
    by (rule sys_step.collect [OF Cons.prems(2) c1(1)])
  then have "sys_run sc tm s (?s\<lparr>sy_todo := [], sy_states := sy_states ?s @ xs\<rparr>)"
    using xs(1) by (rule converse_rtranclp_into_rtranclp)
  then show ?case
    using xs(2) by (intro exI [of _ "(now s)\<lparr>sh_col := c1\<rparr> # xs"]) (simp add: push_def)
qed

text \<open>A whole round, with no other thread in between, is a round of the loop.\<close>

lemma run_round:
  assumes "collector_round i (sh_col (now s)) = Some c" and "sy_todo s = []" and "sy_states s \<noteq> []" and "real_round i"
    and "length (sy_rounds s) < max_rounds"
  shows "\<exists>xs. sys_run sc tm s (s\<lparr>sy_rounds := sy_rounds s @ [i], sy_states := sy_states s @ xs\<rparr>)
    \<and> last (sy_states s @ xs) = (now s)\<lparr>sh_col := c\<rparr>"
proof -
  let ?s = "s\<lparr>sy_todo := round_ops i, sy_rounds := sy_rounds s @ [i]\<rparr>"
  obtain xs where xs: "sys_run sc tm ?s (?s\<lparr>sy_todo := [], sy_states := sy_states ?s @ xs\<rparr>)"
    "last (sy_states ?s @ xs) = (now ?s)\<lparr>sh_col := c\<rparr>"
    using run_phases [of "round_ops i" ?s c sc tm] assms(1,3) run_round_ops by auto
  have same: "?s\<lparr>sy_todo := [], sy_states := sy_states ?s @ xs\<rparr> = s\<lparr>sy_rounds := sy_rounds s @ [i], sy_states := sy_states s @ xs\<rparr>"
    using assms(2) by simp
  have "sys_step sc tm s ?s"
    by (rule sys_step.begin_round [OF assms(2,4,5)])
  then have "sys_run sc tm s (?s\<lparr>sy_todo := [], sy_states := sy_states ?s @ xs\<rparr>)"
    using xs(1) by (rule converse_rtranclp_into_rtranclp)
  then show ?thesis
    using xs(2) unfolding same by auto
qed

section \<open>Runs to apply the properties to\<close>

text \<open>The collector without a motion sensor at its start, and a round of the humidity sensor.\<close>

definition idle_started :: collector where
  "idle_started = started\<lparr>mpu_open := False\<rparr>"

lemma idle_started_begun: "begun running_fsm zero_regs idle_started"
proof -
  have "collector_start [] 0 (replicate 6 zero_sensor_data) (replicate 2 zero_sensor_data) running_fsm metrics_start zero_regs = Some idle_started"
    by (simp add: collector_start_def idle_started_def started_def hal_get_ops_def hal_registry_def hal_search.simps)
  then show ?thesis
    unfolding begun_def using running_fsm_ok
    by (intro conjI exI [of _ "[]"] exI [of _ "0 :: int"] exI [of _ "replicate 6 zero_sensor_data"] exI [of _ "replicate 2 zero_sensor_data"])
      (simp_all add: warm_latencies_def)
qed

definition humid_round :: round_in where
  "humid_round = (round_of [] (- ENODEV, []) (32, [\<lparr>timestamp_ns = 5000000006, sensor_type = SENSOR_SHT30, channel = 0, sd_value = 21500\<rparr>,
     \<lparr>timestamp_ns = 5000000006, sensor_type = SENSOR_SHT30, channel = 1, sd_value = 45000\<rparr>]))"

lemma humid_round_real: "real_round humid_round"
proof -
  have "mpu_read (6 * sizeof_sensor_data) ([(- ENODEV, snd again)], hal_start) = Some (- ENODEV, [], ([], hal_start))"
    by (simp add: mpu_read_def mpu6050_hal_read_def drain.simps errno_defs)
  moreover have "hal_ok (snd ([(- ENODEV, snd again)], hal_start))"
    by simp
  moreover have atoi: "atoi (''21500'' @ [CHR 0x0A]) = 21500" "atoi (''45000'' @ [CHR 0x0A]) = 45000"
    by (simp_all add: atoi_def is_space_def is_digit_def)
  then have "sht_read (2 * sizeof_sensor_data) ([\<lparr>tv_sec = 5, tv_nsec = 6\<rparr>], [(6, ''21500'' @ [CHR 0x0A])], [(6, ''45000'' @ [CHR 0x0A])], metrics_start)
      = Some (fst (in_sht humid_round), snd (in_sht humid_round), ([], [], [], metrics_start\<lparr>g_temperature_milli := 21500, g_humidity_milli := 45000\<rparr>))"
    using atoi by (simp add: sht_read_def sht30_hal_read_def read_sysfs_int.simps humid_round_def)
  ultimately have "driver_round humid_round"
    unfolding driver_round_def by (metis fst_conv snd_conv humid_round_def round_of_simps(2))
  then show ?thesis
    by (simp add: real_round_def humid_round_def round_of_def latency_us_def int32_def)
qed

text \<open>A client that connects, and a request of it for registers that are drawn from the past.\<close>

lemma run_request:
  assumes "sy_client s = None" and "ban_time (g_blacklist (sy_server s)) 1 = 0" and "regs_drawn (sy_states s) d"
  shows "\<exists>t. sys_run sc tm s t \<and> Reply read_query 12 (load_regs d) \<in> set (sent (sy_server t)) \<and> sy_states t = sy_states s
    \<and> sy_rounds t = sy_rounds s"
proof -
  let ?r = "(read_request 0)\<lparr>rq_regs := d\<rparr>"
  obtain bl where bl: "is_ip_banned 1 0 (g_blacklist (sy_server s)) = (False, bl)"
    using is_ip_banned_ban_time [of 0 1 "g_blacklist (sy_server s)"] assms(2) by (metis less_irrefl order_refl prod.collapse)
  let ?s = "s\<lparr>sy_server := (sy_server s)\<lparr>g_blacklist := bl\<rparr>, sy_client := Some (1, replicate 260 0)\<rparr>"
  have one: "sys_step sc tm s ?s"
    using sys_step.accept [of s "client 1 0 []" False bl sc tm] assms(1) bl by simp
  obtain goes_on query' sv where r: "client_request sc 1 (replicate 260 0) ?r (sy_server ?s) = (goes_on, query', sv)"
    by (metis prod_cases3)
  have q: "read_query = received (rq_frame ?r) (replicate 260 0)"
    using received_simps(1) [of 0] by (simp add: read_request_def)
  have "sent sv = sent (sy_server ?s) @ [answer_of (read_query, ?r)]"
    by (rule client_request_served(3) [OF _ _ q r]) simp_all
  moreover have "answer_of (read_query, ?r) = Reply read_query 12 (load_regs d)"
    by (simp add: answer_of_def MODBUS_FC_READ_HOLDING_REGISTERS_def)
  moreover have two: "sys_step sc tm ?s (?s\<lparr>sy_server := sv, sy_client := (if goes_on then Some (1, query') else None)\<rparr>)"
    by (rule sys_step.request [OF _ _ r]) (use assms(3) in simp_all)
  ultimately show ?thesis
    using one two by (intro exI [of _ "?s\<lparr>sy_server := sv, sy_client := (if goes_on then Some (1, query') else None)\<rparr>"])
      (auto intro: converse_rtranclp_into_rtranclp)
qed

text \<open>The first round of a collector, when its humidity sensor delivers.\<close>

lemma first_frame:
  assumes "begun ctx regs c" and "real_round i" and "sht_open c" and "0 < fst (in_sht i)" and "snd (in_sht i) = [x, y]"
  obtains c' where "collector_round i c = Some c'" "temperature (c_regs c') = word_of_int (sint (sd_value x) sdiv 10)"
    "humidity (c_regs c') = word_of_int (sint (sd_value y) sdiv 10)"
proof -
  obtain files r buf6 buf2 where start: "collector_start files r buf6 buf2 ctx metrics_start regs = Some c"
    "length buf6 = 6" "length buf2 = 2" "fsm_ok ctx" "fsm_state ctx = STATE_RUNNING"
    using assms(1) by (auto simp: begun_def)
  have "collector_ok 200 c"
    using collector_start_ok [OF start(4,5) window_of_start start(2,3), of files r regs] start(1) by auto
  moreover have "possible i"
    using assms(2) driver_round_possible by (simp add: real_round_def)
  ultimately obtain c1 c2 where r: "collector_round i c = Some (beat (publish_state c2))" "mpu_result i (beat c) c1" "sht_result i c1 c2"
    by (rule collector_round_phases) simp
  have "sht_delivers i c1"
    using mpu_result_health(4) [OF r(2)] assms(3,4) by (simp add: sht_delivers_def)
  then show ?thesis
    using that [OF r(1)] r(3) assms(5) by (simp add: sht_result_def)
qed

text \<open>Samples that all see the state at the start.\<close>

lemma run_idle_samples:
  assumes "n \<le> 5"
  shows "\<exists>s. sys_run sc tm (sys_start c held w) s \<and> sy_samples s = replicate n (0, 0)
    \<and> hd (sy_states s) = hd (sy_states (sys_start c held w)) \<and> sy_states s \<noteq> []
    \<and> sh_wd (now s) = watchdog_loop tm (replicate n (g_sensor_heartbeat c, 0)) watchdog_start"
  using assms
proof (induction n)
  case 0
  show ?case
    by (intro exI [of _ "sys_start c held w"]) (simp add: sys_start_def)
next
  case (Suc n)
  let ?hb = "(g_sensor_heartbeat c, 0 :: u64)"
  obtain s where s: "sys_run sc tm (sys_start c held w) s" "sy_samples s = replicate n (0, 0)"
    "hd (sy_states s) = hd (sy_states (sys_start c held w))" "sy_states s \<noteq> []"
    "sh_wd (now s) = watchdog_loop tm (replicate n ?hb) watchdog_start"
    using Suc by auto
  have "\<not> someone_dead (take k (replicate n ?hb))" for k
    using Suc.prems by (auto simp: someone_dead_def stalled_def)
  then have wd: "\<not> wd_exited (sh_wd (now s))"
    unfolding s(5) using watchdog_loop_running by blast
  have hb: "beats_at (sy_states s) (0, 0) = ?hb"
    using s(3,4) by (simp add: beats_at_def sys_start_def flip: hd_conv_nth)
  let ?t = "push ((now s)\<lparr>sh_wd := watchdog_step tm (beats_at (sy_states s) (0, 0)) (sh_wd (now s))\<rparr>)
    (s\<lparr>sy_samples := sy_samples s @ [(0, 0)]\<rparr>)"
  have "sys_step sc tm s ?t"
    by (rule sys_step.sample) (use wd s(2) in \<open>cases n; simp\<close>)+
  moreover have "sh_wd (now ?t) = watchdog_loop tm (replicate (Suc n) ?hb) watchdog_start"
    using wd s(5) watchdog_loop_append [of tm "replicate n ?hb" "[?hb]" watchdog_start]
    by (simp add: hb replicate_append_same)
  ultimately show ?case
    using s by (intro exI [of _ ?t]) (auto simp: replicate_append_same)
qed

lemma humid_frame:
  "sht_open idle_started" "0 < fst (in_sht humid_round)"
  "snd (in_sht humid_round) = [\<lparr>timestamp_ns = 5000000006, sensor_type = SENSOR_SHT30, channel = 0, sd_value = 21500\<rparr>,
     \<lparr>timestamp_ns = 5000000006, sensor_type = SENSOR_SHT30, channel = 1, sd_value = 45000\<rparr>]"
  by (simp_all add: idle_started_def started_def humid_round_def)

section \<open>Properties\<close>

text \<open>
  C2. The four threads together are safe in every interleaving: in every state they can reach, the
  next phase of the collector is defined whatever its drivers answered; a request the web thread
  gets then, whichever moments its loads see, of a client that goes on reading (each \<open>send\<close> takes
  at least a byte), gets its complete answer if it has a request line and none if it has not, with
  the connection closed; what was sent before are complete answers too; the thread holds only what
  it held at the start, the server's answers are proper and its blacklist is well formed, and the
  state machine is running, degraded or recovering in every state of the past.
\<close>

theorem system_safe:
  assumes "begun ctx regs c" and "sys_run sc tm (sys_start c held w) s"
  shows "(\<forall>f fs. sy_todo s = f # fs \<longrightarrow> f (sh_col (now s)) \<noteq> None)
    \<and> (\<forall>r. reads_on 3600 (wr_sends r) \<and> view_drawn (sy_states s) (wr_view r) \<longrightarrow>
        (\<exists>w'. serve_client r (sy_web s) = Inr w' \<and> web_held w' = held
          \<and> web_sent w' = web_sent (sy_web s)
              @ (case answered_path r of None \<Rightarrow> [] | Some path \<Rightarrow> [expected_answer path (wr_view r)])))
    \<and> (\<forall>out\<in>set (web_sent (sy_web s)). \<exists>path v. view_drawn (sy_states s) v \<and> out = expected_answer path v)
    \<and> web_held (sy_web s) = held \<and> server_ok (sy_server s)
    \<and> (\<forall>x\<in>set (sy_states s). fsm_state (g_fsm (sh_col x)) \<in> {STATE_RUNNING, STATE_DEGRADED, STATE_RECOVERING})"
proof -
  have s: "collecting (temp_raw ctx, hum_raw ctx, regs) s" "past_fine (temp_raw ctx, hum_raw ctx, regs) s" "web_answers held s" "serving s"
    using reachable_ok [OF assms] by (simp_all add: system_ok_def)
  have "f (sh_col (now s)) \<noteq> None" if "sy_todo s = f # fs" for f fs
    using collecting_phase [OF s(1) that] by auto
  moreover have "\<exists>w'. serve_client r (sy_web s) = Inr w' \<and> web_held w' = held
      \<and> web_sent w' = web_sent (sy_web s) @ (case answered_path r of None \<Rightarrow> [] | Some path \<Rightarrow> [expected_answer path (wr_view r)])"
    if "reads_on 3600 (wr_sends r)" "view_drawn (sy_states s) (wr_view r)" for r
    using web_serves_drawn [OF s(2) that] s(3) by (cases "answered_path r") (simp_all add: web_answers_def feed_http_def)
  moreover have "\<forall>out\<in>set (web_sent (sy_web s)). \<exists>path v. view_drawn (sy_states s) v \<and> out = expected_answer path v" "web_held (sy_web s) = held"
    using s(3) by (simp_all add: web_answers_def)
  moreover have "server_ok (sy_server s)"
    using s(4) by (simp add: serving_def)
  moreover have "\<forall>x\<in>set (sy_states s). fsm_state (g_fsm (sh_col x)) \<in> {STATE_RUNNING, STATE_DEGRADED, STATE_RECOVERING}"
    using s(2) by (simp add: past_fine_def col_fine_def)
  ultimately show ?thesis
    by blast
qed

text \<open>A request whose loads all see the last state.\<close>

definition view_now :: "shared \<Rightarrow> web_view" where
  "view_now x = \<lparr>v_state = g_fsm (sh_col x), v_name = g_fsm (sh_col x), v_mpu_fails = mpu_fail_count (g_fsm (sh_col x)),
     v_i2c_retries = i2c_retry_count (g_fsm (sh_col x)), v_metrics = c_metrics (sh_col x), v_temp_raw = temp_raw (g_fsm (sh_col x)),
     v_hum_raw = hum_raw (g_fsm (sh_col x)), v_dead_thread = g_watchdog_dead_thread (sh_wd x),
     v_monitor_alive = g_watchdog_monitor_alive (sh_wd x)\<rparr>"

lemma view_now_drawn:
  assumes "x \<in> set xs" and "length (g_latency_window (c_metrics (sh_col x))) = LATENCY_WINDOW_SIZE"
  shows "view_drawn xs (view_now x)"
  using assms by (auto simp: view_drawn_def view_now_def window_drawn_def intro!: imageI)

theorem system_safe_witness:
  "\<exists>s r w'. sys_run (\<lambda>_ w. (0, w)) False (sys_start idle_started [Fd 4] ()) s \<and> sy_rounds s = [humid_round]
    \<and> web_held (sy_web s) = [Fd 4] \<and> server_ok (sy_server s)
    \<and> serve_client r (sy_web s) = Inr w' \<and> web_sent w' = web_sent (sy_web s) @ [expected_answer ''/'' (view_now (now s))]"
proof -
  let ?s = "sys_start idle_started [Fd 4] ()"
  obtain c' where "collector_round humid_round (sh_col (now ?s)) = Some c'"
    using first_frame [OF idle_started_begun humid_round_real, of _ _ thesis] humid_frame by (auto simp: sys_start_def)
  then obtain s where s: "sys_run (\<lambda>_ w. (0, w)) False ?s s" "sy_rounds s = [humid_round]"
    using run_round [of humid_round ?s c' "\<lambda>_ w. (0, w)" False] humid_round_real by (auto simp: sys_start_def max_rounds_def)
  obtain r where r: "wr_view r = view_now (now s)" "reads_on 3600 (wr_sends r)" "answered_path r = Some ''/''"
  proof
    let ?r = "(web_request_of 6 ''GET / HTTP/1.1'')\<lparr>wr_view := view_now (now s)\<rparr>"
    show "wr_view ?r = view_now (now s)" "reads_on 3600 (wr_sends ?r)"
      by (simp_all add: web_request_of_def reads_on_def)
    show "answered_path ?r = Some ''/''"
      by (simp add: web_request_of_def answered_path_def request_string_def parse_request_def scan_word_def is_space_def Let_def)
  qed
  have "sy_states s \<noteq> []" "length (g_latency_window (c_metrics (sh_col (now s)))) = LATENCY_WINDOW_SIZE"
    using reachable_ok [OF idle_started_begun s(1)] by (simp_all add: system_ok_def past_fine_def col_fine_def)
  then have drawn: "view_drawn (sy_states s) (wr_view r)"
    using view_now_drawn [of "now s" "sy_states s"] r(1) by simp
  note safe = system_safe [OF idle_started_begun s(1)]
  obtain w' where "serve_client r (sy_web s) = Inr w'" "web_sent w' = web_sent (sy_web s) @ [expected_answer ''/'' (view_now (now s))]"
    using safe [THEN conjunct2, THEN conjunct1, rule_format, OF conjI, OF r(2) drawn] r(1,3) by auto
  then show ?thesis
    using safe s by blast
qed

text \<open>
  Values of a web request, of the registers, that were measured or are those of the start; for a web
  request also its states and what it loads of the monitor, not its counters and latencies.
\<close>

definition view_measured :: "round_in list \<Rightarrow> fsm_context \<Rightarrow> web_view \<Rightarrow> bool" where
  "view_measured is ctx v \<longleftrightarrow> (v_temp_raw v = temp_raw ctx \<or> (\<exists>h. sht_measured is (v_temp_raw v) h))
     \<and> (v_hum_raw v = hum_raw ctx \<or> (\<exists>t. sht_measured is t (v_hum_raw v)))
     \<and> fsm_state (v_state v) \<in> {STATE_RUNNING, STATE_DEGRADED, STATE_RECOVERING}
     \<and> fsm_state (v_name v) \<in> {STATE_RUNNING, STATE_DEGRADED, STATE_RECOVERING}
     \<and> v_dead_thread v \<in> {0, 1, 2} \<and> v_monitor_alive v = 0"

definition regs_measured :: "round_in list \<Rightarrow> modbus_reg_data \<Rightarrow> modbus_reg_data \<Rightarrow> bool" where
  "regs_measured is regs d \<longleftrightarrow>
     (temperature d = temperature regs \<or> (\<exists>t h. sht_measured is t h \<and> temperature d = word_of_int (sint t sdiv 10)))
     \<and> (humidity d = humidity regs \<or> (\<exists>t h. sht_measured is t h \<and> humidity d = word_of_int (sint h sdiv 10)))
     \<and> (accel_x d = accel_x regs \<or> (\<exists>v. axis_measured is 0 v \<and> accel_x d = ucast v))
     \<and> (accel_y d = accel_y regs \<or> (\<exists>v. axis_measured is 1 v \<and> accel_y d = ucast v))"

lemma published_cases:
  assumes "published_by is (temp_raw ctx, hum_raw ctx, regs) (readings c)"
  shows "temp_raw (g_fsm c) = temp_raw ctx \<or> (\<exists>h. sht_measured is (temp_raw (g_fsm c)) h)"
    "hum_raw (g_fsm c) = hum_raw ctx \<or> (\<exists>t. sht_measured is t (hum_raw (g_fsm c)))" "regs_measured is regs (c_regs c)"
proof -
  consider "temp_raw (g_fsm c) = temp_raw ctx" "hum_raw (g_fsm c) = hum_raw ctx" "c_regs c = regs"
    | t h ax ay where "sht_measured is t h" "axis_measured is 0 ax" "axis_measured is 1 ay"
      "temp_raw (g_fsm c) = t" "hum_raw (g_fsm c) = h" "c_regs c = \<lparr>temperature = word_of_int (sint t sdiv 10),
         humidity = word_of_int (sint h sdiv 10), accel_x = ucast ax, accel_y = ucast ay\<rparr>"
    using assms by (auto simp: published_by_def readings_def frame_values_def)
  then show "temp_raw (g_fsm c) = temp_raw ctx \<or> (\<exists>h. sht_measured is (temp_raw (g_fsm c)) h)"
    "hum_raw (g_fsm c) = hum_raw ctx \<or> (\<exists>t. sht_measured is t (hum_raw (g_fsm c)))" "regs_measured is regs (c_regs c)"
    by (cases; auto simp: regs_measured_def)+
qed

lemma regs_drawn_measured:
  assumes "past_fine (temp_raw ctx, hum_raw ctx, regs) s" and "regs_drawn (sy_states s) d"
  shows "regs_measured (sy_rounds s) regs d"
proof -
  have "\<forall>x\<in>set (sy_states s). regs_measured (sy_rounds s) regs (c_regs (sh_col x))"
    using assms(1) published_cases(3) [of "sy_rounds s" ctx regs] by (simp add: past_fine_def col_fine_def)
  then show ?thesis
    using assms(2) unfolding regs_drawn_def regs_measured_def by (elim conjE imageE, intro conjI) simp_all
qed

lemma view_drawn_measured:
  assumes "past_fine (temp_raw ctx, hum_raw ctx, regs) s" and "view_drawn (sy_states s) v"
  shows "view_measured (sy_rounds s) ctx v"
proof -
  have fine: "col_fine (sy_rounds s) (temp_raw ctx, hum_raw ctx, regs) (sh_col x)" "wd_fine (sh_wd x)" if "x \<in> set (sy_states s)" for x
    using assms(1) that by (simp_all add: past_fine_def)
  obtain x y where xy: "x \<in> set (sy_states s)" "v_temp_raw v = temp_raw (g_fsm (sh_col x))"
    "y \<in> set (sy_states s)" "v_hum_raw v = hum_raw (g_fsm (sh_col y))"
    using assms(2) unfolding view_drawn_def by auto
  then have "published_by (sy_rounds s) (temp_raw ctx, hum_raw ctx, regs) (readings (sh_col x))"
    "published_by (sy_rounds s) (temp_raw ctx, hum_raw ctx, regs) (readings (sh_col y))"
    using fine(1) by (simp_all add: col_fine_def)
  then have "v_temp_raw v = temp_raw ctx \<or> (\<exists>h. sht_measured (sy_rounds s) (v_temp_raw v) h)"
    "v_hum_raw v = hum_raw ctx \<or> (\<exists>t. sht_measured (sy_rounds s) t (v_hum_raw v))"
    using published_cases(1,2) xy by metis+
  moreover have "fsm_state (v_state v) \<in> {STATE_RUNNING, STATE_DEGRADED, STATE_RECOVERING}"
    "fsm_state (v_name v) \<in> {STATE_RUNNING, STATE_DEGRADED, STATE_RECOVERING}"
    using assms(2) fine(1) unfolding view_drawn_def col_fine_def by fastforce+
  moreover have "v_dead_thread v \<in> {0, 1, 2}" "v_monitor_alive v = 0"
    using assms(2) fine(2) unfolding view_drawn_def wd_fine_def by fastforce+
  ultimately show ?thesis
    unfolding view_measured_def by blast
qed

text \<open>
  C5. No sensor value is made up on the way to the outside: in every interleaving, each register of
  every reply the Modbus server sent is that of the start or comes from a round of the collector:
  the temperature and the humidity from a frame of the humidity sensor, the two accelerations from a
  sample of their axis of the motion sensor, or 0 from before the first. The temperature and the
  humidity of every page the web thread sent are those of the start or of such a frame, its states
  are running, degraded or recovering, and the name of the dead thread is 0, 1 or 2; nothing is
  said of its counters and percentiles. And what the collector has published of the sensors, in every
  state of the past, is one frame as a whole.
\<close>

theorem served_values_measured:
  assumes "begun ctx regs c" and "sys_run sc tm (sys_start c held w) s"
  shows "(\<forall>q rc tab. Reply q rc tab \<in> set (sent (sy_server s)) \<longrightarrow> (\<exists>d. regs_measured (sy_rounds s) regs d \<and> tab = load_regs d))
    \<and> (\<forall>out\<in>set (web_sent (sy_web s)). \<exists>path v. view_measured (sy_rounds s) ctx v \<and> out = expected_answer path v)
    \<and> (\<forall>x\<in>set (sy_states s). published_by (sy_rounds s) (temp_raw ctx, hum_raw ctx, regs) (readings (sh_col x)))"
proof -
  have s: "past_fine (temp_raw ctx, hum_raw ctx, regs) s" "web_answers held s" "serving s"
    using reachable_ok [OF assms] by (simp_all add: system_ok_def)
  have "\<exists>d. regs_measured (sy_rounds s) regs d \<and> tab = load_regs d" if "Reply q rc tab \<in> set (sent (sy_server s))" for q rc tab
    using s(3) that regs_drawn_measured [OF s(1)] unfolding serving_def by metis
  moreover have "\<exists>path v. view_measured (sy_rounds s) ctx v \<and> out = expected_answer path v" if "out \<in> set (web_sent (sy_web s))" for out
    using s(2) that view_drawn_measured [OF s(1)] unfolding web_answers_def by metis
  ultimately show ?thesis
    using s(1) by (simp add: past_fine_def col_fine_def)
qed

text \<open>A first round whose frame is \<open>x\<close> and \<open>y\<close>, and then a reply that drew the new temperature alone.\<close>

lemma mixed_reply:
  assumes "begun ctx regs c" and "real_round i" and "sht_open c" and "0 < fst (in_sht i)" and "snd (in_sht i) = [x, y]"
  shows "\<exists>s. sys_run sc tm (sys_start c held w) s \<and> sy_rounds s = [i]
    \<and> Reply read_query 12 [word_of_int (sint (sd_value x) sdiv 10), humidity regs, accel_x regs, accel_y regs] \<in> set (sent (sy_server s))"
proof -
  let ?s = "sys_start c held w"
  obtain c' where c': "collector_round i c = Some c'" "temperature (c_regs c') = word_of_int (sint (sd_value x) sdiv 10)"
    by (rule first_frame [OF assms])
  obtain xs where xs: "sys_run sc tm ?s (?s\<lparr>sy_rounds := sy_rounds ?s @ [i], sy_states := sy_states ?s @ xs\<rparr>)"
    "last (sy_states ?s @ xs) = (now ?s)\<lparr>sh_col := c'\<rparr>"
    using run_round [of i ?s c' sc tm] c'(1) assms(2) by (auto simp: sys_start_def max_rounds_def)
  let ?t = "?s\<lparr>sy_rounds := sy_rounds ?s @ [i], sy_states := sy_states ?s @ xs\<rparr>"
  let ?d = "regs\<lparr>temperature := temperature (c_regs c')\<rparr>"
  have "c_regs c = regs"
    using system_ok_start(2) [OF assms(1)] by (simp add: readings_def)
  then have old: "temperature regs = temperature (c_regs (sh_col (hd (sy_states ?t))))" "humidity ?d = humidity (c_regs (sh_col (hd (sy_states ?t))))"
    "accel_x ?d = accel_x (c_regs (sh_col (hd (sy_states ?t))))" "accel_y ?d = accel_y (c_regs (sh_col (hd (sy_states ?t))))"
    and new: "temperature ?d = temperature (c_regs (sh_col (last (sy_states ?t))))"
    and ne: "sy_states ?t \<noteq> []"
    using xs(2) by (simp_all add: sys_start_def)
  have "regs_drawn (sy_states ?t) ?d"
    unfolding regs_drawn_def
    by (intro conjI; rule image_eqI; (rule new old | rule last_in_set [OF ne] hd_in_set [OF ne]))
  then obtain t where "sys_run sc tm ?t t" "Reply read_query 12 (load_regs ?d) \<in> set (sent (sy_server t))" "sy_rounds t = sy_rounds ?t"
    using run_request [of ?t ?d sc tm] by (auto simp: sys_start_def empty_ban_time)
  then show ?thesis
    using xs(1) c'(2) by (intro exI [of _ t]) (auto simp: load_regs_eq sys_start_def)
qed

theorem served_values_measured_witness:
  "\<exists>s. sys_run (\<lambda>_ w. (0, w)) False (sys_start idle_started [Fd 4] ()) s \<and> sy_rounds s = [humid_round]
    \<and> (\<exists>d. regs_measured [humid_round] zero_regs d \<and> [2150, 0, 0, 0] = load_regs d)"
proof -
  obtain s where s: "sys_run (\<lambda>_ w. (0, w)) False (sys_start idle_started [Fd 4] ()) s" "sy_rounds s = [humid_round]"
    "Reply read_query 12 [2150, 0, 0, 0] \<in> set (sent (sy_server s))"
    using mixed_reply [OF idle_started_begun humid_round_real humid_frame, of "\<lambda>_ w. (0, w)" False "[Fd 4]" "()"]
    by (auto simp: zero_regs_def)
  show ?thesis
    using served_values_measured [OF idle_started_begun s(1)] s by (metis (no_types, lifting))
qed

text \<open>
  C4. The monitor raises no false alarm in any interleaving: it names the collector or the web thread
  dead, and lets the hardware reset the board, only if that thread made no beat at all over the
  states that five of its samples in a row span.
\<close>

theorem no_false_alarm:
  assumes "begun ctx regs c" and "sys_run sc tm (sys_start c held w) s"
  shows "(g_watchdog_dead_thread (sh_wd (now s)) = 1 \<longrightarrow>
      (\<exists>n\<le>length (sy_samples s). quiet (\<lambda>x. g_sensor_heartbeat (sh_col x)) (sy_states s) (map fst (take n (sy_samples s)))))
    \<and> (g_watchdog_dead_thread (sh_wd (now s)) = 2 \<longrightarrow>
      (\<exists>n\<le>length (sy_samples s). quiet sh_http (sy_states s) (map snd (take n (sy_samples s)))))
    \<and> (wd_exited (sh_wd (now s)) \<longrightarrow> g_watchdog_dead_thread (sh_wd (now s)) \<in> {1, 2})"
proof -
  have s: "past_fine (temp_raw ctx, hum_raw ctx, regs) s" "beating s" "watching s"
    using reachable_ok [OF assms] by (simp_all add: system_ok_def)
  have start: "sy_states s \<noteq> []" "sorted (map sensor_beats (sy_states s))" "sorted (map http_beats (sy_states s))"
    "g_sensor_heartbeat (sh_col (hd (sy_states s))) = 0" "sh_http (hd (sy_states s)) = 0"
    using s(2) by (simp_all add: beating_def unat_eq_0)
  have idx: "\<forall>k\<in>set (map fst (take n (sy_samples s))). k < length (sy_states s)" "\<forall>k\<in>set (map snd (take n (sy_samples s))). k < length (sy_states s)"
    for n
    using s(3) in_set_takeD [of _ n "sy_samples s"] unfolding watching_def set_map by blast+
  have sorted: "sorted (map fst (take n (sy_samples s)))" "sorted (map snd (take n (sy_samples s)))" for n
    using s(3) by (simp_all add: watching_def sorted_wrt_take flip: take_map)
  have sensor: "quiet (\<lambda>x. g_sensor_heartbeat (sh_col x)) (sy_states s) (map fst (take n (sy_samples s)))"
    if "stalled (0 # map fst (take n (sampled s))) 5" for n
    using that idx(1) sorted(1) start by (intro stalled_quiet) (simp_all add: sampled_def take_map beats_at_def comp_def)
  have http: "quiet sh_http (sy_states s) (map snd (take n (sy_samples s)))"
    if "stalled (0 # map snd (take n (sampled s))) 5" for n
    using that idx(2) sorted(2) start by (intro stalled_quiet) (simp_all add: sampled_def take_map beats_at_def comp_def)
  have "wd_fine (sh_wd (now s))" "reported (sampled s) (sh_wd (now s))" "length (sampled s) = length (sy_samples s)"
    using past_fine_now [OF s(1)] s(3) by (simp_all add: watching_def sampled_def)
  then show ?thesis
    using sensor http unfolding reported_def wd_fine_def by auto
qed

theorem no_false_alarm_witness:
  "\<exists>s n. sys_run (\<lambda>_ w. (0, w)) False (sys_start idle_started [Fd 4] ()) s \<and> wd_exited (sh_wd (now s))
    \<and> g_watchdog_dead_thread (sh_wd (now s)) = 2 \<and> n \<le> 5 \<and> quiet sh_http (sy_states s) (replicate n 0)"
proof -
  obtain s where s: "sys_run (\<lambda>_ w. (0, w)) False (sys_start idle_started [Fd 4] ()) s" "sy_samples s = replicate 5 (0, 0)"
    "sh_wd (now s) = watchdog_loop False (replicate 5 (0, 0)) watchdog_start"
    using run_idle_samples [of 5 "\<lambda>_ w. (0, w)" False idle_started "[Fd 4]" "()"] by (auto simp: idle_started_def started_def)
  have dead: "wd_exited (sh_wd (now s))" "g_watchdog_dead_thread (sh_wd (now s)) = 2"
    unfolding s(3) by (simp_all add: eval_nat_numeral watchdog_step_def sample_heartbeats_def watchdog_start_def DEAD_THRESHOLD_SEC_def Let_def)
  then obtain n where "n \<le> 5" "quiet sh_http (sy_states s) (map snd (take n (sy_samples s)))"
    using no_false_alarm [OF idle_started_begun s(1)] s(2) by auto
  then show ?thesis
    using s(1,2) dead by (auto simp: min_absorb1)
qed

end
