(* ===== verification/Sysfs_Path.thy ===== *)
theory Sysfs_Path
  imports Sht30_Driver Sht30_Hal
begin

text \<open>
  The path of a measurement from the kernel driver of the humidity sensor to its user-space driver:
  the texts of the two attribute files, read back with \<open>atoi\<close>.
\<close>

text \<open>
  What \<open>read\<close> on an attribute file of the kernel driver answers: the text of the attribute, or
  \<open>-1\<close> with nothing stored when the driver answers an error. The buffer of the reader has 31 bytes.
\<close>

definition sysfs_attempt :: "int + string \<Rightarrow> attempt" where
  "sysfs_attempt r = (case r of Inl _ \<Rightarrow> (-1, []) | Inr text \<Rightarrow> (int (min 31 (length text)), take 31 text))"

lemma attribute_text:
  "sysfs_attempt (Inr (string_of_int (sint (v :: i32)) @ [CHR 0x0A])) =
    (int (length (string_of_int (sint v)) + 1), string_of_int (sint v) @ [CHR 0x0A])"
proof -
  have "length (string_of_int (sint v)) \<le> 11"
    using int32_sint [of v] by (intro length_string_of_int) (simp_all add: int32_def)
  then show ?thesis
    by (simp add: sysfs_attempt_def)
qed

lemma atoi_attribute: "word_of_int (atoi (string_of_int (sint (v :: i32)) @ [CHR 0x0A])) = v"
proof -
  have "\<not> is_digit (CHR 0x0A)"
    by (simp add: is_digit_def)
  then show ?thesis
    using atoi_string_of_int [of "sint v" "CHR 0x0A" "[]"] int32_sint [of v] by (simp add: int32_def)
qed

lemma read_attribute:
  "read_sysfs_int 0 (sysfs_attempt (Inr (string_of_int (sint (v :: i32)) @ [CHR 0x0A])) # rest) m = Some (0, Some v, rest, m)"
  unfolding attribute_text
  by (simp add: read_sysfs_int.simps atoi_attribute [simplified])

lemma read_no_attribute:
  "read_sysfs_int 0 (replicate 3 (sysfs_attempt (Inl e))) m = Some (- EIO, None, [], add_retries 3 m)"
  using read_sysfs_int_bad [of "replicate 3 (sysfs_attempt (Inl e))" 0 "[]" m]
  by (simp add: failing_def sysfs_attempt_def)

text \<open>
  The user-space driver opens just these files: for a directory of at most 111 characters neither
  path is cut, each ends in the name of one of the two attributes, and that attribute shows the value
  that the reader takes it for.
\<close>

lemma hal_opens_attributes:
  assumes "length dir \<le> 111" and "sht30_hal_open dir new_block open_temp errno_temp open_hum errno_hum held = (0, Some (b, priv), held')"
  shows "temp_path priv = dir @ ''/'' @ attr_name (sht30_attrs ! 0)" "hum_path priv = dir @ ''/'' @ attr_name (sht30_attrs ! 1)"
    "show_file (drop (length dir + 1) (temp_path priv)) d = Some (temp1_input_show d)"
    "show_file (drop (length dir + 1) (hum_path priv)) d = Some (humidity1_input_show d)"
proof -
  have "temp_path priv = dir @ ''/temp1_input''" "hum_path priv = dir @ ''/humidity1_input''"
    using assms by (auto simp: sht30_hal_open_def path128_def Let_def split: option.splits if_splits)
  then show "temp_path priv = dir @ ''/'' @ attr_name (sht30_attrs ! 0)" "hum_path priv = dir @ ''/'' @ attr_name (sht30_attrs ! 1)"
    "show_file (drop (length dir + 1) (temp_path priv)) d = Some (temp1_input_show d)"
    "show_file (drop (length dir + 1) (hum_path priv)) d = Some (humidity1_input_show d)"
    by (simp_all add: sht30_attrs_def show_file_def)
qed

text \<open>What the user-space driver reads when the kernel driver has a measurement, and when it has none.\<close>

lemma read_driver:
  assumes "valid d"
  shows "\<exists>x y m'. sht30_hal_read 32 ts [sysfs_attempt (temp1_input_show d)] [sysfs_attempt (humidity1_input_show d)] m
      = Some (32, [x, y], [], [], m')
    \<and> sd_value x = temp d \<and> sd_value y = sd_humidity d \<and> channel x = 0 \<and> channel y = 1
    \<and> g_temperature_milli m' = temp d \<and> g_humidity_milli m' = sd_humidity d
    \<and> g_i2c_retry_total m' = g_i2c_retry_total m"
  using assms by (simp add: sht30_hal_read_def temp1_input_show_def humidity1_input_show_def read_attribute Let_def)

end
