(* ===== verification/Dead_Sensor.thy ===== *)
theory Dead_Sensor
  imports Sysfs_Path Collector
begin

text \<open>
  What becomes of sensors that stop answering on their bus. Of the humidity sensor: the kernel driver
  goes on measuring in vain and keeps its last values and their validity, and the collector goes on
  reading them. Of the motion sensor: no more events come, and the collector counts the rounds
  without data.
\<close>

section \<open>Measurements in vain\<close>

text \<open>A measurement: the results of the two transfers and the buffer after them.\<close>

type_synonym transfer = "int \<times> int \<times> u8 list"

definition transfer_fails :: "transfer \<Rightarrow> bool" where
  "transfer_fails t = (case t of (send_ret, recv_ret, buf) \<Rightarrow>
     length buf = 6 \<and> \<not> (send_ret = 2 \<and> recv_ret = 6 \<and> frame_ok buf))"

definition measurements :: "transfer list \<Rightarrow> sht30 \<Rightarrow> sht30" where
  "measurements = fold (\<lambda>(send_ret, recv_ret, buf). sht30_work_handler send_ret recv_ret buf)"

lemma measurements_in_vain:
  "\<forall>t\<in>set ts. transfer_fails t \<Longrightarrow> drv_data (measurements ts s) = drv_data s"
  by (induction ts arbitrary: s) (auto simp: measurements_def transfer_fails_def work_handler_eq)

text \<open>
  A round of the collector while it is dead: the read of the user-space driver finds the attribute
  files as they are after any number of measurements in vain.
\<close>

definition reads_dead :: "sht30 \<Rightarrow> round_in \<Rightarrow> bool" where
  "reads_dead s i \<longleftrightarrow> (\<exists>transfers ts m m'. (\<forall>t\<in>set transfers. transfer_fails t)
     \<and> (let d = drv_data (measurements transfers s) in
        sht30_hal_read 32 ts [sysfs_attempt (temp1_input_show d)] [sysfs_attempt (humidity1_input_show d)] m
          = Some (fst (in_sht i), snd (in_sht i), [], [], m')))"

lemma reads_dead_frame:
  assumes "reads_dead s i" and "valid (drv_data s)"
  obtains x y where "in_sht i = (32, [x, y])" "sd_value x = temp (drv_data s)" "sd_value y = sd_humidity (drv_data s)"
    "channel x = 0" "channel y = 1"
proof -
  obtain ts m m' where "sht30_hal_read 32 ts [sysfs_attempt (temp1_input_show (drv_data s))]
      [sysfs_attempt (humidity1_input_show (drv_data s))] m = Some (fst (in_sht i), snd (in_sht i), [], [], m')"
    using assms(1) measurements_in_vain by (auto simp: reads_dead_def Let_def)
  then show ?thesis
    using read_driver [OF assms(2), of ts m] that by (cases "in_sht i") auto
qed

section \<open>The rounds\<close>

text \<open>The rows of the sensor among those handed to the database, and the ones of a round.\<close>

definition of_sht :: "int db_op \<Rightarrow> bool" where
  "of_sht r \<longleftrightarrow> (case r of Insert ts ty ch v \<Rightarrow> ty = ''sht30'' | Flush \<Rightarrow> False)"

definition last_rows :: "sht30_data \<Rightarrow> round_in \<Rightarrow> int db_op list" where
  "last_rows d i = [Insert (in_sht_time i) ''sht30'' ''temperature'' (sint (temp d)),
     Insert (in_sht_time i) ''sht30'' ''humidity'' (sint (sd_humidity d))]"

text \<open>What the collector shows while the sensor is dead.\<close>

definition shows_last :: "sht30_data \<Rightarrow> collector \<Rightarrow> bool" where
  "shows_last d c \<longleftrightarrow> sht_fail_streak c = 0 \<and> temp_raw (g_fsm c) = temp d \<and> hum_raw (g_fsm c) = sd_humidity d
     \<and> temperature (c_regs c) = word_of_int (sint (temp d) sdiv 10)
     \<and> humidity (c_regs c) = word_of_int (sint (sd_humidity d) sdiv 10)"

lemma mpu_rows_not_sht: "filter of_sht (mpu_rows i c) = []"
  by (auto simp: mpu_rows_def mpu_row_def of_sht_def filter_empty_conv)

lemma dead_round:
  assumes "collector_ok n c" and "n \<le> 2147483648" and "sht_open c" and "read_ok 6 6 (in_mpu i)" and "reads_dead s i"
    and "valid (drv_data s)"
  obtains c' where "collector_round i c = Some c'" "collector_ok (Suc n) c'" "sht_open c'" "shows_last (drv_data s) c'"
    "fsm_state (g_fsm c') = STATE_RECOVERING \<longleftrightarrow> fsm_state (g_fsm c) = STATE_RECOVERING"
    "filter of_sht (inserts c') = filter of_sht (inserts c) @ last_rows (drv_data s) i"
proof -
  obtain x y where xy: "in_sht i = (32, [x, y])" "sd_value x = temp (drv_data s)" "sd_value y = sd_humidity (drv_data s)"
    "channel x = 0" "channel y = 1"
    by (rule reads_dead_frame [OF assms(5,6)])
  have "possible i"
    using assms(4) xy by (simp add: possible_def read_ok_def)
  then obtain c1 c2 where r: "collector_round i c = Some (beat (publish_state c2))" "mpu_result i (beat c) c1" "sht_result i c1 c2"
      "collector_ok (Suc n) (beat (publish_state c2))"
    by (rule collector_round_phases [OF assms(1) _ assms(2)])
  have delivers: "sht_delivers i c1" "sht_delivers i c"
    using assms(3) xy(1) mpu_result_health(4) [OF r(2)] by (auto simp: sht_delivers_def)
  then have "\<not> sht_fails i c1" "\<not> gives_up i c1"
    using sht_fails_not_delivers by (auto simp: gives_up_def)
  then have last: "shows_last (drv_data s) c2" "sht_open c2"
      "fsm_state (g_fsm c2) = STATE_RECOVERING \<longleftrightarrow> fsm_state (g_fsm c) = STATE_RECOVERING"
    using r(2,3) delivers(1) xy by (auto simp: shows_last_def sht_result_def mpu_result_def sht_delivers_def)
  have "sht_rows i c = last_rows (drv_data s) i"
    using delivers(2) xy by (simp add: sht_rows_def sht_row_def sht_channel_name_def last_rows_def)
  then have "filter of_sht (inserts c2) = filter of_sht (inserts c) @ last_rows (drv_data s) i"
    using r(2,3) mpu_result_health(3) [OF r(2)] mpu_rows_not_sht [of i "beat c"]
    by (simp add: mpu_result_def sht_result_def last_rows_def of_sht_def)
  then show ?thesis
    using that [OF r(1,4)] last by (simp add: shows_last_def publish_state_def beat_def)
qed

section \<open>A motion sensor that is silent\<close>

text \<open>What the phases do to the handle and to the streak of reads without data.\<close>

definition silence :: "collector \<Rightarrow> bool \<times> int" where
  "silence c = (mpu_open c, mpu_no_data_streak c)"

lemma raise_event_silence: "raise_event e c = Some c' \<Longrightarrow> silence c' = silence c"
  by (auto simp: raise_event_def silence_def split: option.splits)

lemma mpu_failed_silence: "mpu_failed i c = Some c' \<Longrightarrow> silence c' = (probe_mpu 0 (in_retry i), 0)"
  using raise_event_silence
  by (fastforce simp: mpu_failed_def report_mpu_fail_def reopen_mpu_def count_mpu_fail_def silence_def Let_def split: if_splits)

lemma sht_phase_silence:
  assumes "sht_phase i c = Some c'"
  shows "silence c' = silence c"
proof -
  have "silence d' = silence d" if "sht_failed d = Some d'" for d d'
    using that raise_event_silence by (fastforce simp: sht_failed_def silence_def Let_def split: if_splits)
  then show ?thesis
    using assms by (fastforce simp: sht_phase_def sht_data_def publish_regs_def silence_def Let_def split: if_splits option.splits)
qed

text \<open>A round in which the open handle has no event; a handle that is closed can be opened again.\<close>

definition silent :: "round_in \<Rightarrow> bool" where
  "silent i \<longleftrightarrow> fst (in_mpu i) = 0 \<and> probe_mpu 0 (in_retry i)"

lemma silent_round:
  assumes "collector_round i c = Some c'" and "silent i" and "mpu_open c"
  shows "silence c' = (True, if 9 \<le> mpu_no_data_streak c then 0 else mpu_no_data_streak c + 1)"
proof -
  obtain c1 c2 where c: "mpu_phase i (beat c) = Some c1" "sht_phase i c1 = Some c2" "c' = beat (publish_state c2)"
    using assms(1) by (auto simp: collector_round_def split: option.splits)
  have "silence c1 = (True, if 9 \<le> mpu_no_data_streak c then 0 else mpu_no_data_streak c + 1)"
    using c(1) assms(2,3) mpu_failed_silence
    by (fastforce simp: mpu_phase_def mpu_no_data_def silent_def silence_def beat_def Let_def split: if_splits)
  then show ?thesis
    using sht_phase_silence [OF c(2)] c(3) by (simp add: silence_def beat_def publish_state_def)
qed

text \<open>Ten rounds without data count as one failure.\<close>

definition ticks :: "collector \<Rightarrow> int" where
  "ticks c = 10 * mpu_fail_streak c + mpu_no_data_streak c"

lemma silent_round_ticks:
  assumes "collector_ok n c" and "n \<le> 2147483648" and "possible i" and "silent i" and "0 \<le> fst (in_sht i)" and "mpu_open c"
    and "0 \<le> mpu_no_data_streak c" and "mpu_no_data_streak c < 10"
  obtains c' where "collector_round i c = Some c'" "collector_ok (Suc n) c'" "mpu_open c'" "ticks c' = ticks c + 1"
    "0 \<le> mpu_no_data_streak c'" "mpu_no_data_streak c' < 10" "given_up (health_of c') = given_up (health_of c)"
proof -
  obtain c' where c': "collector_round i c = Some c'" "collector_ok (Suc n) c'"
    "health_of c' = health_step (mpu_outcome i c) (sht_outcome i c) (health_of c)"
    by (rule collector_round_health [OF assms(1,3,2)])
  have "mpu_outcome i c = (if 9 \<le> mpu_no_data_streak c then Failed else Idle)"
    using assms(4,6) by (simp add: mpu_outcome_def mpu_fails_def mpu_delivers_def mpu_opened_def silent_def)
  moreover have "sht_outcome i c \<noteq> Failed"
    by (rule sht_read_works [OF assms(5)])
  ultimately have "mpu_fail_streak c' = mpu_fail_streak c + (if 9 \<le> mpu_no_data_streak c then 1 else 0)"
    "given_up (health_of c') = given_up (health_of c)"
    using c'(3) by (auto simp: health_of_def health_step_def Let_def)
  then show ?thesis
    using that [OF c'(1,2)] silent_round [OF c'(1) assms(4,6)] assms(7,8)
    by (auto simp: silence_def ticks_def split: if_splits)
qed

lemma silent_rounds:
  assumes "collector_ok n c" and "n + length is \<le> 2147483648" and "\<forall>i\<in>set is. possible i \<and> silent i \<and> 0 \<le> fst (in_sht i)"
    and "mpu_open c" and "0 \<le> mpu_no_data_streak c" and "mpu_no_data_streak c < 10"
  shows "\<exists>c'. collector_loop is c = Some c' \<and> mpu_open c' \<and> ticks c' = ticks c + int (length is)
    \<and> 0 \<le> mpu_no_data_streak c' \<and> mpu_no_data_streak c' < 10 \<and> given_up (health_of c') = given_up (health_of c)"
  using assms
proof (induction "is" arbitrary: n c)
  case (Cons i "is")
  obtain c1 where c1: "collector_round i c = Some c1" "collector_ok (Suc n) c1" "mpu_open c1" "ticks c1 = ticks c + 1"
    "0 \<le> mpu_no_data_streak c1" "mpu_no_data_streak c1 < 10" "given_up (health_of c1) = given_up (health_of c)"
    using Cons.prems by (auto elim: silent_round_ticks [of n c i])
  then show ?case
    using Cons.IH [OF c1(2)] Cons.prems(2,3) by auto
qed simp

section \<open>Properties\<close>

text \<open>
  C34. A humidity sensor that dies after a measurement is never noticed: whatever the motion sensor
  does, through any number of rounds its failures stay at 0, the program does not give the bus up,
  and it goes on publishing the last values in the context and in the registers and storing them, in
  every round, as new rows with the time of the round.
\<close>

theorem dead_sensor_unnoticed:
  assumes "collector_ok n c" and "sht_open c" and "valid (drv_data s)" and "n + length is \<le> 2147483648" and "is \<noteq> []"
    and "\<forall>i\<in>set is. read_ok 6 6 (in_mpu i) \<and> reads_dead s i"
  shows "\<exists>c'. collector_loop is c = Some c' \<and> shows_last (drv_data s) c'
    \<and> (fsm_state (g_fsm c') = STATE_RECOVERING \<longleftrightarrow> fsm_state (g_fsm c) = STATE_RECOVERING)
    \<and> filter of_sht (inserts c') = filter of_sht (inserts c) @ concat (map (last_rows (drv_data s)) is)"
  using assms
proof (induction "is" arbitrary: n c)
  case (Cons i "is")
  obtain c1 where c1: "collector_round i c = Some c1" "collector_ok (Suc n) c1" "sht_open c1" "shows_last (drv_data s) c1"
    "fsm_state (g_fsm c1) = STATE_RECOVERING \<longleftrightarrow> fsm_state (g_fsm c) = STATE_RECOVERING"
    "filter of_sht (inserts c1) = filter of_sht (inserts c) @ last_rows (drv_data s) i"
    using Cons.prems by (auto elim: dead_round [of n c i s])
  show ?case
  proof (cases "is")
    case Nil
    then show ?thesis using c1 by simp
  next
    case (Cons j js)
    then show ?thesis
      using Cons.IH [OF c1(2,3)] Cons.prems c1 by auto
  qed
qed simp

definition measured_sht30 :: sht30 where
  "measured_sht30 = sht30_start\<lparr>drv_data := \<lparr>temp = 21500, sd_humidity = 45000, valid = True\<rparr>\<rparr>"

text \<open>A round after a measurement that was not acknowledged on the bus.\<close>

lemma dead_round_example:
  "\<exists>x y. reads_dead measured_sht30 (round_of [] (0, []) (32, [x, y]))"
proof -
  let ?ts = "[(-6, -6, replicate 6 0)] :: transfer list" and ?clock = "\<lparr>tv_sec = 5, tv_nsec = 6\<rparr>"
  let ?d = "drv_data measured_sht30"
  have fails: "\<forall>t\<in>set ?ts. transfer_fails t"
    by (simp add: transfer_fails_def)
  have "valid ?d"
    by (simp add: measured_sht30_def)
  then obtain x y m' where "sht30_hal_read 32 ?clock [sysfs_attempt (temp1_input_show ?d)]
      [sysfs_attempt (humidity1_input_show ?d)] metrics_start = Some (32, [x, y], [], [], m')"
    using read_driver by blast
  then show ?thesis
    using fails measurements_in_vain [OF fails, of measured_sht30] unfolding reads_dead_def Let_def
    by (metis fst_conv round_of_simps(3) snd_conv)
qed

theorem dead_sensor_unnoticed_witness:
  "\<exists>i c'. collector_loop [i, i] started = Some c' \<and> sht_fail_streak c' = 0 \<and> temp_raw (g_fsm c') = 21500
    \<and> filter of_sht (inserts c') = last_rows (drv_data measured_sht30) i @ last_rows (drv_data measured_sht30) i"
proof -
  obtain x y where i: "reads_dead measured_sht30 (round_of [] (0, []) (32, [x, y]))" (is "reads_dead _ ?i")
    using dead_round_example by blast
  have "valid (drv_data measured_sht30)" "read_ok 6 6 (in_mpu ?i)"
    by (simp_all add: measured_sht30_def read_ok_def)
  then show ?thesis
    using dead_sensor_unnoticed [OF started_ok(1,3), of measured_sht30 "[?i, ?i]"] i
    by (intro exI [of _ ?i]) (auto simp: shows_last_def measured_sht30_def started_def)
qed

text \<open>
  C21. A motion sensor that falls silent is noticed, in exactly thirty rounds: as long as its read
  answers nothing (and its handle, closed every tenth round, can be opened again) while the humidity
  sensor is read without an error, ten rounds count as one failure, the handle stays open, and the
  published state is RUNNING before the thirtieth round and DEGRADED from it on.
\<close>

theorem silent_sensor_degrades:
  assumes "collector_ok n c" and "health_of c = fresh" and "mpu_open c" and "mpu_no_data_streak c = 0"
    and "n + length is \<le> 2147483648" and "is \<noteq> []" and "\<forall>i\<in>set is. possible i \<and> silent i \<and> 0 \<le> fst (in_sht i)"
  shows "\<exists>c'. collector_loop is c = Some c' \<and> mpu_open c' \<and> mpu_fail_streak c' = int (length is div 10)
    \<and> mpu_no_data_streak c' = int (length is mod 10)
    \<and> g_system_state (c_metrics c') = state_code (if length is < 30 then STATE_RUNNING else STATE_DEGRADED)"
proof -
  obtain c' where c': "collector_loop is c = Some c'" "mpu_open c'" "ticks c' = ticks c + int (length is)"
    "0 \<le> mpu_no_data_streak c'" "mpu_no_data_streak c' < 10" "given_up (health_of c') = given_up (health_of c)"
    using silent_rounds [OF assms(1,5,7,3)] assms(4) by auto
  have zero: "ticks c = 0" "\<not> given_up (health_of c')"
    using assms(2,4) c'(6) by (auto simp: ticks_def fresh_def health_of_def)
  then have t: "10 * mpu_fail_streak c' + mpu_no_data_streak c' = int (length is)"
    using c'(3) by (simp add: ticks_def)
  then have streak: "mpu_fail_streak c' = int (length is div 10)" "mpu_no_data_streak c' = int (length is mod 10)"
    using c'(4,5) by (simp_all add: zdiv_int zmod_int flip: t)
  have "g_system_state (c_metrics c') = state_code (health_state (health_of c'))"
    using collector_loop_ok [OF assms(1) _ assms(5)] assms(6,7) c'(1) by auto
  moreover have "health_state (health_of c') = (if length is < 30 then STATE_RUNNING else STATE_DEGRADED)"
    using zero(2) t c'(4,5) by (auto simp: health_state_def health_of_def state_of_streak_def)
  ultimately show ?thesis
    using c'(1,2) streak by simp
qed

theorem silent_sensor_degrades_witness:
  "\<exists>c'. collector_loop (replicate 30 (round_of [(True, True)] (0, []) sht_frame)) started = Some c'
    \<and> mpu_fail_streak c' = 3 \<and> g_system_state (c_metrics c') = 2"
proof -
  let ?i = "round_of [(True, True)] (0, []) sht_frame"
  have "possible ?i \<and> silent ?i \<and> 0 \<le> fst (in_sht ?i)"
    by (simp add: read_ok_def silent_def sht_frame_def) (simp add: round_of_def)
  then show ?thesis
    using silent_sensor_degrades [OF started_ok(1,2,4), of "replicate 30 ?i"] by (auto simp: started_def)
qed

end
