(* ===== verification/Motion_Path.thy ===== *)
theory Motion_Path
  imports Mpu6050_Driver Dead_Sensor
begin

text \<open>
  The path of the motion sensor: the kernel driver reports the six axes of every block of registers it
  reads, the input layer passes them on as events, the user-space driver collects six events for a
  frame, and the collector takes one frame a round.
\<close>

section \<open>What the input layer passes on\<close>

text \<open>The positions of the six axes in a block, their values, and the reports of a frame as code and value.\<close>

definition axis_bytes :: "nat list" where
  "axis_bytes = [0, 2, 4, 8, 10, 12]"

definition axis_values :: "u8 list \<Rightarrow> int list" where
  "axis_values block = map (s16_at block) axis_bytes"

fun axis_reports :: "input_report list \<Rightarrow> (nat \<times> int) list" where
  "axis_reports [] = []"
| "axis_reports (Report_abs i v # rs) = (i, v) # axis_reports rs"
| "axis_reports (Input_sync # rs) = axis_reports rs"

definition frame :: "u8 list \<Rightarrow> (nat \<times> int) list" where
  "frame block = zip [0..<6] (axis_values block)"

text \<open>
  What Linux documents of the input layer: an absolute axis without a fuzz (\<open>mpu6050_abs_params\<close>) is
  passed on when its value is not the one it has already, in order; and what libevdev documents of it: every event comes out with its code
  and its value. \<open>old\<close> are the values before.
\<close>

fun changed :: "(nat \<Rightarrow> int) \<Rightarrow> (nat \<times> int) list \<Rightarrow> (nat \<times> int) list" where
  "changed old [] = []"
| "changed old ((i, v) # rs) = (if old i = v then changed old rs else (i, v) # changed (old(i := v)) rs)"

definition passes_changes :: "(nat \<Rightarrow> int) \<Rightarrow> input_report list \<Rightarrow> next_event list \<Rightarrow> bool" where
  "passes_changes old rs es \<longleftrightarrow> list_all (\<lambda>e. 0 \<le> fst e) es
     \<and> map (\<lambda>ev. (ev_code ev, sint (ev_value ev))) (axis_events es) = changed old (axis_reports rs)"

section \<open>The reports of the kernel driver\<close>

definition sample_blocks :: "u8 list list \<Rightarrow> mpu6050_data \<Rightarrow> mpu6050_data" where
  "sample_blocks = fold (mpu6050_work_handler 0)"

lemma axis_reports_append: "axis_reports (rs @ ss) = axis_reports rs @ axis_reports ss"
  by (induction rs rule: axis_reports.induct) simp_all

lemma axis_reports_blocks: "axis_reports (reports (sample_blocks bs d)) = axis_reports (reports d) @ concat (map frame bs)"
proof (induction bs arbitrary: d)
  case (Cons b bs)
  have "axis_reports (reports (mpu6050_work_handler 0 b d)) = axis_reports (reports d) @ frame b"
    by (simp add: mpu6050_work_handler_def mpu6050_check_bus_error_def axis_reports_append frame_def axis_values_def
        axis_bytes_def upt_rec)
  then show ?case
    using Cons.IH [of "mpu6050_work_handler 0 b d"] by (simp add: sample_blocks_def)
qed (simp add: sample_blocks_def)

text \<open>An axis that moves in every block is passed on in every frame.\<close>

definition all_move :: "(nat \<Rightarrow> int) \<Rightarrow> u8 list \<Rightarrow> bool" where
  "all_move old block \<longleftrightarrow> (\<forall>i<6. old i \<noteq> axis_values block ! i)"

fun keep_moving :: "u8 list \<Rightarrow> u8 list list \<Rightarrow> bool" where
  "keep_moving b [] = True"
| "keep_moving b (b' # bs) = (all_move ((!) (axis_values b)) b' \<and> keep_moving b' bs)"

lemma frame_eq: "frame b = [(0, axis_values b ! 0), (1, axis_values b ! 1), (2, axis_values b ! 2), (3, axis_values b ! 3),
    (4, axis_values b ! 4), (5, axis_values b ! 5)]"
  by (simp add: frame_def axis_values_def axis_bytes_def upt_rec)

lemma changed_Cons: "changed old ((i, v) # rs) = filter (\<lambda>(i, v). old i \<noteq> v) [(i, v)] @ changed (old(i := v)) rs"
  by (cases "old i = v") (simp_all add: fun_upd_idem)

lemma changed_frame:
  "changed old (frame b @ rs) = filter (\<lambda>(i, v). old i \<noteq> v) (frame b) @ changed (\<lambda>i. if i < 6 then axis_values b ! i else old i) rs"
proof -
  have six: "(\<lambda>i. if i < 6 then axis_values b ! i else old i)
      = old(0 := axis_values b ! 0, 1 := axis_values b ! 1, 2 := axis_values b ! 2, 3 := axis_values b ! 3,
          4 := axis_values b ! 4, 5 := axis_values b ! 5)"
    by (auto simp: fun_eq_iff less_Suc_eq numeral_eq_Suc)
  show ?thesis
    unfolding six frame_eq by (simp add: changed_Cons del: changed.simps(2))
qed

lemma frame_moves: "all_move old b \<Longrightarrow> filter (\<lambda>(i, v). old i \<noteq> v) (frame b) = frame b"
  by (simp add: all_move_def frame_eq)

lemma all_move_cong: "(\<And>i. i < 6 \<Longrightarrow> old i = old' i) \<Longrightarrow> all_move old b = all_move old' b"
  by (auto simp: all_move_def)

lemma changed_moving:
  "keep_moving b bs \<Longrightarrow> (\<And>i. i < 6 \<Longrightarrow> old i = axis_values b ! i) \<Longrightarrow> changed old (concat (map frame bs)) = concat (map frame bs)"
proof (induction bs arbitrary: b old)
  case (Cons b' bs)
  have "all_move old b'"
    using Cons.prems all_move_cong [of old "(!) (axis_values b)" b'] by simp
  moreover have "changed (\<lambda>i. if i < 6 then axis_values b' ! i else old i) (concat (map frame bs)) = concat (map frame bs)"
    using Cons.prems(1) by (intro Cons.IH [of b']) simp_all
  ultimately show ?case
    by (simp add: changed_frame frame_moves)
qed simp

section \<open>Six events a read\<close>

lemma axis_events_append: "axis_events (xs @ ys) = axis_events xs @ axis_events ys"
  by (simp add: axis_events_def)

lemma split_axis_events:
  "k < length (axis_events es) \<Longrightarrow> \<exists>xs e ys. es = xs @ e # ys \<and> axis_event (snd e) \<and> length (axis_events xs) = k"
proof (induction es arbitrary: k)
  case (Cons e es)
  show ?case
  proof (cases "axis_event (snd e) \<and> k = 0")
    case True
    then show ?thesis
      by (intro exI [of _ "[]"] exI [of _ e] exI [of _ es]) simp
  next
    case False
    define k' where "k' = (if axis_event (snd e) then k - 1 else k)"
    have "k' < length (axis_events es)"
      using Cons.prems False by (auto simp: k'_def split: if_splits)
    then obtain xs e' ys where "es = xs @ e' # ys" "axis_event (snd e')" "length (axis_events xs) = k'"
      using Cons.IH by blast
    then show ?thesis
      using False by (intro exI [of _ "e # xs"] exI [of _ e'] exI [of _ ys]) (auto simp: k'_def)
  qed
qed simp

text \<open>
  Whatever the frames are, a read of an empty cache takes the next six events of an axis, and answers
  the cache behind them.
\<close>

lemma hal_read_six:
  assumes "hal_ok p" and "cache_count p = 0" and "list_all (\<lambda>e. 0 \<le> fst e) es" and "6 \<le> length (axis_events es)"
  obtains p' rest where "mpu6050_hal_read 96 es p = Some (96, cache p', p', rest, 0)" "hal_ok p'" "cache_count p' = 0"
    "cache p' = fold store_axis (take 6 (axis_events es)) (cache p)" "axis_events rest = drop 6 (axis_events es)"
    "list_all (\<lambda>e. 0 \<le> fst e) rest"
proof -
  obtain xs e ys where es: "es = xs @ e # ys" "axis_event (snd e)" "length (axis_events xs) = 5"
    using split_axis_events [of 5 es] assms(4) by auto
  obtain rc ev where e: "e = (rc, ev)" "0 \<le> rc" "axis_event ev" "list_all (\<lambda>e. 0 \<le> fst e) xs" "list_all (\<lambda>e. 0 \<le> fst e) ys"
    using assms(3) es(1,2) by (cases e) auto
  have six: "take 6 (axis_events es) = axis_events xs @ [ev]" "drop 6 (axis_events es) = axis_events ys"
    using es e(1) by (simp_all add: axis_events_append)
  define q where "q = p\<lparr>cache := fold store_axis (axis_events xs) (cache p), cache_count := 5\<rparr>"
  let ?p = "q\<lparr>cache := store_axis ev (cache q), cache_count := 0\<rparr>"
  have "mpu6050_hal_read 96 es p = read_events 6 (e # ys) q []"
    using read_events_partial [of xs "[]" 6 p "e # ys"] assms(2) e(4) es
    by (simp add: mpu6050_hal_read_def drain_none q_def)
  also have "\<dots> = Some (96, cache ?p, ?p, ys, 0)"
    using read_events_axis [OF e(2,3), of "[]" 6 ys q] assms(1) e(1) by (cases ys) (simp_all add: q_def hal_ok_def)
  finally have run: "mpu6050_hal_read 96 es p = Some (96, cache ?p, ?p, ys, 0)" .
  then have "hal_ok ?p"
    using mpu6050_hal_read_ok [OF assms(1)] by blast
  then show ?thesis
    using that [OF run] six e(5) by (simp add: q_def)
qed

text \<open>Successive reads: the results and samples, what is left of the events, the handle.\<close>

fun hal_reads :: "nat \<Rightarrow> next_event list \<Rightarrow> mpu6050_hal \<Rightarrow> ((int \<times> sensor_data list) list \<times> next_event list \<times> mpu6050_hal) option" where
  "hal_reads 0 es p = Some ([], es, p)"
| "hal_reads (Suc n) es p =
     (case mpu6050_hal_read 96 es p of
        None \<Rightarrow> None
      | Some (r, out, p', es', k) \<Rightarrow> map_option (\<lambda>(outs, s). ((r, out) # outs, s)) (hal_reads n es' p'))"

definition cache_after :: "nat \<Rightarrow> input_event list \<Rightarrow> sensor_data list \<Rightarrow> sensor_data list" where
  "cache_after n evs c = fold store_axis (take (6 * n) evs) c"

lemma hal_reads_stream:
  "hal_ok p \<Longrightarrow> cache_count p = 0 \<Longrightarrow> list_all (\<lambda>e. 0 \<le> fst e) es \<Longrightarrow> 6 * n \<le> length (axis_events es) \<Longrightarrow>
    \<exists>rest p'. hal_reads n es p = Some (map (\<lambda>k. (96, cache_after (Suc k) (axis_events es) (cache p))) [0..<n], rest, p')
      \<and> axis_events rest = drop (6 * n) (axis_events es) \<and> hal_ok p' \<and> cache_count p' = 0"
proof (induction n arbitrary: es p)
  case (Suc n)
  obtain p1 es1 where r: "mpu6050_hal_read 96 es p = Some (96, cache p1, p1, es1, 0)" "hal_ok p1" "cache_count p1 = 0"
    "cache p1 = fold store_axis (take 6 (axis_events es)) (cache p)" "axis_events es1 = drop 6 (axis_events es)"
    "list_all (\<lambda>e. 0 \<le> fst e) es1"
    using Suc.prems by (auto elim: hal_read_six [of p es])
  have "6 * n \<le> length (axis_events es1)"
    using r(5) Suc.prems(4) by simp
  then obtain rest p' where rest: "hal_reads n es1 p1 = Some (map (\<lambda>k. (96, cache_after (Suc k) (axis_events es1) (cache p1))) [0..<n], rest, p')"
    "axis_events rest = drop (6 * n) (axis_events es1)" "hal_ok p'" "cache_count p' = 0"
    using Suc.IH [OF r(2,3,6)] by blast
  have shift: "cache_after (Suc k) (axis_events es1) (cache p1) = cache_after (Suc (Suc k)) (axis_events es) (cache p)" for k
    using take_add [of 6 "6 * Suc k" "axis_events es"] by (simp add: cache_after_def r(4,5))
  have "cache p1 = cache_after (Suc 0) (axis_events es) (cache p)"
    by (simp add: cache_after_def r(4))
  then show ?case
    using r(1) rest shift by (simp add: r(5) add.commute map_upt_Suc del: upt_Suc)
qed auto

section \<open>The values of a read\<close>

definition sample_value :: "sensor_data \<Rightarrow> nat \<times> int" where
  "sample_value x = (unat (channel x), sint (sd_value x))"

definition event_value :: "input_event \<Rightarrow> nat \<times> int" where
  "event_value ev = (ev_code ev, sint (ev_value ev))"

lemma sample_value_of [simp]: "i < 6 \<Longrightarrow> sample_value (sample_of ev (int i)) = (i, sint (ev_value ev))"
  unfolding sample_value_def channel_sample by (simp add: sample_of_def)

lemma map_of_events: "map_of (map event_value evs) i = map_option (\<lambda>e. sint (ev_value e)) (find (\<lambda>e. ev_code e = i) evs)"
  by (induction evs) (auto simp: event_value_def)

text \<open>Six events of the six axes, in any order, fill the cache.\<close>

lemma full_cache:
  assumes "length c = 6" and "distinct (map fst (map event_value evs))" and "set (map fst (map event_value evs)) = {0..<6}"
  shows "map sample_value (fold store_axis evs c) = map (\<lambda>i. (i, the (map_of (map event_value evs) i))) [0..<6]"
proof (rule nth_equalityI)
  fix i
  assume "i < length (map sample_value (fold store_axis evs c))"
  then have i: "i < 6" using assms(1) by simp
  then have "map_of (map event_value evs) i \<noteq> None"
    using assms(3) by (simp add: map_of_eq_None_iff image_image)
  then obtain e where e: "find (\<lambda>e. ev_code e = i) evs = Some e"
    by (auto simp: map_of_events)
  have "distinct (map ev_code evs)"
    using assms(2) by (simp add: event_value_def comp_def)
  then have "fold store_axis evs c ! i = sample_of e (int i)"
    using fold_store_nth [of evs i c] e i assms(1) by simp
  then show "map sample_value (fold store_axis evs c) ! i = map (\<lambda>i. (i, the (map_of (map event_value evs) i))) [0..<6] ! i"
    using i e assms(1) by (simp add: map_of_events)
qed (simp add: assms(1))

lemma length_cache_after [simp]: "length (cache_after n evs c) = length c"
  by (simp add: cache_after_def)

lemma cache_after_Suc: "cache_after (Suc n) evs c = fold store_axis (take 6 (drop (6 * n) evs)) (cache_after n evs c)"
  using take_add [of "6 * n" 6 evs] by (simp add: cache_after_def add.commute)

lemma cache_after_values:
  assumes "length c = 6" and "take 6 (drop (6 * n) (map event_value evs)) = six" and "distinct (map fst six)"
    and "set (map fst six) = {0..<6}"
  shows "map sample_value (cache_after (Suc n) evs c) = map (\<lambda>i. (i, the (map_of six i))) [0..<6]"
proof -
  have "map event_value (take 6 (drop (6 * n) evs)) = six"
    using assms(2) by (simp add: take_map drop_map)
  then show ?thesis
    using full_cache [of "cache_after n evs c" "take 6 (drop (6 * n) evs)"] assms(1,3,4) by (simp add: cache_after_Suc)
qed

section \<open>Frames in the stream of events\<close>

lemma length_frame [simp]: "length (frame b) = 6"
  by (simp add: frame_eq)

lemma drop_frames: "drop (6 * n) (concat (map frame bs)) = concat (map frame (drop n bs))"
proof (induction bs arbitrary: n)
  case (Cons b bs)
  then show ?case by (cases n) simp_all
qed simp

lemma six_from_frame: "n < length bs \<Longrightarrow> take 6 (drop (6 * n) (concat (map frame bs))) = frame (bs ! n)"
  unfolding drop_frames by (subst Cons_nth_drop_Suc [symmetric]) simp_all

lemma six_across_frames:
  assumes "Suc n < length bs" and "d \<le> 6"
  shows "take 6 (drop (6 * n + d) (concat (map frame bs))) = drop d (frame (bs ! n)) @ take d (frame (bs ! Suc n))"
proof -
  have "drop n bs = bs ! n # bs ! Suc n # drop (Suc (Suc n)) bs"
    using assms(1) by (simp add: Cons_nth_drop_Suc)
  then have "drop (6 * n + d) (concat (map frame bs)) = drop d (frame (bs ! n) @ frame (bs ! Suc n) @ concat (map frame (drop (Suc (Suc n)) bs)))"
    using drop_drop [of d "6 * n" "concat (map frame bs)"] by (simp add: drop_frames add.commute)
  then show ?thesis
    using assms(2) by simp
qed

lemma map_of_frame: "i < 6 \<Longrightarrow> map_of (frame b) i = Some (axis_values b ! i)"
  by (auto simp: frame_eq less_Suc_eq numeral_eq_Suc)

lemma map_fst_frame: "map fst (frame b) = [0..<6]"
  by (simp add: frame_eq upt_rec)

lemma frame_map: "map (\<lambda>i. (i, axis_values b ! i)) [0..<6] = frame b"
  by (simp add: frame_eq upt_rec numeral_eq_Suc)

section \<open>The rounds\<close>

definition of_mpu :: "int db_op \<Rightarrow> bool" where
  "of_mpu r \<longleftrightarrow> (case r of Insert ts ty ch v \<Rightarrow> ty = ''mpu6050'' | Flush \<Rightarrow> False)"

text \<open>The six rows of a block of registers.\<close>

definition block_rows :: "u8 list \<Rightarrow> round_in \<Rightarrow> int db_op list" where
  "block_rows block i = map (\<lambda>(k, v). Insert (in_mpu_time i) ''mpu6050'' (axis_name ! k) v) (frame block)"

definition takes_block :: "round_in \<Rightarrow> u8 list \<Rightarrow> bool" where
  "takes_block i block \<longleftrightarrow> fst (in_mpu i) = 96 \<and> map sample_value (snd (in_mpu i)) = frame block"

lemma store_mpu_silence: "store_mpu ts xs c = Some c' \<Longrightarrow> silence c' = silence c"
  by (induction ts xs c rule: store_mpu.induct) (auto simp: silence_def Let_def split: if_splits)

lemma mpu_data_open: "mpu_data i n c = Some c' \<Longrightarrow> mpu_open c' = mpu_open c"
  using raise_event_silence store_mpu_silence
  by (fastforce simp: mpu_data_def silence_def Let_def bind_eq_Some_conv split: if_splits)

lemma takes_block_possible:
  assumes "takes_block i b"
  shows "read_ok 6 6 (in_mpu i)"
proof -
  have "map fst (map sample_value (snd (in_mpu i))) = [0..<6]"
    using assms unfolding takes_block_def by (simp only: map_fst_frame)
  then have "map (\<lambda>x. unat (channel x)) (snd (in_mpu i)) = [0..<6]"
    by (simp add: sample_value_def comp_def)
  then have "(\<lambda>x. unat (channel x)) ` set (snd (in_mpu i)) = {0..<6}"
    by (metis set_map set_upt)
  then have "\<forall>x\<in>set (snd (in_mpu i)). unat (channel x) < 6"
    by auto
  moreover have "length (snd (in_mpu i)) = 6"
    using assms by (metis length_frame length_map takes_block_def)
  ultimately show ?thesis
    using assms by (simp add: read_ok_def takes_block_def)
qed

lemma takes_block_rows:
  assumes "takes_block i b" and "mpu_open c"
  shows "mpu_rows i c = block_rows b i"
proof -
  have "mpu_rows i c = map (\<lambda>(k, v). Insert (in_mpu_time i) ''mpu6050'' (axis_name ! k) v) (map sample_value (snd (in_mpu i)))"
    using assms unfolding mpu_rows_def mpu_delivers_def mpu_opened_def takes_block_def map_map
    by (simp del: map_map add: mpu_row_def [abs_def] sample_value_def comp_def)
  also have "map sample_value (snd (in_mpu i)) = frame b"
    using assms(1) by (simp add: takes_block_def)
  finally show ?thesis
    by (simp add: block_rows_def)
qed

lemma sht_rows_not_mpu: "filter of_mpu (sht_rows i c) = []"
  by (auto simp: sht_rows_def sht_row_def of_mpu_def filter_empty_conv)

lemma block_round:
  assumes "collector_ok n c" and "n \<le> 2147483648" and "mpu_open c" and "takes_block i b" and "read_ok 2 2 (in_sht i)"
  obtains c' where "collector_round i c = Some c'" "collector_ok (Suc n) c'" "mpu_open c'"
    "filter of_mpu (inserts c') = filter of_mpu (inserts c) @ block_rows b i"
proof -
  have "possible i"
    using assms(5) takes_block_possible [OF assms(4)] by (simp add: possible_def)
  then obtain c' where c': "collector_round i c = Some c'" "collector_ok (Suc n) c'"
    "inserts c' = inserts c @ mpu_rows i c @ sht_rows i c"
    by (rule collector_round_health [OF assms(1) _ assms(2)])
  obtain c1 c2 where c: "mpu_phase i (beat c) = Some c1" "sht_phase i c1 = Some c2" "c' = beat (publish_state c2)"
    using c'(1) by (auto simp: collector_round_def split: option.splits)
  have "mpu_open c1"
    using c(1) assms(3,4) mpu_data_open by (fastforce simp: mpu_phase_def takes_block_def beat_def Let_def split: if_splits)
  then have "mpu_open c'"
    using sht_phase_silence [OF c(2)] c(3) by (simp add: silence_def beat_def publish_state_def)
  moreover have "filter of_mpu (block_rows b i) = block_rows b i"
    by (auto simp: block_rows_def of_mpu_def filter_id_conv)
  ultimately show ?thesis
    using that [OF c'(1,2)] c'(3) takes_block_rows [OF assms(4,3)] sht_rows_not_mpu by simp
qed

lemma block_rounds:
  "list_all2 takes_block is bs \<Longrightarrow> collector_ok n c \<Longrightarrow> n + length is \<le> 2147483648 \<Longrightarrow> mpu_open c \<Longrightarrow>
    \<forall>i\<in>set is. read_ok 2 2 (in_sht i) \<Longrightarrow>
    \<exists>c'. collector_loop is c = Some c' \<and> mpu_open c'
      \<and> filter of_mpu (inserts c') = filter of_mpu (inserts c) @ concat (map2 (\<lambda>i b. block_rows b i) is bs)"
proof (induction arbitrary: n c rule: list_all2_induct)
  case (Cons i "is" b bs)
  obtain c1 where c1: "collector_round i c = Some c1" "collector_ok (Suc n) c1" "mpu_open c1"
    "filter of_mpu (inserts c1) = filter of_mpu (inserts c) @ block_rows b i"
    using Cons.prems Cons.hyps(1) by (auto elim: block_round [of n c i b])
  then show ?case
    using Cons.IH [OF c1(2)] Cons.prems by auto
qed simp

section \<open>Properties\<close>

text \<open>
  C22. The motion sensor's samples reach the database in order, but one frame a round: if every axis
  moves between blocks, the successive rounds of the collector hand over the six values of the
  successive blocks the kernel driver has read, as six rows each under their axis names. What has
  been read beyond one block a round waits in the queue of events: the rows of the last round are
  older than all of it.
\<close>

theorem motion_reaches_rows:
  assumes "hal_ok p" and "cache_count p = 0" and "reports d = []" and "all_move old b" and "keep_moving b bs"
    and "passes_changes old (reports (sample_blocks (b # bs) d)) es" and "length is \<le> length (b # bs)"
    and "hal_reads (length is) es p = Some (map in_mpu is, rest, p')"
    and "collector_ok n c" and "mpu_open c" and "n + length is \<le> 2147483648" and "\<forall>i\<in>set is. read_ok 2 2 (in_sht i)"
  shows "\<exists>c'. collector_loop is c = Some c'
    \<and> filter of_mpu (inserts c') = filter of_mpu (inserts c) @ concat (map2 (\<lambda>i b. block_rows b i) is (b # bs))
    \<and> map event_value (axis_events rest) = concat (map frame (drop (length is) (b # bs)))"
proof -
  let ?bs = "b # bs" and ?evs = "axis_events es"
  have es: "list_all (\<lambda>e. 0 \<le> fst e) es" "map event_value ?evs = concat (map frame ?bs)"
    using assms(6) changed_moving [OF assms(5)] frame_moves [OF assms(4)]
    by (simp_all add: passes_changes_def axis_reports_blocks assms(3) event_value_def [abs_def] changed_frame)
  have "length ?evs = length (concat (map frame ?bs))"
    using es(2) by (metis length_map)
  then have len: "length ?evs = 6 * length ?bs"
    by (simp add: length_concat comp_def sum_list_triv)
  obtain rest' q where r: "hal_reads (length is) es p = Some (map (\<lambda>k. (96, cache_after (Suc k) ?evs (cache p))) [0..<length is], rest', q)"
    "axis_events rest' = drop (6 * length is) ?evs"
    using hal_reads_stream [OF assms(1,2) es(1), of "length is"] len assms(7) by auto
  have reads: "map in_mpu is = map (\<lambda>k. (96, cache_after (Suc k) ?evs (cache p))) [0..<length is]" "rest' = rest"
    using r(1) assms(8) by simp_all
  have "length (cache p) = 6"
    using assms(1) by (simp add: hal_ok_def)
  have "takes_block (is ! k) (?bs ! k)" if "k < length is" for k
  proof -
    have "in_mpu (is ! k) = (96, cache_after (Suc k) ?evs (cache p))"
      using arg_cong [OF reads(1), of "\<lambda>xs. xs ! k"] that by simp
    moreover have "take 6 (drop (6 * k) (map event_value ?evs)) = frame (?bs ! k)"
      unfolding es(2) using that assms(7) by (intro six_from_frame) simp
    then have "map sample_value (cache_after (Suc k) ?evs (cache p)) = map (\<lambda>i. (i, the (map_of (frame (?bs ! k)) i))) [0..<6]"
      using \<open>length (cache p) = 6\<close> by (intro cache_after_values) (simp_all add: map_fst_frame)
    moreover have "\<dots> = frame (?bs ! k)"
      unfolding frame_map [symmetric] by (intro map_cong) (simp_all add: map_of_frame frame_map)
    ultimately show ?thesis
      by (simp add: takes_block_def)
  qed
  then have "list_all2 takes_block is (take (length is) ?bs)"
    using assms(7) by (simp add: list_all2_conv_all_nth)
  then obtain c' where "collector_loop is c = Some c'"
    "filter of_mpu (inserts c') = filter of_mpu (inserts c) @ concat (map2 (\<lambda>i b. block_rows b i) is (take (length is) ?bs))"
    using block_rounds [OF _ assms(9,11,10,12)] by blast
  moreover have "zip is (take (length is) ?bs) = zip is ?bs"
    using take_zip [of "length is" "is" ?bs] assms(7) by simp
  moreover have "map event_value (axis_events rest) = concat (map frame (drop (length is) ?bs))"
    using arg_cong [OF es(2), of "drop (6 * length is)"] r(2) reads(2) unfolding drop_frames drop_map by metis
  ultimately show ?thesis
    by simp
qed

text \<open>A block with the six values, and the events of a list of axes.\<close>

definition block_of :: "u8 list \<Rightarrow> u8 list" where
  "block_of vs = [0, vs ! 0, 0, vs ! 1, 0, vs ! 2, 0, 0, 0, vs ! 3, 0, vs ! 4, 0, vs ! 5]"

definition events_of :: "(nat \<times> i32) list \<Rightarrow> next_event list" where
  "events_of rs = map (\<lambda>(i, v). axis_ev i v) rs @ [syn_ev]"

abbreviation block1 :: "u8 list" where "block1 \<equiv> block_of [1, 2, 3, 4, 5, 6]"
abbreviation block2 :: "u8 list" where "block2 \<equiv> block_of [11, 12, 13, 14, 15, 16]"
abbreviation block3 :: "u8 list" where "block3 \<equiv> block_of [21, 22, 23, 24, 25, 26]"

lemma example_values:
  "axis_values block1 = [1, 2, 3, 4, 5, 6]" "axis_values block2 = [11, 12, 13, 14, 15, 16]"
  "axis_values block3 = [21, 22, 23, 24, 25, 26]"
  by (simp_all add: axis_values_def axis_bytes_def block_of_def s16_at_eq)

lemma example_moves: "all_move (\<lambda>_. 0) block1" "keep_moving block1 [block2, block3]"
  by (auto simp: all_move_def example_values less_Suc_eq numeral_eq_Suc)

definition idle_driver :: mpu6050_data where
  "idle_driver = \<lparr>has_scl_gpio = False, has_sda_gpio = False, recovery_count = 0, gpio_ops = [], reports = []\<rparr>"

lemma passes_changes_blocks:
  "list_all (\<lambda>e. 0 \<le> fst e) es \<Longrightarrow> map event_value (axis_events es) = changed old (concat (map frame bs)) \<Longrightarrow>
    passes_changes old (reports (sample_blocks bs idle_driver)) es"
  by (simp add: passes_changes_def axis_reports_blocks event_value_def [abs_def] idle_driver_def)

lemma events_of_simps [simp]:
  "list_all (\<lambda>e. 0 \<le> fst e) (events_of rs)"
  "\<forall>r\<in>set rs. fst r < 6 \<Longrightarrow> map event_value (axis_events (events_of rs)) = map (\<lambda>(i, v). (i, sint v)) rs"
proof -
  show "list_all (\<lambda>e. 0 \<le> fst e) (events_of rs)"
    by (auto simp: events_of_def list_all_iff)
  show "map event_value (axis_events (events_of rs)) = map (\<lambda>(i, v). (i, sint v)) rs" if "\<forall>r\<in>set rs. fst r < 6"
    using that by (induction rs) (auto simp: events_of_def event_value_def)
qed

theorem motion_reaches_rows_witness:
  "\<exists>i rest c'. collector_loop [i] started = Some c'
    \<and> filter of_mpu (inserts c') = [Insert 1000 ''mpu6050'' ''AX'' 1, Insert 1000 ''mpu6050'' ''AY'' 2, Insert 1000 ''mpu6050'' ''AZ'' 3,
        Insert 1000 ''mpu6050'' ''GX'' 4, Insert 1000 ''mpu6050'' ''GY'' 5, Insert 1000 ''mpu6050'' ''GZ'' 6]
    \<and> map event_value (axis_events rest) = [(0, 11), (1, 12), (2, 13), (3, 14), (4, 15), (5, 16)]"
proof -
  let ?es = "events_of [(0, 1), (1, 2), (2, 3), (3, 4), (4, 5), (5, 6), (0, 11), (1, 12), (2, 13), (3, 14), (4, 15), (5, 16)]"
  have vals: "map event_value (axis_events ?es) = concat (map frame [block1, block2])"
    by (simp add: frame_eq example_values)
  have moves: "keep_moving block1 [block2]"
    using example_moves(2) by simp
  have "map event_value (axis_events ?es) = changed (\<lambda>_. 0) (concat (map frame [block1, block2]))"
    using vals changed_moving [OF moves] frame_moves [OF example_moves(1)] by (simp add: changed_frame)
  then have passes: "passes_changes (\<lambda>_. 0) (reports (sample_blocks [block1, block2] idle_driver)) ?es"
    by (rule passes_changes_blocks [OF events_of_simps(1)])
  have "length (axis_events ?es) = length (concat (map frame [block1, block2]))"
    using vals by (metis length_map)
  then have "6 * 1 \<le> length (axis_events ?es)"
    by simp
  then obtain out rest q where r: "hal_reads 1 ?es hal_start = Some ([(96, out)], rest, q)"
    using hal_reads_stream [of hal_start ?es 1] by auto
  let ?i = "round_of [] (96, out) (0, [])"
  have reads: "hal_reads (length [?i]) ?es hal_start = Some (map in_mpu [?i], rest, q)"
    using r by simp
  have "\<exists>c'. collector_loop [?i] started = Some c'
    \<and> filter of_mpu (inserts c') = filter of_mpu (inserts started) @ concat (map2 (\<lambda>i b. block_rows b i) [?i] [block1, block2])
    \<and> map event_value (axis_events rest) = concat (map frame (drop (length [?i]) [block1, block2]))"
  proof (rule motion_reaches_rows [OF _ _ _ example_moves(1) moves passes _ reads])
    show "reports idle_driver = []" "\<forall>i\<in>set [?i]. read_ok 2 2 (in_sht i)"
      by (simp_all add: idle_driver_def read_ok_def)
    show "collector_ok 0 started" "mpu_open started" "0 + length [?i] \<le> 2147483648"
      using started_ok by simp_all
  qed simp_all
  then obtain c' where c': "collector_loop [?i] started = Some c'"
    "filter of_mpu (inserts c') = filter of_mpu (inserts started) @ concat (map2 (\<lambda>i b. block_rows b i) [?i] [block1, block2])"
    "map event_value (axis_events rest) = concat (map frame (drop (length [?i]) [block1, block2]))"
    by blast
  have "concat (map2 (\<lambda>i b. block_rows b i) [?i] [block1, block2]) = [Insert 1000 ''mpu6050'' ''AX'' 1,
      Insert 1000 ''mpu6050'' ''AY'' 2, Insert 1000 ''mpu6050'' ''AZ'' 3, Insert 1000 ''mpu6050'' ''GX'' 4,
      Insert 1000 ''mpu6050'' ''GY'' 5, Insert 1000 ''mpu6050'' ''GZ'' 6]"
    by (simp add: block_rows_def frame_eq example_values axis_name_def round_of_def)
  moreover have "concat (map frame (drop (length [?i]) [block1, block2])) = [(0, 11), (1, 12), (2, 13), (3, 14), (4, 15), (5, 16)]"
    by (simp add: frame_eq example_values)
  moreover have "inserts started = []"
    by (simp add: started_def)
  ultimately show ?thesis
    using c' by (intro exI [of _ ?i] exI [of _ rest] exI [of _ c'] conjI) (simp_all only: filter.simps append_Nil)
qed

text \<open>
  C23. An axis that does not move shifts all frames after it: when the input layer drops \<open>k\<close> axes of one
  block (their values are those before) and every axis moves from then on, every later read mixes two
  blocks, the first \<open>k\<close> axes of one with the others of the block before it, for as long as the
  queue of events does not run empty.
\<close>

theorem dropped_axis_shifts_frames:
  assumes "hal_ok p" and "cache_count p = 0" and "reports d = []" and "keep_moving b bs"
    and "passes_changes old (reports (sample_blocks (b # bs) d)) es"
    and "k = length (filter (\<lambda>(i, v). old i = v) (frame b))" and "0 < k" and "k < 6" and "Suc n < length bs"
  shows "\<exists>outs rest p'. hal_reads (Suc (Suc n)) es p = Some (outs, rest, p') \<and> fst (outs ! Suc n) = 96
    \<and> map sample_value (snd (outs ! Suc n)) = map (\<lambda>i. (i, axis_values (bs ! (if i < k then Suc n else n)) ! i)) [0..<6]"
proof -
  let ?evs = "axis_events es" and ?pre = "filter (\<lambda>(i, v). old i \<noteq> v) (frame b)"
  have "length (filter (\<lambda>(i, v). old i = v) (frame b)) + length ?pre = 6"
    using sum_length_filter_compl [of "\<lambda>(i, v). old i = v" "frame b"] by (simp add: case_prod_unfold)
  then have pre: "length ?pre = 6 - k"
    using assms(6) by simp
  have es: "list_all (\<lambda>e. 0 \<le> fst e) es" "map event_value ?evs = ?pre @ concat (map frame bs)"
    using assms(5) changed_moving [OF assms(4)]
    by (simp_all add: passes_changes_def axis_reports_blocks assms(3) event_value_def [abs_def] changed_frame)
  have "length ?evs = length (?pre @ concat (map frame bs))"
    using es(2) by (metis length_map)
  then have len: "length ?evs = 6 - k + 6 * length bs"
    by (simp add: length_concat comp_def sum_list_triv pre)
  have "6 * Suc (Suc n) \<le> length ?evs"
    using len assms(8,9) by simp
  then obtain rest q where r: "hal_reads (Suc (Suc n)) es p = Some (map (\<lambda>k. (96, cache_after (Suc k) ?evs (cache p))) [0..<Suc (Suc n)], rest, q)"
    using hal_reads_stream [OF assms(1,2) es(1)] by blast
  have "6 * Suc n = (6 - k) + (6 * n + k)"
    using assms(8) by simp
  then have "drop (6 * Suc n) (?pre @ concat (map frame bs)) = drop (6 * n + k) (concat (map frame bs))"
    using pre by (simp add: drop_append del: mult_Suc_right)
  then have six: "take 6 (drop (6 * Suc n) (map event_value ?evs)) = drop k (frame (bs ! n)) @ take k (frame (bs ! Suc n))" (is "_ = ?six")
    unfolding es(2) using six_across_frames [OF assms(9), of k] assms(8) by simp
  have fst: "map fst ?six = [k..<6] @ [0..<k]"
    using assms(8) by (simp add: map_fst_frame flip: drop_map take_map)
  then have covers: "distinct (map fst ?six)" "set (map fst ?six) = {0..<6}"
    using assms(8) by auto
  have "the (map_of ?six i) = axis_values (bs ! (if i < k then Suc n else n)) ! i" if "i < 6" for i
  proof -
    have two: "distinct (map fst (frame x))" "map_of (frame x) i = Some (axis_values x ! i)" for x
      using that by (simp_all add: map_fst_frame map_of_frame)
    have "(i, axis_values (bs ! (if i < k then Suc n else n)) ! i) \<in> set ?six"
    proof (cases "i < k")
      case True
      have "take k (frame (bs ! Suc n)) ! i = (i, axis_values (bs ! Suc n) ! i)"
        using True that by (simp add: frame_def axis_values_def axis_bytes_def)
      then show ?thesis
        using True assms(8) nth_mem [of i "take k (frame (bs ! Suc n))"] by simp
    next
      case False
      have "drop k (frame (bs ! n)) ! (i - k) = (i, axis_values (bs ! n) ! i)"
        using False that by (simp add: frame_def axis_values_def axis_bytes_def)
      then show ?thesis
        using False that nth_mem [of "i - k" "drop k (frame (bs ! n))"] by simp
    qed
    then show ?thesis
      using map_of_is_SomeI [OF covers(1)] by simp
  qed
  then have "map (\<lambda>i. (i, the (map_of ?six i))) [0..<6] = map (\<lambda>i. (i, axis_values (bs ! (if i < k then Suc n else n)) ! i)) [0..<6]"
    by simp
  moreover have "map sample_value (cache_after (Suc (Suc n)) ?evs (cache p)) = map (\<lambda>i. (i, the (map_of ?six i))) [0..<6]"
    using assms(1) six covers by (intro cache_after_values) (simp_all add: hal_ok_def)
  ultimately show ?thesis
    using r by (simp add: nth_append del: upt_Suc) 
qed

theorem dropped_axis_shifts_frames_witness:
  "\<exists>outs rest p'. hal_reads 2 (events_of [(1, 2), (2, 3), (3, 4), (4, 5), (5, 6), (0, 11), (1, 12), (2, 13), (3, 14), (4, 15), (5, 16),
        (0, 21), (1, 22), (2, 23), (3, 24), (4, 25), (5, 26)]) hal_start = Some (outs, rest, p')
    \<and> map sample_value (snd (outs ! 1)) = [(0, 21), (1, 12), (2, 13), (3, 14), (4, 15), (5, 16)]"
proof -
  let ?es = "events_of [(1, 2), (2, 3), (3, 4), (4, 5), (5, 6), (0, 11), (1, 12), (2, 13), (3, 14), (4, 15), (5, 16),
      (0, 21), (1, 22), (2, 23), (3, 24), (4, 25), (5, 26)]"
  let ?old = "(\<lambda>_. 0)(0 := 1) :: nat \<Rightarrow> int"
  have one: "filter (\<lambda>(i, v). ?old i = v) (frame block1) = [(0, 1)]"
    "filter (\<lambda>(i, v). ?old i \<noteq> v) (frame block1) = [(1, 2), (2, 3), (3, 4), (4, 5), (5, 6)]"
    by (simp_all add: frame_eq example_values)
  have "changed (\<lambda>i. if i < 6 then axis_values block1 ! i else ?old i) (concat (map frame [block2, block3]))
      = concat (map frame [block2, block3])"
    by (rule changed_moving [OF example_moves(2)]) simp
  then have "map event_value (axis_events ?es) = changed ?old (concat (map frame [block1, block2, block3]))"
    unfolding list.map concat.simps changed_frame [of ?old] one by (simp add: frame_eq example_values)
  then have passes: "passes_changes ?old (reports (sample_blocks [block1, block2, block3] idle_driver)) ?es"
    by (rule passes_changes_blocks [OF events_of_simps(1)])
  have k: "1 = length (filter (\<lambda>(i, v). ?old i = v) (frame block1))"
    unfolding one by simp
  have "\<exists>outs rest p'. hal_reads (Suc (Suc 0)) ?es hal_start = Some (outs, rest, p') \<and> fst (outs ! Suc 0) = 96
      \<and> map sample_value (snd (outs ! Suc 0)) = map (\<lambda>i. (i, axis_values ([block2, block3] ! (if i < 1 then Suc 0 else 0)) ! i)) [0..<6]"
    by (rule dropped_axis_shifts_frames [OF _ _ _ example_moves(2) passes k]) (simp_all add: idle_driver_def)
  moreover have "map (\<lambda>i. (i, axis_values ([block2, block3] ! (if i < 1 then Suc 0 else 0)) ! i)) [0..<6]
      = [(0, 21), (1, 12), (2, 13), (3, 14), (4, 15), (5, 16)]"
    by (simp add: example_values upt_rec)
  ultimately show ?thesis
    unfolding numeral_2_eq_2 One_nat_def by metis
qed

end
