(* ===== verification/Watchdog_Timing.thy ===== *)
theory Watchdog_Timing
  imports Watchdog Web
begin

text \<open>
  The watchdog against the clock: the monitor samples once a second, the web thread may wait for a
  silent client as long as the timeout of its socket, and both numbers give five seconds. Times are
  microseconds.
\<close>

section \<open>Samples and beats with their times\<close>

definition FEED_INTERVAL_US :: nat where "FEED_INTERVAL_US = 1000000"

text \<open>The five seconds of \<open>SO_RCVTIMEO\<close>.\<close>

definition RCV_TIMEOUT_US :: nat where "RCV_TIMEOUT_US = 5 * 1000000"

text \<open>Times at least \<open>s\<close> apart, as \<open>sleep\<close> promises; times at most \<open>g\<close> apart.\<close>

fun paced :: "nat \<Rightarrow> nat list \<Rightarrow> bool" where
  "paced s (t # t' # ts) \<longleftrightarrow> t + s \<le> t' \<and> paced s (t' # ts)"
| "paced s ts \<longleftrightarrow> True"

fun gaps_within :: "nat \<Rightarrow> nat list \<Rightarrow> bool" where
  "gaps_within g (b # b' # bs) \<longleftrightarrow> b \<le> b' \<and> b' \<le> b + g \<and> gaps_within g (b' # bs)"
| "gaps_within g bs \<longleftrightarrow> True"

text \<open>The heartbeat at a time, of a thread that started at 0 and beats at the given times.\<close>

definition beats_until :: "nat list \<Rightarrow> nat \<Rightarrow> nat" where
  "beats_until bs t = length (filter (\<lambda>b. b \<le> t) bs)"

definition heard :: "nat list \<Rightarrow> nat \<Rightarrow> u64" where
  "heard bs t = of_nat (beats_until bs t)"

text \<open>
  A thread that is alive while the samples \<open>ts\<close> are taken: it beats for the first time within four
  seconds of the first sample, then with gaps of at most \<open>g\<close>, until the last sample.
\<close>

definition steady :: "nat \<Rightarrow> nat list \<Rightarrow> nat list \<Rightarrow> bool" where
  "steady g ts bs \<longleftrightarrow> bs \<noteq> [] \<and> hd bs \<le> hd ts + 4 * FEED_INTERVAL_US \<and> gaps_within g bs
    \<and> last ts \<le> last bs \<and> length bs < 2 ^ 64"

lemma paced_nth: "paced s ts \<Longrightarrow> i + k < length ts \<Longrightarrow> ts ! i + k * s \<le> ts ! (i + k)"
proof (induction s ts arbitrary: i k rule: paced.induct)
  case (1 s t t' ts)
  show ?case
  proof (cases i)
    case (Suc j)
    then show ?thesis
      using "1.IH" [of j k] "1.prems" by simp
  next
    case 0
    then show ?thesis
      using "1.IH" [of 0 "k - 1"] "1.prems" by (cases k) auto
  qed
qed (auto simp: less_Suc_eq)

lemma paced_mono: "paced s ts \<Longrightarrow> i \<le> j \<Longrightarrow> j < length ts \<Longrightarrow> ts ! i \<le> ts ! j"
  using paced_nth [of s ts i "j - i"] by simp

lemma beats_until_mono: "t \<le> t' \<Longrightarrow> beats_until bs t \<le> beats_until bs t'"
  unfolding beats_until_def by (induction bs) auto

lemma beats_until_le: "beats_until bs t \<le> length bs"
  by (simp add: beats_until_def)

lemma beats_until_more: "b \<in> set bs \<Longrightarrow> t < b \<Longrightarrow> b \<le> t' \<Longrightarrow> beats_until bs t < beats_until bs t'"
proof (induction bs)
  case (Cons a bs)
  then show ?case
    using beats_until_mono [of t t' bs] by (auto simp: beats_until_def less_Suc_eq_le)
qed simp

lemma beat_between:
  "gaps_within g bs \<Longrightarrow> bs \<noteq> [] \<Longrightarrow> x + g \<le> y \<Longrightarrow> x < y \<Longrightarrow> hd bs \<le> y \<Longrightarrow> y \<le> last bs \<Longrightarrow> \<exists>b\<in>set bs. x < b \<and> b \<le> y"
proof (induction g bs rule: gaps_within.induct)
  case (1 g b b' bs)
  show ?case
  proof (cases "x < b")
    case False
    then show ?thesis
      using "1.IH" "1.prems" by fastforce
  qed (use "1.prems" in auto)
qed auto

text \<open>The last sample of a stall repeats the one before it.\<close>

lemma stalled_same: "stalled hs j \<Longrightarrow> i \<le> j \<Longrightarrow> hs ! (length hs - 1 - i) = hs ! (length hs - 1)"
proof (induction i)
  case (Suc i)
  then have "hs ! (length hs - 1 - i) = hs ! (length hs - 1 - i - 1)"
    unfolding stalled_def by (metis (no_types, lifting) Suc_le_eq Suc_pred diff_Suc_eq_diff_pred diff_le_mono2 diff_less le_less_trans less_imp_le_nat less_nat_zero_code neq0_conv zero_less_diff)
  then show ?case
    using Suc by simp
qed simp

text \<open>A thread with gaps of at most five seconds is never found dead.\<close>

lemma steady_not_stalled:
  assumes "paced FEED_INTERVAL_US ts" and "steady (5 * FEED_INTERVAL_US) ts bs"
  shows "\<not> stalled (0 # map (heard bs) (take k ts)) 5"
proof
  assume st: "stalled (0 # map (heard bs) (take k ts)) 5"
  define n where "n = min (length ts) k"
  have n: "5 \<le> n" "n \<le> length ts"
    using st by (auto simp: stalled_def n_def)
  have at: "(0 # map (heard bs) (take k ts)) ! Suc i = heard bs (ts ! i)" if "i < n" for i
    using that by (simp add: n_def)
  have same: "(0 # map (heard bs) (take k ts)) ! (n - 5) = heard bs (ts ! (n - 1))"
  proof -
    have "length (0 # map (heard bs) (take k ts)) - 1 = n"
      by (simp add: n_def)
    moreover have "Suc (n - 1) = n" "n - 1 < n"
      using n by simp_all
    ultimately show ?thesis
      using stalled_same [OF st, of 5] at [of "n - 1"] by simp
  qed
  have "beats_until bs t < 2 ^ 64" for t
    using beats_until_le [of bs t] assms(2) by (simp add: steady_def)
  then have inj: "unat (heard bs t) = beats_until bs t" for t
    by (simp add: heard_def unsigned_of_nat take_bit_nat_eq_self)
  have "ts ! (n - 1) \<le> ts ! (length ts - 1)"
    using n by (intro paced_mono [OF assms(1)]) linarith+
  then have last: "ts ! (n - 1) \<le> last bs"
    using assms(2) n last_conv_nth [of ts] by (cases "ts = []") (simp_all add: steady_def)
  have hd: "hd bs \<le> ts ! (n - 1)"
  proof -
    have "ts ! 0 + 4 * FEED_INTERVAL_US \<le> ts ! 4" "ts ! 4 \<le> ts ! (n - 1)"
      using paced_nth [OF assms(1), of 0 4] paced_mono [OF assms(1), of 4 "n - 1"] n by (simp, linarith)
    moreover have "hd ts = ts ! 0"
      using n by (cases ts) simp_all
    ultimately show ?thesis
      using assms(2) by (simp add: steady_def)
  qed
  have set: "hd bs \<in> set bs" "gaps_within (5 * FEED_INTERVAL_US) bs" "bs \<noteq> []"
    using assms(2) by (auto simp: steady_def)
  show False
  proof (cases "n = 5")
    case True
    have "0 < beats_until bs (ts ! (n - 1))"
      using set hd by (auto simp: beats_until_def filter_empty_conv)
    then show False
      using same inj True by (metis diff_self_eq_0 less_numeral_extra(3) nth_Cons_0 unat_0)
  next
    case False
    have six: "(0 # map (heard bs) (take k ts)) ! (n - 5) = heard bs (ts ! (n - 6))"
    proof -
      have "Suc (n - 6) = n - 5" "n - 6 < n"
        using False n by simp_all
      then show ?thesis
        using at by metis
    qed
    have "ts ! (n - 6) + 5 * FEED_INTERVAL_US \<le> ts ! (n - 1)"
      using paced_nth [OF assms(1), of "n - 6" 5] n False by simp
    then obtain b where "b \<in> set bs" "ts ! (n - 6) < b" "b \<le> ts ! (n - 1)"
      using beat_between [OF set(2,3) _ _ hd last] by (force simp: FEED_INTERVAL_US_def)
    then show False
      using beats_until_more inj same six by (metis less_irrefl)
  qed
qed

section \<open>The web thread's beats\<close>

text \<open>
  The beats of a run of rounds, each with the time it takes, from a time on: one at the start of a
  round, and one at the end if it was answered.
\<close>

fun beat_times :: "nat \<Rightarrow> (web_request \<times> nat) list \<Rightarrow> nat list" where
  "beat_times t [] = []"
| "beat_times t ((r, d) # rs) =
     t # (if answered_path r = None then [] else [t + d]) @ beat_times (t + d) rs"

lemma web_beat_times:
  "\<forall>(r, d)\<in>set rs. request_ok r \<Longrightarrow> \<exists>w'. web_loop (map fst rs) w = Inr w'
    \<and> g_http_heartbeat w' = g_http_heartbeat w + of_nat (length (beat_times t rs))"
proof (induction t rs arbitrary: w rule: beat_times.induct)
  case (2 t r d rs)
  then have r: "request_ok r" "\<forall>(r, d)\<in>set rs. request_ok r"
    by auto
  show ?case
    using web_round_ok [OF r(1), of w] "2.IH" [OF r(2)]
    by (cases "answered_path r") (fastforce simp: feed_http_def algebra_simps)+
qed simp

lemma beat_times_from: "b \<in> set (beat_times t rs) \<Longrightarrow> t \<le> b"
  by (induction t rs rule: beat_times.induct) (auto split: if_splits)

lemma hd_beat_times [simp]: "rs \<noteq> [] \<Longrightarrow> hd (beat_times t rs) = t"
  by (cases "(t, rs)" rule: beat_times.cases) simp_all

lemma gaps_Cons: "bs = [] \<or> b \<le> hd bs \<and> hd bs \<le> b + g \<and> gaps_within g bs \<Longrightarrow> gaps_within g (b # bs)"
  by (cases bs) auto

lemma gaps_beat_times: "\<forall>(r, d)\<in>set rs. d \<le> g \<Longrightarrow> gaps_within g (beat_times t rs)"
proof (induction t rs rule: beat_times.induct)
  case (2 t r d rs)
  then have "d \<le> g" and IH: "gaps_within g (beat_times (t + d) rs)"
    by auto
  have "gaps_within g ((t + d) # beat_times (t + d) rs)" "gaps_within g (t # beat_times (t + d) rs)"
    using IH \<open>d \<le> g\<close> by (cases "rs = []"; auto intro!: gaps_Cons)+
  then show ?case
    using \<open>d \<le> g\<close> by (auto intro!: gaps_Cons)
qed simp

section \<open>The monitor\<close>

definition monitor_hears :: "nat list \<Rightarrow> nat list \<Rightarrow> nat list \<Rightarrow> (u64 \<times> u64) list" where
  "monitor_hears cs ws ts = map (\<lambda>t. (heard cs t, heard ws t)) ts"

lemma monitor_hears_dead:
  "someone_dead (take k (monitor_hears cs ws ts)) \<longleftrightarrow>
    stalled (0 # map (heard cs) (take k ts)) 5 \<or> stalled (0 # map (heard ws) (take k ts)) 5"
  by (simp add: someone_dead_def monitor_hears_def take_map [symmetric] comp_def)

text \<open>A client that connects and sends nothing.\<close>

definition silent_client :: "web_request \<Rightarrow> bool" where
  "silent_client r \<longleftrightarrow> 0 \<le> wr_accept r \<and> wr_recv r \<le> 0"

text \<open>Six samples of the monitor, as close to each other as \<open>sleep\<close> allows.\<close>

definition six_samples :: "nat \<Rightarrow> nat list" where
  "six_samples t = map (\<lambda>i. t + i * FEED_INTERVAL_US) [0..<6]"

lemma silent_no_answer: "silent_client r \<Longrightarrow> answered_path r = None"
  by (simp add: silent_client_def answered_path_def)

lemma beat_times_append: "beat_times t (rs @ rs') = beat_times t rs @ beat_times (t + sum_list (map snd rs)) rs'"
  by (induction t rs rule: beat_times.induct) (simp_all add: add.assoc)

lemma beats_until_append [simp]: "beats_until (bs @ bs') t = beats_until bs t + beats_until bs' t"
  by (simp add: beats_until_def)

lemma beats_until_later: "x < t \<Longrightarrow> beats_until (beat_times t rs) x = 0"
  using beat_times_from [of _ t rs] by (fastforce simp: beats_until_def filter_empty_conv)

text \<open>While the thread waits for a silent client the counter stands still.\<close>

lemma silent_wait:
  assumes "silent_client r" and "t = t0 + sum_list (map snd pre)" and "t \<le> x" and "x < t + d"
  shows "beats_until (beat_times t0 (pre @ (r, d) # post)) x = Suc (length (beat_times t0 pre))"
proof -
  have "b \<le> t" if "b \<in> set (beat_times t0 pre)" for b
    using that unfolding assms(2) by (induction t0 pre rule: beat_times.induct) (auto split: if_splits)
  then have "filter (\<lambda>b. b \<le> x) (beat_times t0 pre) = beat_times t0 pre"
    using assms(3) by (fastforce simp: filter_id_conv)
  then show ?thesis
    using assms beats_until_later [of x "t + d" post]
    by (simp add: beat_times_append silent_no_answer) (simp add: beats_until_def)
qed

lemma stalled_replicate: "stalled (xs @ replicate 6 v) 5"
  by (auto simp: stalled_def nth_append)

lemma silent_stalls:
  assumes "silent_client r" and "t = t0 + sum_list (map snd pre)" and "RCV_TIMEOUT_US < d"
  shows "stalled (0 # map (heard (beat_times t0 (pre @ (r, d) # post))) (before @ six_samples t)) 5"
proof -
  have "map (heard (beat_times t0 (pre @ (r, d) # post))) (six_samples t)
      = replicate 6 (of_nat (Suc (length (beat_times t0 pre))))"
  proof (rule replicate_eqI)
    fix v
    assume "v \<in> set (map (heard (beat_times t0 (pre @ (r, d) # post))) (six_samples t))"
    then obtain i where i: "i < 6" "v = heard (beat_times t0 (pre @ (r, d) # post)) (t + i * FEED_INTERVAL_US)"
      by (auto simp: six_samples_def)
    have "t + i * FEED_INTERVAL_US < t + d"
      using assms(3) i(1) by (simp add: FEED_INTERVAL_US_def RCV_TIMEOUT_US_def)
    then show "v = of_nat (Suc (length (beat_times t0 pre)))"
      using silent_wait [OF assms(1,2)] i(2) by (simp add: heard_def)
  qed (simp add: six_samples_def)
  then show ?thesis
    using stalled_replicate [of "0 # map (heard (beat_times t0 (pre @ (r, d) # post))) before"] by simp
qed

text \<open>Before the last of the six samples the wait looks like one that ends in time.\<close>

lemma silent_not_yet:
  assumes "silent_client r" and "t = t0 + sum_list (map snd pre)" and "RCV_TIMEOUT_US < d"
    and "\<forall>(r, d)\<in>set pre. d \<le> RCV_TIMEOUT_US" and "ts = before @ six_samples t" and "paced FEED_INTERVAL_US ts"
    and "t0 \<le> hd ts + 4 * FEED_INTERVAL_US" and "length (beat_times t0 (pre @ (r, d) # post)) < 2 ^ 64 - 1"
    and "k < length ts"
  shows "\<not> stalled (0 # map (heard (beat_times t0 (pre @ (r, d) # post))) (take k ts)) 5"
proof -
  let ?bs = "beat_times t0 (pre @ [(r, RCV_TIMEOUT_US), (r, 0)])"
  have bs: "?bs = beat_times t0 pre @ [t, t + RCV_TIMEOUT_US]"
    using assms(1,2) by (simp add: beat_times_append silent_no_answer)
  have k: "length ts = length before + 6"
    by (simp add: assms(5) six_samples_def)
  have last: "last ts = t + RCV_TIMEOUT_US"
    by (simp add: assms(5) six_samples_def FEED_INTERVAL_US_def RCV_TIMEOUT_US_def upt_rec)
  have "gaps_within (5 * FEED_INTERVAL_US) ?bs"
    using assms(4) by (intro gaps_beat_times) (auto simp: FEED_INTERVAL_US_def RCV_TIMEOUT_US_def)
  moreover have "length ?bs < 2 ^ 64"
    using assms(8) by (simp add: beat_times_append silent_no_answer [OF assms(1)])
  moreover have "last ?bs = t + RCV_TIMEOUT_US"
    unfolding bs by simp
  moreover have "hd ?bs = t0"
    by (rule hd_beat_times) simp
  moreover have "?bs \<noteq> []"
    unfolding bs by simp
  ultimately have "steady (5 * FEED_INTERVAL_US) ts ?bs"
    using assms(7) last by (simp add: steady_def)
  moreover have "heard (beat_times t0 (pre @ (r, d) # post)) x = heard ?bs x" if "x < t + RCV_TIMEOUT_US" for x
    using that assms(2,3) beats_until_later [of x "t + d" post] silent_no_answer [OF assms(1)] unfolding bs heard_def
    by (simp add: beat_times_append) (simp add: beats_until_def)
  moreover have "x < t + RCV_TIMEOUT_US" if x: "x \<in> set (take k ts)" for x
  proof -
    obtain i where "i < length (take k ts)" "take k ts ! i = x"
      using x unfolding in_set_conv_nth by blast
    then have i: "x = ts ! i" "Suc i < length ts"
      using assms(9) by simp_all
    have "ts ! i + FEED_INTERVAL_US \<le> ts ! Suc i" "ts ! Suc i \<le> ts ! (length ts - 1)"
      using paced_nth [OF assms(6), of i 1] paced_mono [OF assms(6), of "Suc i" "length ts - 1"] i(2) by simp_all
    moreover have "ts ! (length ts - 1) = last ts"
      using k by (cases "ts = []") (simp_all add: last_conv_nth)
    ultimately show ?thesis
      using last i(1) by (simp add: FEED_INTERVAL_US_def)
  qed
  ultimately show ?thesis
    using steady_not_stalled [OF assms(6), of ?bs k] by (simp cong: map_cong)
qed

section \<open>The margin\<close>

text \<open>
  C14. Between the timeout of the web thread and the patience of the monitor there is nothing: as long
  as every round of the web thread ends within five seconds, and the collector beats as often, the
  monitor feeds the device at each of its samples, however they fall. But the timeout of a receive
  is only a lower bound: if the wait for one silent client takes a little longer, there are samples
  one second apart that all fall into it, and the sixth ends the feeding in the name of the web
  thread, although both threads work and the web thread goes on with its next client.
\<close>

theorem watchdog_margin:
  assumes "\<forall>(r, d)\<in>set rs. request_ok r" and "rs \<noteq> []" and "paced FEED_INTERVAL_US ts"
    and "t0 \<le> hd ts + 4 * FEED_INTERVAL_US" and "last ts \<le> last (beat_times t0 rs)"
    and "length (beat_times t0 rs) < 2 ^ 64 - 1" and "steady (5 * FEED_INTERVAL_US) ts cs"
  shows "(\<exists>w'. web_loop (map fst rs) w = Inr w'
      \<and> g_http_heartbeat w' = g_http_heartbeat w + of_nat (length (beat_times t0 rs)))
    \<and> ((\<forall>(r, d)\<in>set rs. d \<le> RCV_TIMEOUT_US) \<longrightarrow>
      (let m = watchdog_monitor_thread True test_mode (monitor_hears cs (beat_times t0 rs) ts) in
       \<not> wd_exited m \<and> wd_feeds m = length ts \<and> g_watchdog_dead_thread m = 0))
    \<and> (\<forall>pre r d post before. rs = pre @ (r, d) # post \<and> silent_client r \<and> RCV_TIMEOUT_US < d
        \<and> (\<forall>(r, d)\<in>set pre. d \<le> RCV_TIMEOUT_US) \<and> ts = before @ six_samples (t0 + sum_list (map snd pre)) \<longrightarrow>
      (let m = watchdog_monitor_thread True False (monitor_hears cs (beat_times t0 rs) ts) in
       wd_exited m \<and> wd_feeds m = length before + 5 \<and> g_watchdog_dead_thread m = 2))"
proof (intro conjI allI impI)
  note collector = steady_not_stalled [OF assms(3,7)]
  show "\<exists>w'. web_loop (map fst rs) w = Inr w'
      \<and> g_http_heartbeat w' = g_http_heartbeat w + of_nat (length (beat_times t0 rs))"
    by (rule web_beat_times [OF assms(1)])
  {
    assume "\<forall>(r, d)\<in>set rs. d \<le> RCV_TIMEOUT_US"
    then have "steady (5 * FEED_INTERVAL_US) ts (beat_times t0 rs)"
      using assms(2,4-6) gaps_beat_times [of rs "5 * FEED_INTERVAL_US" t0]
      by (cases "(t0, rs)" rule: beat_times.cases) (simp_all add: steady_def FEED_INTERVAL_US_def RCV_TIMEOUT_US_def)
    then show "let m = watchdog_monitor_thread True test_mode (monitor_hears cs (beat_times t0 rs) ts) in
        \<not> wd_exited m \<and> wd_feeds m = length ts \<and> g_watchdog_dead_thread m = 0"
      using watchdog_loop_running [of "monitor_hears cs (beat_times t0 rs) ts" test_mode] collector steady_not_stalled [OF assms(3)]
      by (simp add: monitor_hears_dead watchdog_monitor_thread_def Let_def) (simp add: monitor_hears_def)
  next
    fix pre r d post before
    assume "rs = pre @ (r, d) # post \<and> silent_client r \<and> RCV_TIMEOUT_US < d
        \<and> (\<forall>(r, d)\<in>set pre. d \<le> RCV_TIMEOUT_US) \<and> ts = before @ six_samples (t0 + sum_list (map snd pre))"
    then have rs: "rs = pre @ (r, d) # post" "silent_client r" "RCV_TIMEOUT_US < d" "\<forall>(r, d)\<in>set pre. d \<le> RCV_TIMEOUT_US"
      and ts: "ts = before @ six_samples (t0 + sum_list (map snd pre))"
      by simp_all
    let ?hs = "monitor_hears cs (beat_times t0 rs) ts" and ?k = "length before + 5"
    have len: "length ?hs = Suc ?k" "length ts = Suc ?k"
      by (simp_all add: monitor_hears_def ts six_samples_def)
    then have all: "take (Suc ?k) ?hs = ?hs" "take (Suc ?k) ts = ts"
      by simp_all
    have stall: "stalled (0 # map (heard (beat_times t0 rs)) ts) 5"
      using silent_stalls [OF rs(2) refl rs(3)] unfolding ts rs(1) by blast
    have "\<not> someone_dead (take j ?hs)" if "j \<le> ?k" for j
      using silent_not_yet [OF rs(2) refl rs(3,4) ts assms(3,4)] assms(6) collector that len(2)
      by (simp add: monitor_hears_dead rs(1))
    moreover have "someone_dead (take (Suc ?k) ?hs)" "stalled (0 # map snd (take (Suc ?k) ?hs)) 5"
      using stall unfolding all by (simp_all add: someone_dead_def monitor_hears_def comp_def)
    ultimately show "let m = watchdog_monitor_thread True False ?hs in
        wd_exited m \<and> wd_feeds m = ?k \<and> g_watchdog_dead_thread m = 2"
      using watchdog_loop_stops [of ?k ?hs] len(1) by (simp add: watchdog_monitor_thread_def Let_def)
  }
qed

text \<open>One client that is answered, a silent one, and an idle round; a collector that beats every second.\<close>

definition silent_request :: web_request where
  "silent_request = (web_request_of 6 [])"

definition example_rounds :: "nat \<Rightarrow> (web_request \<times> nat) list" where
  "example_rounds d = [(web_request_of 5 ''GET / HTTP/1.1'', 200), (silent_request, d), (web_request_of (-1) [], 100), (web_request_of (-1) [], 100)]"

definition every_second :: "nat list" where
  "every_second = [0, 1000000, 2000000, 3000000, 4000000, 5000000, 6000000]"

theorem watchdog_margin_witness:
  "(let m = watchdog_monitor_thread True False
        (monitor_hears every_second (beat_times 0 (example_rounds RCV_TIMEOUT_US)) [150, 1000200, 2000200, 3000300, 4000300, 5000300]) in
      \<not> wd_exited m \<and> wd_feeds m = 6)
    \<and> (let m = watchdog_monitor_thread True False
        (monitor_hears every_second (beat_times 0 (example_rounds (RCV_TIMEOUT_US + 4000))) (six_samples 200)) in
      wd_exited m \<and> wd_feeds m = 5 \<and> g_watchdog_dead_thread m = 2)"
proof -
  have ok: "\<forall>(r, d)\<in>set (example_rounds d). request_ok r" "example_rounds d \<noteq> []" for d
    by (simp_all add: example_rounds_def silent_request_def web_request_of_ok)
  have silent: "silent_client silent_request" "answered_path (web_request_of (-1) []) = None"
    by (simp_all add: silent_client_def silent_request_def web_request_of_def answered_path_def)
  have last: "last (beat_times 0 (example_rounds d)) = d + 300" "length (beat_times 0 (example_rounds d)) \<le> 5" for d
    using silent silent_no_answer [OF silent(1)] by (simp_all add: example_rounds_def)
  let ?ts = "[150, 1000200, 2000200, 3000300, 4000300, 5000300] :: nat list"
  have "paced FEED_INTERVAL_US ?ts" "steady (5 * FEED_INTERVAL_US) ?ts every_second"
    by (simp_all add: FEED_INTERVAL_US_def steady_def every_second_def)
  moreover have "\<forall>(r, d)\<in>set (example_rounds RCV_TIMEOUT_US). d \<le> RCV_TIMEOUT_US"
    by (simp add: example_rounds_def RCV_TIMEOUT_US_def)
  ultimately have fed: "let m = watchdog_monitor_thread True False
        (monitor_hears every_second (beat_times 0 (example_rounds RCV_TIMEOUT_US)) ?ts) in \<not> wd_exited m \<and> wd_feeds m = 6"
    using watchdog_margin [OF ok, of ?ts 0 RCV_TIMEOUT_US every_second idle_web False] last [of RCV_TIMEOUT_US]
    by (simp add: Let_def RCV_TIMEOUT_US_def)
  have six: "six_samples 200 = [200, 1000200, 2000200, 3000200, 4000200, 5000200]"
    by (simp add: six_samples_def FEED_INTERVAL_US_def upt_rec)
  have p: "paced FEED_INTERVAL_US (six_samples 200)" "steady (5 * FEED_INTERVAL_US) (six_samples 200) every_second"
    by (simp_all add: six FEED_INTERVAL_US_def steady_def every_second_def)
  let ?r = "web_request_of 5 ''GET / HTTP/1.1''" and ?idle = "web_request_of (-1) []"
  have bounds: "0 \<le> hd (six_samples 200) + 4 * FEED_INTERVAL_US"
    "last (six_samples 200) \<le> last (beat_times 0 (example_rounds (RCV_TIMEOUT_US + 4000)))"
    "length (beat_times 0 (example_rounds (RCV_TIMEOUT_US + 4000))) < 2 ^ 64 - 1"
    using last [of "RCV_TIMEOUT_US + 4000"] by (simp_all add: six RCV_TIMEOUT_US_def)
  have "let m = watchdog_monitor_thread True False
        (monitor_hears every_second (beat_times 0 (example_rounds (RCV_TIMEOUT_US + 4000))) (six_samples 200)) in
      wd_exited m \<and> wd_feeds m = length ([] :: nat list) + 5 \<and> g_watchdog_dead_thread m = 2"
    by (rule watchdog_margin [OF ok p(1) bounds p(2), THEN conjunct2, THEN conjunct2, rule_format,
          where pre = "[(?r, 200)]" and r = silent_request and d = "RCV_TIMEOUT_US + 4000" and post = "[(?idle, 100), (?idle, 100)]"])
      (simp add: example_rounds_def silent(1) RCV_TIMEOUT_US_def)
  then show ?thesis
    using fed by simp
qed

end
