(* ===== verification/Regs_Race.thy ===== *)
theory Regs_Race
  imports Collector
begin

text \<open>
  The collector storing the four registers while the Modbus server loads them for a reply, in single
  operations on one memory: every interleaving of the two, with nothing stale. These are executions
  that relaxed atomics allow; the theories of the whole system allow more.
\<close>

section \<open>Stores and loads\<close>

datatype reg_op = Store reg | Load reg

text \<open>The memory, and the values the server has loaded so far. \<open>data\<close> is what is stored.\<close>

fun reg_step :: "modbus_reg_data \<Rightarrow> reg_op \<Rightarrow> modbus_reg_data \<times> modbus_reg_data \<Rightarrow> modbus_reg_data \<times> modbus_reg_data" where
  "reg_step data (Store r) (g, seen) = (store_reg data r g, seen)"
| "reg_step data (Load r) (g, seen) = (g, store_reg g r seen)"

definition races :: "reg_op list set" where
  "races = shuffles (map Store update_order) (map Load load_order)"

lemma load_store [simp]: "load_reg r (store_reg data r' g) = (if r = r' then load_reg r data else load_reg r g)"
  by (cases r; cases r') simp_all

lemma load_update [simp]: "load_reg r (modbus_server_update_data data g) = load_reg r data"
  by (cases r) (simp_all add: update_data_eq)

lemma regs_eqI: "(\<And>r. load_reg r d = load_reg r d') \<Longrightarrow> d = d'" for d d' :: modbus_reg_data
  by (metis load_reg.simps modbus_reg_data.equality unit.exhaust)

lemma all_regs [simp]: "set update_order = UNIV" "set load_order = UNIV"
proof -
  have "r \<in> set update_order" "r \<in> set load_order" for r
    by (cases r; simp add: update_order_def load_order_def)+
  then show "set update_order = UNIV" "set load_order = UNIV"
    by auto
qed

text \<open>Every value stays that of before or that which is stored, in the memory and for the server.\<close>

lemma old_or_new:
  assumes "fold (reg_step data) ops (g, seen) = (g', seen')" and "\<And>r. load_reg r g \<in> {load_reg r old, load_reg r data}"
  shows "load_reg r g' \<in> {load_reg r old, load_reg r data}
    \<and> (Load r \<in> set ops \<or> load_reg r seen \<in> {load_reg r old, load_reg r data} \<longrightarrow>
        load_reg r seen' \<in> {load_reg r old, load_reg r data})"
  using assms
proof (induction ops arbitrary: g seen)
  case (Cons op ops)
  obtain g1 seen1 where op: "reg_step data op (g, seen) = (g1, seen1)"
    by (metis prod.exhaust)
  have "load_reg r' g1 \<in> {load_reg r' old, load_reg r' data}" for r'
    using op Cons.prems(2) [of r'] by (cases op) auto
  moreover have "load_reg r seen1 \<in> {load_reg r old, load_reg r data}"
    if "op = Load r \<or> load_reg r seen \<in> {load_reg r old, load_reg r data}"
    using that op Cons.prems(2) [of r] by (cases op) auto
  ultimately show ?case
    using Cons.IH [of g1 seen1] Cons.prems(1) op by auto
qed auto

text \<open>When the two run to their ends every register was stored and loaded.\<close>

lemma stored_in_the_end:
  "fold (reg_step data) ops (g, seen) = (g', seen') \<Longrightarrow>
    load_reg r g' = (if Store r \<in> set ops then load_reg r data else load_reg r g)"
proof (induction ops arbitrary: g seen)
  case (Cons op ops)
  then show ?case by (cases op) auto
qed simp

lemma race_ends:
  assumes "ops \<in> races" and "fold (reg_step data) ops (g, seen) = (g', d)"
  shows "g' = modbus_server_update_data data g" "load_reg r d \<in> {load_reg r g, load_reg r data}"
proof -
  have ops: "set ops = range Store \<union> range Load"
    using assms(1) set_shuffles unfolding races_def by fastforce
  have "load_reg r g' = load_reg r data" for r
    using stored_in_the_end [OF assms(2)] ops by simp
  then show "g' = modbus_server_update_data data g"
    by (intro regs_eqI) simp
  show "load_reg r d \<in> {load_reg r g, load_reg r data}"
    using old_or_new [OF assms(2), of g r] ops by auto
qed

text \<open>The interleaving in which the server sees the new values of just the registers \<open>new\<close>.\<close>

definition mixing :: "(reg \<Rightarrow> bool) \<Rightarrow> reg list \<Rightarrow> reg_op list" where
  "mixing new rs = concat (map (\<lambda>r. if new r then [Store r, Load r] else [Load r, Store r]) rs)"

lemma mixing_shuffles: "mixing new rs \<in> shuffles (map Store rs) (map Load rs)"
  by (induction rs) (simp_all add: mixing_def Cons_in_shuffles_iff)

lemma mixing_seen:
  "distinct rs \<Longrightarrow> \<exists>g'. fold (reg_step data) (mixing new rs) (g, seen) = (g', d) \<Longrightarrow>
    load_reg r d = (if r \<notin> set rs then load_reg r seen else if new r then load_reg r data else load_reg r g)"
proof (induction rs arbitrary: g seen)
  case (Cons a rs)
  let ?seen = "store_reg (if new a then data else g) a seen"
  have "fold (reg_step data) (mixing new (a # rs)) (g, seen) = fold (reg_step data) (mixing new rs) (store_reg data a g, store_reg (if new a then store_reg data a g else g) a seen)"
    by (simp add: mixing_def)
  then show ?case
    using Cons by auto
qed (simp add: mixing_def)

lemma race_for:
  assumes "\<And>r. v r \<in> {load_reg r g, load_reg r data}"
  obtains ops g' d where "ops \<in> races" "fold (reg_step data) ops (g, seen) = (g', d)" "\<And>r. load_reg r d = v r"
proof -
  let ?new = "\<lambda>r. v r = load_reg r data"
  obtain g' d where d: "fold (reg_step data) (mixing ?new update_order) (g, seen) = (g', d)"
    by (metis prod.exhaust)
  have same: "load_order = update_order" "distinct update_order"
    by (simp_all add: load_order_def update_order_def)
  have "mixing ?new update_order \<in> races"
    unfolding races_def same(1) by (rule mixing_shuffles)
  moreover have "load_reg r d = v r" for r
    using mixing_seen [OF same(2), of data ?new g seen d r] d assms [of r] by auto
  ultimately show ?thesis
    using that d by blast
qed

section \<open>What a client may get\<close>

lemma legal_reply:
  assumes "rq_running r" and "0 < rq_rc r" and "q = received (rq_frame r) query" and "\<not> illegal_query q"
  shows "sent (snd (snd (client_request system ip query (r\<lparr>rq_regs := d\<rparr>) s))) = sent s @ [Reply q (rq_rc r) (load_regs d)]"
proof -
  obtain goes_on query' s' where step: "client_request system ip query (r\<lparr>rq_regs := d\<rparr>) s = (goes_on, query', s')"
    by (metis prod_cases3)
  then show ?thesis
    using client_request_served(3) [OF _ _ _ step, of q] assms by (simp add: answer_of_def illegal_query_def)
qed

text \<open>
  C38. A reply need not be one measurement: while the collector publishes a frame, the server's loads
  for a legal request may fall between its stores so that the reply holds any combination of old and
  new registers, each independently of the others, and nothing else. Every one of the combinations
  has an interleaving of the four stores and the four loads, without any stale load, after which the
  registers are those the collector publishes.
\<close>

theorem reply_mixes_frames:
  assumes "rq_running r" and "0 < rq_rc r" and "q = received (rq_frame r) query" and "\<not> illegal_query q"
  shows "(\<exists>ops\<in>races. \<exists>d. fold (reg_step (mb_data c)) ops (c_regs c, seen) = (c_regs (publish_regs c), d)
      \<and> sent (snd (snd (client_request system ip query (r\<lparr>rq_regs := d\<rparr>) s))) = sent s @ [Reply q (rq_rc r) vs])
    \<longleftrightarrow> length vs = 4 \<and> (\<forall>k<4. vs ! k \<in> {load_regs (c_regs c) ! k, load_regs (c_regs (publish_regs c)) ! k})"
    (is "?race \<longleftrightarrow> ?mix")
proof -
  have new: "load_reg r (c_regs (publish_regs c)) = load_reg r (mb_data c)" for r
    by (simp add: publish_regs_def)
  have four: "(\<forall>k<4. P k) \<longleftrightarrow> P 0 \<and> P 1 \<and> P 2 \<and> P 3" for P :: "nat \<Rightarrow> bool"
    by (auto simp: less_Suc_eq eval_nat_numeral)
  show ?thesis
  proof
    assume ?race
    then obtain ops d where d: "ops \<in> races" "fold (reg_step (mb_data c)) ops (c_regs c, seen) = (c_regs (publish_regs c), d)"
      and "sent (snd (snd (client_request system ip query (r\<lparr>rq_regs := d\<rparr>) s))) = sent s @ [Reply q (rq_rc r) vs]"
      by blast
    then have vs: "vs = load_regs d"
      using legal_reply [OF assms, of system ip d s] by simp
    have "load_reg r d \<in> {load_reg r (c_regs c), load_reg r (c_regs (publish_regs c))}" for r
      using race_ends(2) [OF d(1,2)] new by simp
    moreover have "load_regs x ! k = load_reg (load_order ! k) x" "length (load_regs x) = 4" if "k < 4" for k x
    proof -
      have "length load_order = 4"
        by (simp add: load_order_def)
      then show "load_regs x ! k = load_reg (load_order ! k) x" "length (load_regs x) = 4"
        using that by (simp_all add: load_regs_def)
    qed
    ultimately show ?mix
      unfolding vs by (metis zero_less_numeral)
  next
    assume ?mix
    then obtain a b e f where vs: "vs = [a, b, e, f]"
      by (auto simp: eval_nat_numeral length_Suc_conv)
    let ?v = "case_reg a b e f"
    have "?v r \<in> {load_reg r (c_regs c), load_reg r (mb_data c)}" for r
      using \<open>?mix\<close> unfolding four vs new [symmetric] by (cases r) (simp_all add: load_regs_eq)
    then obtain ops g' d where d: "ops \<in> races" "fold (reg_step (mb_data c)) ops (c_regs c, seen) = (g', d)" "\<And>r. load_reg r d = ?v r"
      by (rule race_for) blast
    have "load_regs d = vs"
      by (simp add: load_regs_def load_order_def d(3) vs)
    moreover have "g' = c_regs (publish_regs c)"
      using race_ends(1) [OF d(1,2)] by (simp add: publish_regs_def)
    ultimately show ?race
      using d(1,2) legal_reply [OF assms, of system ip d s] by auto
  qed
qed

text \<open>The collector about to publish 21.5 degrees and 45 percent over registers that are still zero.\<close>

definition about_to_publish :: collector where
  "about_to_publish = started\<lparr>sht_buf :=
     [\<lparr>timestamp_ns = 5, sensor_type = SENSOR_SHT30, channel = 0, sd_value = 21500\<rparr>,
      \<lparr>timestamp_ns = 5, sensor_type = SENSOR_SHT30, channel = 1, sd_value = 45000\<rparr>], c_regs := zero_regs\<rparr>"

theorem reply_mixes_frames_witness:
  "\<exists>ops\<in>races. \<exists>d. fold (reg_step (mb_data about_to_publish)) ops (zero_regs, zero_regs) = (c_regs (publish_regs about_to_publish), d)
    \<and> sent (snd (snd (client_request (\<lambda>_ w. (0, w)) 1 (replicate 260 0) ((read_request 0)\<lparr>rq_regs := d\<rparr>) (server_start ()))))
      = [Reply read_query 12 [2150, 0, 0, 0]]"
proof -
  have q: "read_query = received (rq_frame (read_request 0)) (replicate 260 0)"
    using received_simps(1) [of 0] by (simp add: read_request_def)
  have legal: "\<not> illegal_query read_query"
    by (simp add: illegal_query_def read_query_def query_function_def word_at_def MODBUS_FC_READ_HOLDING_REGISTERS_def MODBUS_MAX_REGS_def)
  have "length [2150, 0, 0, 0 :: u16] = 4 \<and> (\<forall>k<4. [2150, 0, 0, 0] ! k
      \<in> {load_regs (c_regs about_to_publish) ! k, load_regs (c_regs (publish_regs about_to_publish)) ! k})"
    by (simp add: less_Suc_eq eval_nat_numeral about_to_publish_def load_regs_eq publish_regs_def update_data_eq mb_data_def zero_regs_def started_def)
  moreover have "c_regs about_to_publish = zero_regs" "rq_rc (read_request 0) = 12" "sent (server_start ()) = []"
    by (simp_all add: about_to_publish_def read_request_def server_start_def)
  ultimately show ?thesis
    using reply_mixes_frames [OF _ _ q legal, of about_to_publish zero_regs "\<lambda>_ w. (0, w)" 1 "server_start ()" "[2150, 0, 0, 0]"]
    by (simp add: read_request_def)
qed

end
