(* ===== verification/Spec2Isabelle.thy ===== *)
theory Spec2Isabelle
  imports Ring_Buffer Spsc Ring_Buffer_Test Fsm Metrics Watchdog Blacklist Db_Manager Modbus_Server Modbus_Client
    Mpu6050_Hal Sht30_Hal Sht30_Driver Mpu6050_Driver Collector Exposition Web Main_App System_Safety Sysfs_Path Dead_Sensor
    Motion_Path Watchdog_Timing Regs_Race
begin

text \<open>
  A model of edge-omni, the C program of a sensor gateway (32-bit ARM Linux), and the properties
  that make it correct. Paths are relative to the repository.

  \<^bold>\<open>The program.\<close> Two kernel drivers read the sensors over i2c: \<open>kernel-drivers/mpu6050\<close> reports
  motion samples through the input layer, \<open>kernel-drivers/sht30\<close> shows temperature and humidity as
  attribute files. In user space two drivers of one abstraction layer (\<open>app/hal\<close>) read these. The
  collector thread (\<open>app/main.c\<close>) polls both ten times a second, keeps streaks of failures that
  drive the state machine (\<open>app/core/fsm.c\<close>), hands rows to the batching database layer
  (\<open>app/core/db_manager.c\<close>), records latencies (\<open>app/core/metrics.c\<close>) and publishes registers, which
  the Modbus server (\<open>app/modbus/modbus_server.c\<close>) serves behind a blacklist. The web thread
  (\<open>app/main.c\<close>) serves a page and an exposition of the same values. A monitor
  (\<open>app/core/watchdog.c\<close>) feeds the hardware watchdog while both threads move their heartbeats.

  \<^bold>\<open>Theories\<close>, each with the operations of its file under their C names:
  \<^item> \<open>Edge_Prelude\<close>: machine types, \<open>timespec\<close>, error numbers, decimal texts, \<open>atoi\<close>, masks.
  \<^item> \<open>Fifo\<close>, \<open>Ring_Buffer\<close>: a bounded queue and \<open>app/core/ring_buffer.c\<close>, which refines it until
    its read index has passed one lap, and not after. \<open>Spsc\<close>: the same buffer between its two
    threads in single memory operations. \<open>Ring_Buffer_Test\<close>: \<open>app/core/ring_buffer_test.c\<close>.
  \<^item> \<open>Thread_Config\<close>: \<open>app/include/thread_config.h\<close> and the preamble of the two long-running threads.
  \<^item> \<open>Fsm\<close>: table, transition, queries, timed wait. \<open>Metrics\<close>: the window of latencies and its
    percentiles, with the loops as recursion and their equivalence to \<open>sort\<close>.
  \<^item> \<open>Heartbeat\<close>, \<open>Watchdog\<close>: the contract of a thread that is watched (locale
    \<open>heartbeat_source\<close>, interpreted for the collector and for the web thread) and the monitor.
    \<open>Watchdog_Timing\<close>: both against the clock, with the timeout of the web thread's socket.
  \<^item> \<open>Ban_Policy\<close>, \<open>Blacklist\<close>, \<open>Modbus_Server\<close>: the contract of a ban table (locale \<open>ban_policy\<close>,
    with what any number of offences comes to), the table of the code with the firewall commands,
    which keeps it; client loop, server loop, start and stop. \<open>Modbus_Client\<close>: the test client
    \<open>app/modbus/modbus_test_client.c\<close> over libmodbus, and its run against that server. \<open>Regs_Race\<close>: the
    four stores of the collector and the four loads of the server in every interleaving, and the
    replies that come of them.
  \<^item> \<open>Row_Sink\<close>, \<open>Db_Manager\<close>: the contract of the database layer (locales \<open>service\<close> and its extension
    \<open>row_sink\<close>), and batches in front of SQLite, in the state monad: a sink of rows when SQLite works,
    a service with or without it as long as the database is open.
  \<^item> \<open>Sensor_Hal\<close>, \<open>Mpu6050_Hal\<close>, \<open>Sht30_Hal\<close>: the registry, the contract of a driver (locale
    \<open>sensor_driver\<close>, interpreted for both) and the two drivers.
  \<^item> \<open>Sht30_Driver\<close>, \<open>Mpu6050_Driver\<close>: the kernel drivers, with checksum, fixed-point conversion,
    bus recovery as a wave on two lines, and the removal as a step relation. \<open>Sysfs_Path\<close>: the
    attribute files between the two drivers of the humidity sensor.
  \<^item> \<open>Collector\<close>: the thread round by round, an abstract controller of the sensors' health, and the
    refinement between them.
  \<^item> \<open>Exposition\<close>, \<open>Web\<close>: the texts byte by byte, \<open>%.1f\<close> with its two roundings, what the script of
    the page reads back; request line, answers, sending loops, the thread.
  \<^item> \<open>Dead_Sensor\<close>: the drivers and the collector while the humidity sensor no longer answers, which is
    not noticed, and while the motion sensor is silent, which is.
  \<^item> \<open>Motion_Path\<close>: the motion sensor's values from the kernel driver's blocks through the input layer and
    the user-space driver to the rows of the collector.
  \<^item> \<open>Main_App\<close>: the order of the start, the exits, the end.
  \<^item> \<open>Readings\<close>, \<open>System\<close>, \<open>System_Safety\<close>: where the values the collector publishes come from; the
    collector, the web thread, the Modbus server and the monitor in any interleaving, as a step
    relation; its invariants by rule induction and what they give.
  \<^item> This theory: the properties that span components.

  \<^bold>\<open>How the code is modelled.\<close> A C function is a definition of the same name; what it keeps between
  calls is a record with the C names of its fields, passed in and returned. What the outside answers
  (system calls, SQLite, libevdev, libmodbus, the kernel, clocks) is an argument: a value, a list of
  the successive answers, a record of functions for SQLite, a function for \<open>system\<close>. Where a
  property needs more of it, a named hypothesis states the documented behaviour
  (\<open>sqlite_works\<close>, \<open>opens_ok\<close>, \<open>iptables_ok\<close>, \<open>reads_on\<close>, \<open>passes_changes\<close>), with an instance in the witness. Undefined
  behaviour of C (an index out of its array, a NULL string) is \<open>None\<close> or \<open>Inl\<close>. Integers that wrap
  or are shifted are words of their width; streaks of failures and times are \<open>int\<close>, and the
  properties bound the number of rounds by \<open>2^31\<close> where the code would overflow. In the theories of
  one component an atomic variable is a field that a step reads and writes at once; a thread that
  reads several of another's gets each as an argument of its own. In \<open>System\<close> every such load sees
  any state of the past, each its own, as relaxed loads may, and a round of the collector is
  split where another thread can look in between: that allows more than the hardware does, so
  \<open>System\<close> only serves properties of all runs; what can happen to the registers is shown in
  \<open>Regs_Race\<close>, without a stale load. In \<open>Spsc\<close> every load, store and copy is a step; a load of
  the other thread's index may be stale, but not older than the one before it, and brings the
  slots with it that were written before (acquire and release). A server that banned an address
  goes on reading the open connection; which packets still arrive is the firewall's affair, and the
  model of the server answers those that do.

  \<^bold>\<open>Loops and fuel.\<close> Loops over arrays are recursion with a measure; loops over answers of the
  outside consume a list of them, so that an exhausted list is a loop that has not ended. The
  removal of the firewall rules takes fuel; one more than the number of copies of its rule is
  enough (\<open>clear_rules_exact\<close>). The sending loop needs at most as many calls as bytes
  (\<open>send_loop_ends\<close>).

  \<^bold>\<open>What the lemmas show.\<close> Every component has an invariant and lemmas that its operations keep
  it (\<open>bl_ok\<close>, \<open>db_ok\<close>, \<open>hal_ok\<close>, \<open>window_of\<close>, \<open>fsm_ok\<close>, \<open>collector_ok\<close>, \<open>removal_ok\<close>, \<open>spsc_ok\<close>, \<open>system_ok\<close>), lemmas that
  give each operation's result on each branch, and properties over runs of operations. The
  properties also pin down what the code does where that is not what it means to do: samples lost
  and torn after one lap, replies that mix two measurements, a dead sensor whose last values are measured again and again, a board that is reset when the collector
  may not be real-time or when a silent client is waited for a little too long, old samples out of a
  partial frame, frames shifted by an axis that did not move, frames that queue up because one is read for ten, bans that are not removed, rows lost in silence, a state
  that is never left, a page that does not show values below zero.

  \<^bold>\<open>Not modelled.\<close> Log output, but for the line of a transition (its tables of names) and the verdicts
  of the two test programs; sleeping; names of threads; signal handling; the mutexes, beyond the
  atomicity of what they protect; the tables of names by which the kernel matches and loads the two
  drivers; the overflow of the queue of input events; calls that only end something that is not used again
  (\<open>shutdown\<close> before the close of a web connection, the \<open>ring_buffer_destroy\<close> of the test program). The generated module tables and the shell scripts are not code of the program.
\<close>

section \<open>From the bus to the registers\<close>

text \<open>
  C18. The values survive the file system: whatever 32-bit values the kernel driver has, the decimal
  texts of its two attributes are read back by the user-space driver as exactly these values, in
  one attempt each, and become the gauges; as long as the kernel driver has no measurement, the
  three attempts fail and nothing but the retry counter changes.
\<close>

theorem sysfs_roundtrip:
  "(valid d \<longrightarrow>
      (\<exists>x y m'. sht30_hal_read 32 ts [sysfs_attempt (temp1_input_show d)] [sysfs_attempt (humidity1_input_show d)] m
          = Some (32, [x, y], [], [], m')
        \<and> sd_value x = temp d \<and> sd_value y = sd_humidity d \<and> channel x = 0 \<and> channel y = 1
        \<and> g_temperature_milli m' = temp d \<and> g_humidity_milli m' = sd_humidity d
        \<and> g_i2c_retry_total m' = g_i2c_retry_total m))
    \<and> (\<not> valid d \<longrightarrow>
      sht30_hal_read 32 ts (replicate 3 (sysfs_attempt (temp1_input_show d))) hums m = Some (- EIO, [], [], hums, add_retries 3 m))"
  using read_driver [of d ts m] read_no_attribute [of "- ENODATA" m]
  by (auto simp: sht30_hal_read_def temp1_input_show_def errno_defs)

theorem sysfs_roundtrip_witness:
  "(\<exists>x y m'. sht30_hal_read 32 \<lparr>tv_sec = 5, tv_nsec = 6\<rparr> [sysfs_attempt (temp1_input_show \<lparr>temp = -5250, sd_humidity = 74583, valid = True\<rparr>)]
        [sysfs_attempt (humidity1_input_show \<lparr>temp = -5250, sd_humidity = 74583, valid = True\<rparr>)] metrics_start
      = Some (32, [x, y], [], [], m') \<and> sd_value x = -5250 \<and> sd_value y = 74583)
    \<and> (\<exists>m'. sht30_hal_read 32 \<lparr>tv_sec = 5, tv_nsec = 6\<rparr>
        (replicate 3 (sysfs_attempt (temp1_input_show \<lparr>temp = 0, sd_humidity = 0, valid = False\<rparr>))) [] metrics_start
      = Some (- EIO, [], [], [], m'))"
  using sysfs_roundtrip [of "\<lparr>temp = -5250, sd_humidity = 74583, valid = True\<rparr>" "\<lparr>tv_sec = 5, tv_nsec = 6\<rparr>" metrics_start]
    sysfs_roundtrip [of "\<lparr>temp = 0, sd_humidity = 0, valid = False\<rparr>" "\<lparr>tv_sec = 5, tv_nsec = 6\<rparr>" metrics_start "[]"]
  by auto

text \<open>The two registers of a measurement: no bit of the quotient by ten is lost in 16 bits.\<close>

lemma sint_u16: "- 32768 \<le> k \<Longrightarrow> k < 32768 \<Longrightarrow> sint (word_of_int k :: u16) = k"
  by (simp add: signed_of_int signed_take_bit_int_eq_self)

lemma uint_u16: "0 \<le> k \<Longrightarrow> k < 65536 \<Longrightarrow> uint (word_of_int k :: u16) = k"
  by (simp add: unsigned_of_int take_bit_int_eq_self)

lemma sdiv_10_bounds: "- 45000 \<le> v \<Longrightarrow> v \<le> 131000 \<Longrightarrow> - 4500 \<le> v sdiv 10 \<and> v sdiv 10 \<le> 13100" for v :: int
  by (auto simp: signed_divide_int_def sgn_if abs_if)

lemma sdiv_10_nonneg: "0 \<le> v \<Longrightarrow> v \<le> 131000 \<Longrightarrow> 0 \<le> v sdiv 10 \<and> v sdiv 10 \<le> 13100" for v :: int
  by (auto simp: signed_divide_int_def sgn_if abs_if)

lemma measured_range:
  assumes "frame_ok f"
  shows "- 45000 \<le> sint (temp (drv_data (sht30_work_handler 2 6 f s)))"
    "sint (temp (drv_data (sht30_work_handler 2 6 f s))) \<le> 131000"
    "0 \<le> sint (sd_humidity (drv_data (sht30_work_handler 2 6 f s)))"
    "sint (sd_humidity (drv_data (sht30_work_handler 2 6 f s))) \<le> 131000"
    "valid (drv_data (sht30_work_handler 2 6 f s))"
proof -
  let ?t = "raw16 (f ! 0) (f ! 1)" and ?h = "raw16 (f ! 3) (f ! 4)"
  have "0 \<le> uint ?t" "uint ?t \<le> 65535" "0 \<le> uint ?h" "uint ?h \<le> 65535"
    using unsigned_less [of ?t, where ?'a = int] unsigned_less [of ?h, where ?'a = int] by simp_all
  then have "0 \<le> 21965 * uint ?t div 8192" "21965 * uint ?t div 8192 \<le> 176000"
    "0 \<le> 12500 * uint ?h div 8192" "12500 * uint ?h div 8192 \<le> 131000"
    by linarith+
  then show "- 45000 \<le> sint (temp (drv_data (sht30_work_handler 2 6 f s)))"
    "sint (temp (drv_data (sht30_work_handler 2 6 f s))) \<le> 131000"
    "0 \<le> sint (sd_humidity (drv_data (sht30_work_handler 2 6 f s)))"
    "sint (sd_humidity (drv_data (sht30_work_handler 2 6 f s))) \<le> 131000"
    "valid (drv_data (sht30_work_handler 2 6 f s))"
    using assms work_handler_eq [of f 2 6 s] by (auto simp: frame_ok_def convert_temp_eq convert_humidity_eq)
qed

text \<open>
  C3. A measurement reaches the outside unchanged: a good frame on the i2c bus, decoded by the
  kernel driver, read from its attributes by the user-space driver and taken by a round of the
  collector (whatever the motion sensor does in it) is published in the Modbus registers as a
  tenth of the two values, in 16 bits signed and unsigned without loss, in the context as the
  values, and as the last two rows for the database.
\<close>

theorem measurement_reaches_registers:
  assumes "frame_ok f" and "d = drv_data (sht30_work_handler 2 6 f s)"
    and "sht30_hal_read 32 ts [sysfs_attempt (temp1_input_show d)] [sysfs_attempt (humidity1_input_show d)] m
      = Some (n, out, temps', hums', m')"
    and "in_sht i = (n, out)" and "collector_ok k c" and "k \<le> 2147483648" and "sht_open c" and "read_ok 6 6 (in_mpu i)"
  shows "\<exists>c' rows. collector_round i c = Some c'
    \<and> sint (temperature (c_regs c')) = sint (temp d) sdiv 10
    \<and> uint (humidity (c_regs c')) = sint (sd_humidity d) sdiv 10
    \<and> temp_raw (g_fsm c') = temp d \<and> hum_raw (g_fsm c') = sd_humidity d
    \<and> inserts c' = inserts c @ rows
        @ [Insert (in_sht_time i) ''sht30'' ''temperature'' (sint (temp d)),
           Insert (in_sht_time i) ''sht30'' ''humidity'' (sint (sd_humidity d))]"
proof -
  note range = measured_range [OF assms(1), of s, folded assms(2)]
  obtain x y where xy: "n = 32" "out = [x, y]" "sd_value x = temp d" "sd_value y = sd_humidity d" "channel x = 0" "channel y = 1"
    using read_driver [OF range(5), of ts m] assms(3) by auto
  have "possible i"
    using assms(4,8) xy by (simp add: possible_def read_ok_def)
  then obtain c1 c2 where r: "collector_round i c = Some (beat (publish_state c2))" "mpu_result i (beat c) c1" "sht_result i c1 c2"
    using collector_round_phases [OF assms(5) _ assms(6)] by blast
  have delivers: "sht_delivers i c1" "sht_delivers i c"
    using assms(4,7) xy(1) mpu_result_health(4) [OF r(2)] by (auto simp: sht_delivers_def)
  have t: "sint (word_of_int (sint (temp d) sdiv 10) :: u16) = sint (temp d) sdiv 10"
    using sdiv_10_bounds [OF range(1,2)] by (intro sint_u16) auto
  have h: "uint (word_of_int (sint (sd_humidity d) sdiv 10) :: u16) = sint (sd_humidity d) sdiv 10"
    using sdiv_10_nonneg [OF range(3,4)] by (intro uint_u16) auto
  have rows: "inserts c2 = inserts c @ mpu_rows i c
      @ [Insert (in_sht_time i) ''sht30'' ''temperature'' (sint (temp d)),
         Insert (in_sht_time i) ''sht30'' ''humidity'' (sint (sd_humidity d))]"
    using r(2,3) mpu_result_health(3) [OF r(2)] delivers assms(4) xy
    by (simp add: mpu_result_def sht_result_def sht_rows_def sht_row_def sht_channel_name_def)
  have regs: "temp_raw (g_fsm c2) = temp d" "hum_raw (g_fsm c2) = sd_humidity d"
    "temperature (c_regs c2) = word_of_int (sint (temp d) sdiv 10)"
    "humidity (c_regs c2) = word_of_int (sint (sd_humidity d) sdiv 10)"
    using r(3) delivers(1) assms(4) xy by (auto simp: sht_result_def)
  show ?thesis
    by (intro exI [of _ "beat (publish_state c2)"] exI [of _ "mpu_rows i c"]) (simp add: r(1) rows regs t h)
qed

theorem measurement_reaches_registers_witness:
  "\<exists>i c'. collector_round i started = Some c' \<and> sint (temperature (c_regs c')) = 2528 \<and> uint (humidity (c_regs c')) = 7458"
proof -
  let ?f = "[0x66, 0x66, 0x93, 0xBE, 0xEF, 0x92] :: u8 list"
  let ?d = "drv_data (sht30_work_handler 2 6 ?f sht30_start)"
  let ?ts = "\<lparr>tv_sec = 5, tv_nsec = 6\<rparr>"
  have d: "sint (temp ?d) = 25286" "sint (sd_humidity ?d) = 74583"
    using work_handler_eq [of ?f 2 6 sht30_start] frame_example
    by (simp_all add: convert_temp_eq convert_humidity_eq raw16_def)
  have "valid ?d"
    by (rule measured_range(5) [OF frame_example])
  then obtain x y m' where r: "sht30_hal_read 32 ?ts [sysfs_attempt (temp1_input_show ?d)]
      [sysfs_attempt (humidity1_input_show ?d)] metrics_start = Some (32, [x, y], [], [], m')"
    using read_driver by blast
  show ?thesis
    using measurement_reaches_registers [OF frame_example refl r, of "round_of [] (0, []) (32, [x, y])" 0 started] started_ok d
    by (intro exI [of _ "round_of [] (0, []) (32, [x, y])"]) auto
qed

section \<open>The program from its start\<close>

lemma main_start_waits:
  assumes "opens_ok api" and "length (batch_buffer (a_db a)) = BATCH_SIZE" and "a_threads a = []"
    and "main_start api e a = Some (Waits, a')"
  shows "booted a'"
proof -
  obtain b where "booted b" "a_threads b = []" "start_threads e b = (Waits, a')"
    using main_start_cases [OF assms(4,1-3)] by auto
  then show ?thesis
    using start_threads_outcome by (fastforce simp: booted_def)
qed



section \<open>The heartbeats and the monitor\<close>

text \<open>
  C13. A live system is never reset: if between any two samples of the monitor the collector completes
  a round and the web thread one of its own, whatever the sensors and the clients do, the monitor
  feeds the device at every sample, never leaves its loop and names no thread dead.
\<close>

theorem live_system_is_fed:
  assumes "collector_ok n c" and "g_sensor_heartbeat c = 0" and "g_http_heartbeat w = 0" and "length rss = length iss"
    and "\<forall>is\<in>set iss. is \<noteq> [] \<and> (\<forall>i\<in>set is. possible i)" and "n + length (concat iss) \<le> 2147483648"
    and "\<forall>rs\<in>set rss. rs \<noteq> [] \<and> (\<forall>r\<in>set rs. request_ok r)" and "length (concat rss) \<le> 2 ^ 62"
  shows "\<exists>ss hs. samples collector_loop g_sensor_heartbeat iss c = Some ss \<and> samples web_run g_http_heartbeat rss w = Some hs
    \<and> (let m = watchdog_monitor_thread True test_mode (zip ss hs) in
       \<not> wd_exited m \<and> wd_feeds m = length iss \<and> g_watchdog_dead_thread m = 0)"
proof -
  obtain ss hs where ss: "samples collector_loop g_sensor_heartbeat iss c = Some ss" "length ss = length iss" "moving 0 ss"
    and hs: "samples web_run g_http_heartbeat rss w = Some hs" "length hs = length rss" "moving 0 hs"
    using collector_beats.samples_moving [OF assms(1,5,6)] web_beats.samples_moving [of rss 0 w] assms(2,3,7,8) by auto
  have "\<not> someone_dead (take k (zip ss hs))" for k
    using moving_not_stalled [OF moving_take [OF ss(3)], of 5 k] moving_not_stalled [OF moving_take [OF hs(3)], of 5 k]
      ss(2) hs(2) assms(4) by (simp add: someone_dead_def take_zip flip: take_map)
  then show ?thesis
    using watchdog_loop_running [of "zip ss hs" test_mode] ss hs assms(4)
    by (simp add: watchdog_monitor_thread_def Let_def)
qed

theorem live_system_is_fed_witness:
  "\<exists>ss hs. samples collector_loop g_sensor_heartbeat [[both_fail], [both_fail, both_fail]] started = Some ss
    \<and> samples web_run g_http_heartbeat [[web_request_of (-1) []], [web_request_of 6 ''GET'']] idle_web = Some hs
    \<and> wd_feeds (watchdog_monitor_thread True False (zip ss hs)) = 2"
proof -
  have "possible both_fail"
    by (rule driver_round_possible [OF both_fail_driver])
  then have "\<exists>ss hs. samples collector_loop g_sensor_heartbeat [[both_fail], [both_fail, both_fail]] started = Some ss
    \<and> samples web_run g_http_heartbeat [[web_request_of (-1) []], [web_request_of 6 ''GET'']] idle_web = Some hs
    \<and> (let m = watchdog_monitor_thread True False (zip ss hs) in
       \<not> wd_exited m \<and> wd_feeds m = length [[both_fail], [both_fail, both_fail]] \<and> g_watchdog_dead_thread m = 0)"
    using web_request_of_ok by (intro live_system_is_fed [OF started_ok(1)]) (simp_all add: started_def idle_web_def)
  then show ?thesis
    by (auto simp: Let_def simp del: samples.simps)
qed

lemma refused_samples:
  assumes "moving 0 hs" and "5 \<le> length hs"
  shows "let w = watchdog_monitor_thread True False (map (\<lambda>h. (0, h)) hs) in
    wd_exited w \<and> wd_feeds w = 4 \<and> g_watchdog_dead_thread w = 1"
proof -
  let ?hbs = "map (\<lambda>h. (0 :: u64, h)) hs"
  have http: "\<not> stalled (0 # map snd (take k ?hbs)) 5" for k
    using moving_not_stalled [OF moving_take [OF assms(1)], of 5 k] by (simp add: take_map comp_def)
  have sensor: "stalled (0 # map fst (take k ?hbs)) 5 \<longleftrightarrow> 5 \<le> k" if "k \<le> length hs" for k
  proof -
    have "0 # map fst (take k ?hbs) = replicate (Suc k) 0"
      using that by (simp add: take_map comp_def map_replicate_const)
    then show ?thesis
      by (auto simp: stalled_def simp del: replicate.simps)
  qed
  have "someone_dead (take (Suc 4) ?hbs)" "\<And>j. j \<le> 4 \<Longrightarrow> \<not> someone_dead (take j ?hbs)"
    using http sensor assms(2) by (simp_all add: someone_dead_def)
  then show ?thesis
    using watchdog_loop_stops [of 4 ?hbs] http [of "Suc 4"] assms(2) by (simp add: watchdog_monitor_thread_def Let_def)
qed

text \<open>
  C35. A collector that is refused its core or its real-time class returns before its loop, without
  a beat, and outside the test mode the monitor then lets the board be reset: at its fifth sample,
  although the web thread works, naming the collector. A collector that is granted both never
  returns, so that the code of \<open>main\<close> behind the joins is not reached.
\<close>

theorem refused_collector_resets:
  assumes "\<not> thread_setup os COLLECTOR_CPU_CORE COLLECTOR_SCHED_POLICY COLLECTOR_PRIORITY"
    and "thread_setup os' COLLECTOR_CPU_CORE COLLECTOR_SCHED_POLICY COLLECTOR_PRIORITY"
    and "moving 0 hs" and "5 \<le> length hs"
  shows "(\<exists>s. collector_thread os files r buf6 buf2 ctx m regs rounds = Some s
      \<and> (let w = watchdog_monitor_thread True False (map (\<lambda>h. (seen_heartbeat s, h)) hs) in
         wd_exited w \<and> wd_feeds w = 4 \<and> g_watchdog_dead_thread w = 1))
    \<and> collector_thread os' files r buf6 buf2 ctx m regs rounds \<noteq> Some Returned"
  using assms(1,2) refused_samples [OF assms(3,4)]
  by (auto simp: collector_thread_def Let_def split: option.splits)

theorem refused_collector_resets_witness:
  "\<exists>s. collector_thread unprivileged_os [] 0 [] [] running_fsm metrics_start zero_regs [] = Some s
    \<and> wd_exited (watchdog_monitor_thread True False (map (\<lambda>h. (seen_heartbeat s, h)) [1, 2, 3, 4, 5, 6]))"
proof -
  have "moving 0 [1, 2, 3, 4, 5, 6 :: u64]"
    by simp
  then show ?thesis
    using refused_collector_resets [OF thread_setup_examples(1,3), of "[1, 2, 3, 4, 5, 6]" "[]" 0 "[]" "[]" running_fsm
        metrics_start zero_regs "[]"] by (auto simp: Let_def)
qed

section \<open>The resources of the two drivers\<close>

text \<open>
  The two user-space drivers leak nothing: an open that fails leaves everything released, one
  that succeeds holds exactly its descriptors, its library object and its block, a close releases
  them and clears the handle, and a second close is refused without touching anything.
\<close>

theorem hal_open_close:
  "(case mpu6050_hal_open open_fd errno_open new_evdev set_fd_rc block held of
      (ret, None, held') \<Rightarrow> held' = held \<and> ret \<in> {- errno_open, - ENOMEM, - ENODEV}
    | (ret, Some h, held') \<Rightarrow> ret = 0 \<and> hal_ok (snd h) \<and> length held' = length held + 3
        \<and> mpu6050_hal_close (Some h) held' = (0, None, held) \<and> mpu6050_hal_close None held' = (- EINVAL, None, held'))
    \<and> (case sht30_hal_open path block open_temp errno_temp open_hum errno_hum held of
      (ret, None, held') \<Rightarrow> held' = held \<and> ret \<in> {- errno_temp, - errno_hum, - ENOMEM}
    | (ret, Some h, held') \<Rightarrow> ret = 0 \<and> length held' = length held + 3
        \<and> sht30_hal_close (Some h) held' = (0, None, held) \<and> sht30_hal_close None held' = (- EINVAL, None, held'))"
  by (auto simp: mpu6050_hal_open_def mpu6050_hal_close_def sht30_hal_open_def sht30_hal_close_def hal_ok_def
      zero_sensor_data_def errno_defs Let_def split: option.split)

end
